(* ===== verification/Prelude.thy ===== *)
theory Prelude
  imports Main "HOL-Library.Word" "HOL-Library.Monad_Syntax" "HOL-Library.AList"
    "HOL-Library.Multiset" "HOL-Library.Sublist"
begin

unbundle bit_operations_syntax

text \<open>
  What the components share: the names of the machine types, the parts of the Go language and
  its standard library the sources use everywhere (checked slice reads, map reads with a zero
  default, decimal printing by the verb d of fmt), the collections of facts that carry the proofs, and
  the generic lemmas on words and lists.

  Conventions. A Go \<open>uint64\<close> is a \<open>64 word\<close>, so addition wraps as it does in Go. A Go \<open>int\<close>
  that counts ticks is an \<open>int\<close>. A slice is a list; \<open>len\<close> of a slice is at most \<open>2 ^ 63 - 1\<close> in Go,
  so the conversion of a length to \<open>uint64\<close> is exact and a comparison against it is written on \<open>nat\<close>.
  A nil slice and an empty slice are both \<open>[]\<close>. A computation that can end in a run-time panic has
  an \<open>option\<close> type, with \<open>None\<close> for the panic; a returned \<open>error\<close> is a value of the package's own
  error datatype.
\<close>

type_synonym u64 = "64 word"
type_synonym u32 = "32 word"
type_synonym byte = "8 word"

text \<open>An \<open>error\<close> result of Go: \<open>None\<close> is \<open>nil\<close>.\<close>

type_synonym 'e err = "'e option"

text \<open>A Go computation that may panic: \<open>None\<close> is the run-time panic.\<close>

type_synonym 'a run = "'a option"

named_theorems log_defs "the definitions of the operations of the replicated log"

subsection \<open>Slices and maps of Go\<close>

definition go_index :: "'a list \<Rightarrow> nat \<Rightarrow> 'a run" where
  "go_index xs i = (if i < length xs then Some (xs ! i) else None)"

lemma go_index_Some [simp]: "i < length xs \<Longrightarrow> go_index xs i = Some (xs ! i)"
  by (simp add: go_index_def)

lemma go_index_None [simp]: "length xs \<le> i \<Longrightarrow> go_index xs i = None"
  by (simp add: go_index_def)

text \<open>Reading the elements with positions \<open>lo, \<dots>, hi - 1\<close> one by one, as a counting loop does.\<close>

fun go_range :: "'a list \<Rightarrow> nat \<Rightarrow> nat \<Rightarrow> 'a list run" where
  "go_range xs lo 0 = Some []"
| "go_range xs lo (Suc k) =
     do { x \<leftarrow> go_index xs lo; ys \<leftarrow> go_range xs (Suc lo) k; Some (x # ys) }"

lemma go_range_eq:
  "lo + k \<le> length xs \<Longrightarrow> go_range xs lo k = Some (take k (drop lo xs))"
proof (induction k arbitrary: lo)
  case 0
  then show ?case by simp
next
  case (Suc k)
  then have "go_range xs (Suc lo) k = Some (take k (drop (Suc lo) xs))" by simp
  moreover have "drop lo xs = xs ! lo # drop (Suc lo) xs"
    using Suc.prems by (simp add: Cons_nth_drop_Suc)
  ultimately show ?case using Suc.prems by simp
qed

lemma go_range_panic: "0 < k \<Longrightarrow> length xs < lo + k \<Longrightarrow> go_range xs lo k = None"
proof (induction k arbitrary: lo)
  case 0
  then show ?case by simp
next
  case (Suc k)
  show ?case
  proof (cases "lo < length xs")
    case True
    with Suc.prems have "0 < k" "length xs < Suc lo + k" by (cases k, auto)
    with Suc.IH show ?thesis by simp
  next
    case False
    then show ?thesis by simp
  qed
qed

text \<open>Reading a map at a key it does not hold gives the zero value of the element type.\<close>

definition mget :: "('k \<rightharpoonup> 'v) \<Rightarrow> 'v \<Rightarrow> 'k \<Rightarrow> 'v" where
  "mget m z k = (case m k of None \<Rightarrow> z | Some v \<Rightarrow> v)"

lemma mget_simps [simp]:
  "mget Map.empty z k = z"
  "mget (m(k' \<mapsto> v)) z k = (if k = k' then v else mget m z k)"
  by (simp_all add: mget_def)

subsection \<open>Decimal printing\<close>

fun dec_nat :: "nat \<Rightarrow> string" where
  "dec_nat n = (if n < 10 then [char_of (48 + n)] else dec_nat (n div 10) @ [char_of (48 + n mod 10)])"

declare dec_nat.simps [simp del]

definition fmt_d :: "'a::len word \<Rightarrow> string" where
  "fmt_d w = dec_nat (unat w)"

definition fmt_int :: "int \<Rightarrow> string" where
  "fmt_int i = (if i < 0 then ''-'' @ dec_nat (nat (- i)) else dec_nat (nat i))"

definition fmt_v :: "bool \<Rightarrow> string" where
  "fmt_v b = (if b then ''true'' else ''false'')"

subsection \<open>Words\<close>

lemma unat_Suc_word': "(w::'a::len word) \<noteq> - 1 \<Longrightarrow> unat (w + 1) = Suc (unat w)"
  by (metis add.commute add_eq_0_iff unatSuc)

lemma word_less_Suc: "(w::'a::len word) \<noteq> - 1 \<Longrightarrow> w < w + 1"
  by (simp add: word_less_nat_alt unat_Suc_word')

lemma unat_Suc_word: "w < v \<Longrightarrow> unat ((w::'a::len word) + 1) = Suc (unat w)"
  by (metis not_less word_order.extremum unat_Suc_word')

lemma unat_pred_word: "w \<noteq> 0 \<Longrightarrow> unat ((w::'a::len word) - 1) = unat w - 1"
  by (metis unat_minus_one)

lemma unat_pred_less: "c < (w::'a::len word) \<Longrightarrow> unat (w - 1) < unat w"
  by (metis unat_pred_word diff_less unat_gt_0 word_not_simps(1) zero_less_one not_gr_zero
      unat_eq_zero)

lemma unat_Suc_small: "unat (w :: u64) < 2 ^ 63 \<Longrightarrow> unat (w + 1) = Suc (unat w)"
  by (rule unat_Suc_word') (auto simp: unsigned_minus_1_eq_mask mask_eq_exp_minus_1)

lemma unat_of_nat64: "n < 2 ^ 64 \<Longrightarrow> unat (of_nat n :: u64) = n"
  by (simp add: unat_of_nat)

end
