(* ===== verification/Raft_Log.thy ===== *)
theory Raft_Log
  imports Prelude
begin

text \<open>
  The replicated log of internal/log/log.go: its entries, its commit index, and the operations of
  \<open>Log\<close> that a node drives. Position 0 of the slice holds the dummy entry, so the entry with index
  \<open>i\<close> is at position \<open>i\<close> of the list; \<open>log_ok\<close> is that invariant. The field \<open>entries\<close> is not exported
  and never becomes empty: every constructor and every operation keeps the dummy.

  \<open>Truncate\<close> reslices with \<open>l.entries[:fromIndex]\<close>; beyond the length Go panics or, where the
  capacity allows it, exposes cells that are not part of the log. Capacities are not modelled: that
  case is \<open>None\<close>, and the lemmas show that no log that satisfies \<open>log_ok\<close> reaches it.
\<close>

subsection \<open>Data\<close>

record entry =
  eTerm :: u64
  eIndex :: u64
  eCommand :: "byte list"

record log =
  entries :: "entry list"
  commitIndex :: u64

text \<open>Why a persisted state is refused, one constructor per message of \<open>Deserialize\<close>.\<close>

datatype corrupt =
    TruncatedCurrentTerm
  | TruncatedVotedFor
  | TruncatedNumEntries
  | ImplausibleCount u64
  | TruncatedEntry nat
  | NonContiguousIndex nat u64 u64
  | TruncatedCommand nat

datatype log_error =
    ErrIndexOutOfRange
  | ErrCommitRegression
  | ErrCorruptState corrupt
  | NonContiguousAppend u64 u64
  | TruncateDummy
  | TruncateGap u64 u64
  | CommitBeyondLast u64 u64

definition dummy :: entry where
  "dummy = \<lparr>eTerm = 0, eIndex = 0, eCommand = []\<rparr>"

subsection \<open>Operations\<close>

definition log_New :: log where
  "log_New = \<lparr>entries = [dummy], commitIndex = 0\<rparr>"

definition Len :: "log \<Rightarrow> int" where [log_defs]:
  "Len l = int (length (entries l)) - 1"

definition Last :: "log \<Rightarrow> u64 \<times> u64" where
  "Last l =
     (if length (entries l) = 1 then (0, 0)
      else let e = last (entries l) in (eIndex e, eTerm e))"

definition At :: "log \<Rightarrow> u64 \<Rightarrow> log_error + entry" where [log_defs]:
  "At l index =
     (if length (entries l) \<le> unat index then Inl ErrIndexOutOfRange
      else Inr (entries l ! unat index))"

definition TermAt :: "log \<Rightarrow> u64 \<Rightarrow> log_error + u64" where [log_defs]:
  "TermAt l index =
     (if length (entries l) \<le> unat index then Inl ErrIndexOutOfRange
      else Inr (eTerm (entries l ! unat index)))"

definition Slice :: "log \<Rightarrow> u64 \<Rightarrow> u64 \<Rightarrow> entry list run" where
  "Slice l lo hi =
     (let lo = (if lo < 1 then 1 else lo);
          lastIdx = fst (Last l);
          hi = (if hi > lastIdx + 1 then lastIdx + 1 else hi)
      in if lo \<ge> hi then Some []
         else go_range (entries l) (unat lo) (unat (hi - lo)))"

definition MatchesPrevLogTerm :: "log \<Rightarrow> u64 \<Rightarrow> u64 \<Rightarrow> bool" where [log_defs]:
  "MatchesPrevLogTerm l prevIndex prevTerm =
     (if prevIndex = 0 then True
      else if length (entries l) \<le> unat prevIndex then False
      else eTerm (entries l ! unat prevIndex) = prevTerm)"

definition appendTail :: "log \<Rightarrow> entry list \<Rightarrow> log" where [log_defs]:
  "appendTail l es = l\<lparr>entries := entries l @ es\<rparr>"

definition Truncate :: "log \<Rightarrow> u64 \<Rightarrow> (log_error err \<times> log) run" where
  "Truncate l fromIndex =
     (if fromIndex = 0 then Some (Some TruncateDummy, l)
      else
        let lastIdx = fst (Last l) in
        if fromIndex > lastIdx + 1 then Some (Some (TruncateGap fromIndex lastIdx), l)
        else if unat fromIndex > length (entries l) then None
        else
          let l1 = l\<lparr>entries := take (unat fromIndex) (entries l)\<rparr>;
              l2 = (if commitIndex l1 > lastIdx then l1\<lparr>commitIndex := lastIdx\<rparr> else l1);
              l3 = (if commitIndex l2 > fromIndex - 1 then l2\<lparr>commitIndex := fromIndex - 1\<rparr> else l2)
          in Some (None, l3))"

text \<open>The validation loop of \<open>Append\<close>: the first entry whose index does not follow its predecessor's.\<close>

fun append_check :: "entry list \<Rightarrow> log_error err" where
  "append_check [] = None"
| "append_check [e] = None"
| "append_check (e1 # e2 # es) =
     (if eIndex e2 \<noteq> eIndex e1 + 1 then Some (NonContiguousAppend (eIndex e2) (eIndex e1))
      else append_check (e2 # es))"

text \<open>The conflict loop of \<open>Append\<close>. The error of \<open>Truncate\<close> is dropped, as in the source.\<close>

fun append_loop :: "log \<Rightarrow> entry list \<Rightarrow> log run" where
  "append_loop l [] = Some l"
| "append_loop l (e # es) =
     (if length (entries l) \<le> unat (eIndex e) then Some (appendTail l (e # es))
      else if eTerm (entries l ! unat (eIndex e)) \<noteq> eTerm e then
        do { (_, l') \<leftarrow> Truncate l (eIndex e); Some (appendTail l' (e # es)) }
      else append_loop l es)"

definition Append :: "log \<Rightarrow> entry list \<Rightarrow> (log_error err \<times> log) run" where
  "Append l es =
     (if es = [] then Some (None, l)
      else case append_check es of
             Some e \<Rightarrow> Some (Some e, l)
           | None \<Rightarrow> do { l' \<leftarrow> append_loop l es; Some (None, l') })"

definition CommitIndex :: "log \<Rightarrow> u64" where [log_defs]:
  "CommitIndex l = commitIndex l"

definition CommitTo :: "log \<Rightarrow> u64 \<Rightarrow> log_error err \<times> log" where [log_defs]:
  "CommitTo l index =
     (let lastIdx = fst (Last l) in
      if index > lastIdx then (Some (CommitBeyondLast index lastIdx), l)
      else if index < commitIndex l then (Some ErrCommitRegression, l)
      else if index = commitIndex l then (None, l)
      else (None, l\<lparr>commitIndex := index\<rparr>))"

definition CommittedEntries :: "log \<Rightarrow> entry list run" where
  "CommittedEntries l =
     (let lastIdx = fst (Last l);
          hi = (if commitIndex l > lastIdx then lastIdx else commitIndex l)
      in Slice l 1 (hi + 1))"

subsection \<open>The invariant of an uncompacted log\<close>

definition indexed :: "entry list \<Rightarrow> bool" where
  "indexed es \<longleftrightarrow>
     es \<noteq> [] \<and> es ! 0 = dummy \<and> length es < 2 ^ 63 \<and> (\<forall>k < length es. eIndex (es ! k) = of_nat k)"

definition log_ok :: "log \<Rightarrow> bool" where
  "log_ok l \<longleftrightarrow> indexed (entries l) \<and> unat (commitIndex l) < length (entries l)"

lemma indexedD:
  assumes "indexed es"
  shows "es \<noteq> []" and "0 < length es" and "es ! 0 = dummy" and "length es < 2 ^ 63"
    and "\<And>k. k < length es \<Longrightarrow> eIndex (es ! k) = of_nat k"
  using assms by (auto simp: indexed_def)

lemma unat_of_nat_len [simp]: "k < 2 ^ 63 \<Longrightarrow> unat (of_nat k :: u64) = k"
  by (simp add: unat_of_nat)

lemma unat_of_nat_pred [simp]: "0 < k \<Longrightarrow> k < 2 ^ 63 \<Longrightarrow> unat (of_nat k - 1 :: u64) = k - 1"
  by (metis One_nat_def of_nat_1 of_nat_diff Suc_leI less_imp_diff_less unat_of_nat_len)

lemma unat_index:
  "indexed es \<Longrightarrow> k < length es \<Longrightarrow> unat (eIndex (es ! k)) = k"
  by (simp add: indexed_def)

lemma indexed_take: "indexed es \<Longrightarrow> 0 < k \<Longrightarrow> indexed (take k es)"
  by (auto simp: indexed_def)

lemma indexed_append:
  assumes "indexed es" and "length (es @ ns) < 2 ^ 63"
    and "\<And>k. k < length ns \<Longrightarrow> eIndex (ns ! k) = of_nat (length es + k)"
  shows "indexed (es @ ns)"
  using assms by (auto simp: indexed_def nth_append)

lemma Last_eq:
  assumes "indexed (entries l)"
  shows "Last l = (of_nat (length (entries l) - 1), eTerm (last (entries l)))"
proof (cases "length (entries l) = 1")
  case True
  with indexedD(1,3) [OF assms] have "last (entries l) = dummy" by (simp add: last_conv_nth)
  with True show ?thesis by (simp add: Last_def dummy_def)
next
  case False
  with indexedD [OF assms] show ?thesis by (simp add: Last_def Let_def last_conv_nth)
qed

lemma unat_Last: "indexed (entries l) \<Longrightarrow> unat (fst (Last l)) = length (entries l) - 1"
  using indexedD(4) [of "entries l"] by (simp add: Last_eq)

lemma unat_Last_Suc: "indexed (entries l) \<Longrightarrow> unat (fst (Last l) + 1) = length (entries l)"
proof -
  assume ok: "indexed (entries l)"
  have "fst (Last l) + 1 = of_nat (length (entries l))"
    using indexedD(2) [OF ok] by (simp add: Last_eq [OF ok] of_nat_diff Suc_leI)
  then show ?thesis using indexedD(4) [OF ok] by simp
qed

lemma log_ok_New [simp]: "log_ok log_New"
  by (simp add: log_ok_def indexed_def log_New_def dummy_def)

subsection \<open>What the operations compute on such a log\<close>

lemma Slice_eq:
  assumes ok: "indexed (entries l)"
  shows "Slice l lo hi = Some (drop (max 1 (unat lo)) (take (unat hi) (entries l)))"
proof -
  let ?es = "entries l"
  define lo' where "lo' = (if lo < 1 then 1 else lo)"
  define hi' where "hi' = (if hi > fst (Last l) + 1 then fst (Last l) + 1 else hi)"
  have lo': "unat lo' = max 1 (unat lo)"
    by (auto simp: lo'_def word_less_nat_alt)
  have hi': "unat hi' = min (unat hi) (length ?es)"
    using unat_Last_Suc [OF ok] by (auto simp: hi'_def word_less_nat_alt)
  have take: "take (unat hi) ?es = take (unat hi') ?es"
    by (simp add: hi' min_def)
  have eq: "Slice l lo hi =
      (if lo' \<ge> hi' then Some [] else go_range ?es (unat lo') (unat (hi' - lo')))"
    by (simp only: Slice_def Let_def lo'_def hi'_def)
  show ?thesis
  proof (cases "lo' \<ge> hi'")
    case True
    then have "drop (max 1 (unat lo)) (take (unat hi') ?es) = []"
      using lo' by (simp add: word_le_nat_alt)
    with True show ?thesis by (simp only: eq take if_True)
  next
    case False
    then have "unat (hi' - lo') = unat hi' - unat lo'" "unat lo' < unat hi'"
      by (simp_all add: unat_sub word_less_nat_alt word_le_nat_alt)
    moreover from this have "go_range ?es (unat lo') (unat hi' - unat lo') =
        Some (take (unat hi' - unat lo') (drop (unat lo') ?es))"
      by (intro go_range_eq) (simp add: hi')
    ultimately show ?thesis
      using False lo' by (simp only: eq take if_False drop_take)
  qed
qed

lemma Slice_tail:
  "indexed (entries l) \<Longrightarrow>
     Slice l lo (fst (Last l) + 1) = Some (drop (max 1 (unat lo)) (entries l))"
  by (simp add: Slice_eq unat_Last_Suc)

lemma CommittedEntries_eq:
  assumes "log_ok l"
  shows "CommittedEntries l = Some (drop 1 (take (Suc (unat (commitIndex l))) (entries l)))"
proof -
  from assms have ok: "indexed (entries l)" and c: "unat (commitIndex l) < length (entries l)"
    by (auto simp: log_ok_def)
  have le: "\<not> commitIndex l > fst (Last l)"
    using c unat_Last [OF ok] by (simp add: word_less_nat_alt)
  have "unat (commitIndex l + 1) = Suc (unat (commitIndex l))"
    using c indexedD(4) [OF ok] by (intro unat_Suc_small) simp
  with le show ?thesis
    by (simp add: CommittedEntries_def Slice_eq [OF ok])
qed

subsection \<open>Truncation and conflict resolution\<close>

lemma Truncate_eq:
  assumes ok: "log_ok l" and "0 < k" and "k \<le> length (entries l)"
  shows "Truncate l (of_nat k) =
     Some (None, \<lparr>entries = take k (entries l),
                  commitIndex = (if k - 1 < unat (commitIndex l) then of_nat (k - 1) else commitIndex l)\<rparr>)"
proof -
  from ok have ix: "indexed (entries l)" and c: "unat (commitIndex l) < length (entries l)"
    by (auto simp: log_ok_def)
  have k: "k < 2 ^ 63" using assms(3) indexedD(4) [OF ix] by simp
  then have uk: "unat (of_nat k :: u64) = k" by simp
  have "of_nat k \<noteq> (0 :: u64)" using \<open>0 < k\<close> uk by (metis unat_0 less_irrefl)
  moreover have "\<not> fst (Last l) + 1 < of_nat k"
    using assms(3) by (simp add: word_less_nat_alt uk unat_Last_Suc [OF ix])
  moreover have "\<not> commitIndex l > fst (Last l)"
    using c unat_Last [OF ix] by (simp add: word_less_nat_alt)
  moreover have "of_nat k - 1 = (of_nat (k - 1) :: u64)" using \<open>0 < k\<close> by simp
  moreover have "of_nat (k - 1) < commitIndex l \<longleftrightarrow> k - 1 < unat (commitIndex l)"
    using k by (simp add: word_less_nat_alt)
  ultimately show ?thesis
    using assms(3) uk by (cases l) (simp add: Truncate_def Let_def)
qed

text \<open>
  The reference for \<open>Append\<close>: the first position at which the incoming entries leave the log,
  either because the log ends there or because the terms differ.
\<close>

fun first_diff :: "entry list \<Rightarrow> nat \<Rightarrow> entry list \<Rightarrow> nat option" where
  "first_diff es p [] = None"
| "first_diff es p (n # ns) =
     (if p < length es \<and> eTerm (es ! p) = eTerm n then first_diff es (Suc p) ns else Some p)"

definition merged :: "entry list \<Rightarrow> nat \<Rightarrow> entry list \<Rightarrow> entry list" where
  "merged es p ns =
     (case first_diff es p ns of None \<Rightarrow> es | Some j \<Rightarrow> take j es @ drop (j - p) ns)"

definition merged_commit :: "log \<Rightarrow> nat \<Rightarrow> entry list \<Rightarrow> u64" where
  "merged_commit l p ns =
     (case first_diff (entries l) p ns of
        None \<Rightarrow> commitIndex l
      | Some j \<Rightarrow> if j < length (entries l) \<and> j - 1 < unat (commitIndex l) then of_nat (j - 1)
                  else commitIndex l)"

text \<open>Entries numbered from \<open>p\<close> on.\<close>

definition numbered :: "nat \<Rightarrow> entry list \<Rightarrow> bool" where
  "numbered p ns \<longleftrightarrow> p + length ns < 2 ^ 63 \<and> (\<forall>k < length ns. eIndex (ns ! k) = of_nat (p + k))"

lemma numbered_Cons:
  "numbered p (n # ns) \<longleftrightarrow>
     eIndex n = of_nat p \<and> numbered (Suc p) ns \<and> p + length (n # ns) < 2 ^ 63"
  by (simp add: numbered_def All_less_Suc2) auto

lemma append_check_numbered: "numbered p ns \<Longrightarrow> append_check ns = None"
proof (induction ns arbitrary: p rule: append_check.induct)
  case (3 e1 e2 es)
  then have "numbered (Suc p) (e2 # es)" "eIndex e2 = eIndex e1 + 1"
    by (auto simp: numbered_Cons)
  with 3 show ?case by simp
qed simp_all

lemma first_diff_bounds:
  "first_diff es p ns = Some j \<Longrightarrow> p \<le> j \<and> j < p + length ns"
  by (induction es p ns rule: first_diff.induct) (auto split: if_splits)

lemma first_diff_le:
  "first_diff es p ns = Some j \<Longrightarrow> p \<le> length es \<Longrightarrow> j \<le> length es"
  by (induction es p ns rule: first_diff.induct) (auto split: if_splits)

lemma merged_step:
  "p < length es \<Longrightarrow> eTerm (es ! p) = eTerm n \<Longrightarrow> merged es p (n # ns) = merged es (Suc p) ns"
  by (auto simp: merged_def drop_Cons' split: option.splits dest: first_diff_bounds)

lemma merged_diff:
  "\<not> (p < length es \<and> eTerm (es ! p) = eTerm n) \<Longrightarrow> merged es p (n # ns) = take p es @ n # ns"
  by (auto simp: merged_def)

lemma append_loop_eq:
  assumes "log_ok l" and "numbered p ns" and "0 < p" and "p \<le> length (entries l)"
  shows "append_loop l ns =
     Some \<lparr>entries = merged (entries l) p ns, commitIndex = merged_commit l p ns\<rparr>"
  using assms(2,3,4)
proof (induction ns arbitrary: p)
  case Nil
  then show ?case by (cases l) (simp add: merged_def merged_commit_def)
next
  case (Cons n ns)
  then have n: "eIndex n = of_nat p" "p < 2 ^ 63" "numbered (Suc p) ns"
    by (auto simp: numbered_Cons)
  then have up: "unat (eIndex n) = p" by simp
  show ?case
  proof (cases "p < length (entries l)")
    case False
    with Cons.prems up show ?thesis
      by (cases l) (simp add: merged_def merged_commit_def log_defs)
  next
    case True
    show ?thesis
    proof (cases "eTerm (entries l ! p) = eTerm n")
      case eq: True
      have "append_loop l ns =
          Some \<lparr>entries = merged (entries l) (Suc p) ns, commitIndex = merged_commit l (Suc p) ns\<rparr>"
        using True n(3) by (intro Cons.IH) simp_all
      moreover have "merged (entries l) (Suc p) ns = merged (entries l) p (n # ns)"
        using True eq by (simp add: merged_step)
      moreover have "merged_commit l (Suc p) ns = merged_commit l p (n # ns)"
        using True eq by (simp add: merged_commit_def)
      ultimately show ?thesis using True eq up by simp
    next
      case False
      with True up n(1) Truncate_eq [OF assms(1) Cons.prems(2) Cons.prems(3)] show ?thesis
        by (simp add: merged_def merged_commit_def log_defs)
    qed
  qed
qed

lemma Append_eq:
  assumes "log_ok l" and "numbered p ns" and "0 < p" and "p \<le> length (entries l)"
  shows "Append l ns =
     Some (None, \<lparr>entries = merged (entries l) p ns, commitIndex = merged_commit l p ns\<rparr>)"
proof (cases "ns = []")
  case True
  then show ?thesis by (cases l) (simp add: Append_def merged_def merged_commit_def)
next
  case False
  with append_check_numbered [OF assms(2)] append_loop_eq [OF assms] show ?thesis
    by (simp add: Append_def)
qed

lemma indexed_merged:
  assumes "indexed es" and "numbered p ns" and "0 < p" and "p \<le> length es"
  shows "indexed (merged es p ns)"
proof (cases "first_diff es p ns")
  case None
  with assms(1) show ?thesis by (simp add: merged_def)
next
  case (Some j)
  have j: "p \<le> j" "j < p + length ns" "j \<le> length es"
    using first_diff_bounds [OF Some] first_diff_le [OF Some assms(4)] by auto
  have "indexed (take j es @ drop (j - p) ns)"
  proof (rule indexed_append)
    show "indexed (take j es)" using assms j by (intro indexed_take) auto
    show "length (take j es @ drop (j - p) ns) < 2 ^ 63"
      using assms(2) j by (auto simp: numbered_def)
    fix k
    assume "k < length (drop (j - p) ns)"
    then show "eIndex (drop (j - p) ns ! k) = of_nat (length (take j es) + k)"
      using assms(2) j by (auto simp: numbered_def min_def)
  qed
  with Some show ?thesis by (simp add: merged_def)
qed

lemma length_merged:
  assumes "p \<le> length es"
  shows "first_diff es p ns = Some j \<Longrightarrow> length (merged es p ns) = p + length ns"
  using first_diff_bounds [of es p ns j] first_diff_le [of es p ns j] assms
  by (auto simp: merged_def)

lemma log_ok_merged:
  assumes "log_ok l" and "numbered p ns" and "0 < p" and "p \<le> length (entries l)"
  shows "log_ok \<lparr>entries = merged (entries l) p ns, commitIndex = merged_commit l p ns\<rparr>"
proof -
  from assms(1) have ix: "indexed (entries l)" and c: "unat (commitIndex l) < length (entries l)"
    by (auto simp: log_ok_def)
  have "unat (merged_commit l p ns) < length (merged (entries l) p ns)"
  proof (cases "first_diff (entries l) p ns")
    case None
    with c show ?thesis by (simp add: merged_def merged_commit_def)
  next
    case (Some j)
    have j: "p \<le> j" "j < p + length ns" "j \<le> length (entries l)"
      using first_diff_bounds [OF Some] first_diff_le [OF Some assms(4)] by auto
    have "j < 2 ^ 63" using j indexedD(4) [OF ix] by simp
    moreover have "length (merged (entries l) p ns) = p + length ns"
      using length_merged [OF assms(4) Some] .
    ultimately show ?thesis using Some j c assms(3)
      by (auto simp: merged_commit_def)
  qed
  with indexed_merged [OF ix assms(2,3,4)] show ?thesis by (simp add: log_ok_def)
qed

text \<open>An append never raises the commit index, and one at the end of the log keeps it.\<close>

lemma merged_commit_le: "merged_commit l p ns \<le> commitIndex l"
proof -
  have "of_nat k \<le> commitIndex l" if "k < unat (commitIndex l)" for k
  proof -
    have "unat (commitIndex l) < 2 ^ 64" using unsigned_less [of "commitIndex l"] by simp
    with that have "k < 2 ^ 64" by simp
    with that show ?thesis by (simp add: word_le_nat_alt unat_of_nat64)
  qed
  then show ?thesis by (auto simp: merged_commit_def split: option.splits)
qed

lemma merged_commit_end: "p = length (entries l) \<Longrightarrow> merged_commit l p ns = commitIndex l"
  by (cases ns) (simp_all add: merged_commit_def)

subsection \<open>The interface the node relies on\<close>

text \<open>
  Two logs are coherent when an entry with the same index and term in both gives them the same
  prefix up to there: the Log Matching Property of two logs.
\<close>

definition coherent :: "entry list \<Rightarrow> entry list \<Rightarrow> bool" where
  "coherent a b \<longleftrightarrow>
     (\<forall>k < min (length a) (length b). eTerm (a ! k) = eTerm (b ! k) \<longrightarrow> take (Suc k) a = take (Suc k) b)"

lemma coherentD:
  "coherent a b \<Longrightarrow> k < length a \<Longrightarrow> k < length b \<Longrightarrow> eTerm (a ! k) = eTerm (b ! k) \<Longrightarrow>
     take (Suc k) a = take (Suc k) b"
  by (simp add: coherent_def)

lemma merged_adopt:
  assumes "coherent es h" and "take q es = take q h" and "q \<le> length es" and "q \<le> length h"
  shows "merged es q (drop q h) = (if prefix h es then es else h)"
  using assms(2,3,4)
proof (induction "length h - q" arbitrary: q)
  case 0
  then have "h = take q es" "drop q h = []" by auto
  then have "prefix h es" by (metis take_is_prefix)
  with \<open>drop q h = []\<close> show ?case by (simp add: merged_def)
next
  case (Suc m)
  then have q: "q < length h" by simp
  then have d: "drop q h = h ! q # drop (Suc q) h" by (simp add: Cons_nth_drop_Suc)
  show ?case
  proof (cases "q < length es \<and> eTerm (es ! q) = eTerm (h ! q)")
    case True
    with q have "take (Suc q) es = take (Suc q) h" using coherentD [OF assms(1)] by blast
    with True q Suc.hyps(1) [of "Suc q"] Suc.hyps(2) show ?thesis
      by (simp add: d merged_step)
  next
    case False
    have "\<not> prefix h es"
    proof
      assume "prefix h es"
      then obtain r where "es = h @ r" by (auto simp: prefix_def)
      with q False show False by (simp add: nth_append)
    qed
    moreover have "merged es q (drop q h) = take q h @ drop q h"
      using merged_diff [OF False, of "drop (Suc q) h"] Suc.prems(1) by (simp only: d)
    ultimately show ?thesis by simp
  qed
qed

locale replicated_log =
  fixes ents :: "'l \<Rightarrow> entry list"
    and ok :: "'l \<Rightarrow> bool"
    and last_of :: "'l \<Rightarrow> u64 \<times> u64"
    and matches :: "'l \<Rightarrow> u64 \<Rightarrow> u64 \<Rightarrow> bool"
    and append :: "'l \<Rightarrow> entry list \<Rightarrow> (log_error err \<times> 'l) run"
    and commit_of :: "'l \<Rightarrow> u64"
  assumes ok_indexed: "ok l \<Longrightarrow> indexed (ents l)"
    and last_of_eq: "ok l \<Longrightarrow> last_of l = (of_nat (length (ents l) - 1), eTerm (last (ents l)))"
    and matches_iff: "ok l \<Longrightarrow>
      matches l i t \<longleftrightarrow> i = 0 \<or> unat i < length (ents l) \<and> eTerm (ents l ! unat i) = t"
    and append_merges: "ok l \<Longrightarrow> numbered p ns \<Longrightarrow> 0 < p \<Longrightarrow> p \<le> length (ents l) \<Longrightarrow>
      \<exists>l'. append l ns = Some (None, l') \<and> ok l' \<and> ents l' = merged (ents l) p ns \<and>
        commit_of l' \<le> commit_of l \<and> (p = length (ents l) \<longrightarrow> commit_of l' = commit_of l)"
begin

text \<open>A leader's own append: one new entry with the next index.\<close>

lemma append_next:
  assumes "ok l" and "Suc (length (ents l)) < 2 ^ 63" and "eIndex e = fst (last_of l) + 1"
  shows "\<exists>l'. append l [e] = Some (None, l') \<and> ok l' \<and> ents l' = ents l @ [e] \<and> commit_of l' = commit_of l"
proof -
  have "0 < length (ents l)" using ok_indexed [OF assms(1)] by (rule indexedD)
  then have "eIndex e = of_nat (length (ents l))"
    using assms(3) by (simp add: last_of_eq [OF assms(1)] of_nat_diff Suc_leI)
  then have "numbered (length (ents l)) [e]"
    using assms(2) by (simp add: numbered_def)
  from append_merges [OF assms(1) this] \<open>0 < length (ents l)\<close> show ?thesis
    by (auto simp: merged_def)
qed

text \<open>
  A follower's append: the entries after position \<open>p\<close> of a log \<open>h\<close> it is coherent with, when its
  own log passed the previous-entry check at \<open>p\<close>. It keeps its log if that already extends \<open>h\<close>,
  and has exactly \<open>h\<close> otherwise.
\<close>

lemma append_adopts:
  assumes "ok l" and "indexed h" and "coherent (ents l) h" and "p < length h"
    and "matches l (of_nat p) (eTerm (h ! p))"
  shows "\<exists>l'. append l (drop (Suc p) h) = Some (None, l') \<and> ok l' \<and>
     ents l' = (if prefix h (ents l) then ents l else h)"
proof -
  have ix: "indexed (ents l)" using assms(1) by (rule ok_indexed)
  have p63: "p < 2 ^ 63" using assms(2,4) indexedD(4) by fastforce
  have p: "p < length (ents l) \<and> eTerm (ents l ! p) = eTerm (h ! p)"
  proof (cases "p = 0")
    case True
    then show ?thesis using indexedD [OF ix] indexedD(3) [OF assms(2)] by simp
  next
    case False
    with p63 have "(of_nat p :: u64) \<noteq> 0" by (metis unat_0 unat_of_nat_len)
    with assms(5) p63 show ?thesis by (simp add: matches_iff [OF assms(1)])
  qed
  then have agree: "take (Suc p) (ents l) = take (Suc p) h"
    using coherentD [OF assms(3)] assms(4) by blast
  have "numbered (Suc p) (drop (Suc p) h)"
    using assms(4) indexedD(4,5) [OF assms(2)] by (auto simp: numbered_def)
  from append_merges [OF assms(1) this] p obtain l'
    where "append l (drop (Suc p) h) = Some (None, l')" "ok l'"
      and "ents l' = merged (ents l) (Suc p) (drop (Suc p) h)"
    by auto
  with merged_adopt [OF assms(3) agree] p assms(4) show ?thesis by simp
qed

end

interpretation rl: replicated_log entries log_ok Last MatchesPrevLogTerm Append commitIndex
proof unfold_locales
  fix l :: log and i t :: u64
  assume l: "log_ok l"
  then show "indexed (entries l)" by (simp add: log_ok_def)
  then show "Last l = (of_nat (length (entries l) - 1), eTerm (last (entries l)))"
    by (rule Last_eq)
  show "MatchesPrevLogTerm l i t \<longleftrightarrow>
      i = 0 \<or> unat i < length (entries l) \<and> eTerm (entries l ! unat i) = t"
    by (simp add: log_defs)
next
  fix l :: log and p ns
  assume "log_ok l" "numbered p ns" "0 < p" "p \<le> length (entries l)"
  then show "\<exists>l'. Append l ns = Some (None, l') \<and> log_ok l' \<and> entries l' = merged (entries l) p ns \<and>
      commitIndex l' \<le> commitIndex l \<and> (p = length (entries l) \<longrightarrow> commitIndex l' = commitIndex l)"
    by (simp add: Append_eq log_ok_merged merged_commit_le merged_commit_end)
qed

end
