(* ===== verification/Bytes.thy ===== *)
theory Bytes
  imports Prelude
begin

text \<open>
  Bytes: the fixed-width integer encodings of Go's encoding/binary that the packages log, codec,
  persist, snapshot and statemachine use, and the interface of a byte codec. An encoder writes a
  value as bytes; a decoder takes the value off the front of the input and hands the rest back.
  The locale \<open>byte_codec\<close> states the law every encoder/decoder pair of the sources promises and
  derives what a counted sequence of such values needs; each package interprets it on its own
  reader and writer.
\<close>

subsection \<open>Little and big endian\<close>

text \<open>
  \<open>PutUint\<close> stores \<open>byte(v >> (8 * i))\<close> at position \<open>i\<close>; \<open>Uint\<close> rebuilds the value as
  \<open>b[0] | b[1] << 8 | \<dots>\<close>. Big endian is the same on the reversed bytes.
\<close>

definition le_bytes :: "nat \<Rightarrow> 'a::len word \<Rightarrow> byte list" where
  "le_bytes k v = map (\<lambda>i. ucast (drop_bit (8 * i) v)) [0..<k]"

fun le_word :: "byte list \<Rightarrow> 'a::len word" where
  "le_word [] = 0"
| "le_word (b # bs) = ucast b OR push_bit 8 (le_word bs)"

definition be_bytes :: "nat \<Rightarrow> 'a::len word \<Rightarrow> byte list" where
  "be_bytes k v = rev (le_bytes k v)"

definition be_word :: "byte list \<Rightarrow> 'a::len word" where
  "be_word bs = le_word (rev bs)"

lemma length_le_bytes [simp]: "length (le_bytes k v) = k"
  by (simp add: le_bytes_def)

lemma length_be_bytes [simp]: "length (be_bytes k v) = k"
  by (simp add: be_bytes_def)

lemma bit_le_word:
  "bit (le_word bs :: 'a::len word) n \<longleftrightarrow>
     n < LENGTH('a) \<and> n div 8 < length bs \<and> bit (bs ! (n div 8)) (n mod 8)"
proof (induction bs arbitrary: n)
  case Nil
  then show ?case by simp
next
  case (Cons b bs)
  show ?case
  proof (cases "n < 8")
    case True
    then show ?thesis
      by (auto simp: bit_or_iff bit_push_bit_iff bit_ucast_iff)
  next
    case False
    then obtain m where m: "n = m + 8" by (metis add.commute le_Suc_ex not_less)
    have "n div 8 = Suc (m div 8)" "n mod 8 = m mod 8" by (simp_all add: m)
    moreover have "\<not> bit b n"
      using False bit_imp_le_length [of b n] by auto
    ultimately show ?thesis using m
      by (auto simp: Cons.IH bit_or_iff bit_push_bit_iff bit_ucast_iff)
  qed
qed

lemma le_word_bytes:
  assumes "LENGTH('a) \<le> 8 * k"
  shows "le_word (le_bytes k v) = (v :: 'a::len word)"
proof (rule bit_word_eqI)
  fix n
  assume n: "n < LENGTH('a)"
  with assms have "n div 8 < k" by linarith
  then show "bit (le_word (le_bytes k v) :: 'a word) n = bit v n"
    using n by (simp add: bit_le_word le_bytes_def bit_ucast_iff bit_drop_bit_eq)
qed

lemma le_bytes_word:
  assumes "length bs = k" and "8 * k \<le> LENGTH('a::len)"
  shows "le_bytes k (le_word bs :: 'a word) = bs"
proof (rule nth_equalityI)
  show "length (le_bytes k (le_word bs :: 'a word)) = length bs" using assms by simp
  fix i
  assume "i < length (le_bytes k (le_word bs :: 'a word))"
  then have i: "i < k" by simp
  show "le_bytes k (le_word bs :: 'a word) ! i = bs ! i"
  proof (rule bit_word_eqI)
    fix n
    assume n: "n < LENGTH(8)"
    have "(8 * i + n) div 8 = i" "(8 * i + n) mod 8 = n" using n by simp_all
    moreover have "8 * i + n < LENGTH('a)" using n i assms by simp
    ultimately show "bit (le_bytes k (le_word bs :: 'a word) ! i) n = bit (bs ! i) n"
      using n i assms by (simp add: le_bytes_def bit_ucast_iff bit_drop_bit_eq bit_le_word)
  qed
qed

lemma be_word_bytes:
  "LENGTH('a) \<le> 8 * k \<Longrightarrow> be_word (be_bytes k v) = (v :: 'a::len word)"
  by (simp add: be_word_def be_bytes_def le_word_bytes)

lemma be_bytes_word:
  "length bs = k \<Longrightarrow> 8 * k \<le> LENGTH('a::len) \<Longrightarrow> be_bytes k (be_word bs :: 'a word) = bs"
  by (simp add: be_word_def be_bytes_def le_bytes_word)

subsection \<open>Readers\<close>

text \<open>
  An \<open>io.Reader\<close> over bytes in memory or in a file is the list of bytes still to be read.
  \<open>io.ReadFull\<close> fails with \<open>EOF\<close> when nothing is left and with \<open>ErrUnexpectedEOF\<close> when too little
  is left; a read of no bytes succeeds.
\<close>

datatype io_error = EOF | ErrUnexpectedEOF

definition read_full :: "nat \<Rightarrow> byte list \<Rightarrow> io_error + (byte list \<times> byte list)" where
  "read_full k bs =
     (if k \<le> length bs then Inr (take k bs, drop k bs)
      else if bs = [] then Inl EOF else Inl ErrUnexpectedEOF)"

text \<open>Go's \<open>x, err := read(r); if err != nil { return wrap(err) }\<close>, followed by \<open>k\<close>.\<close>

definition try_read :: "'i + ('a \<times> byte list) \<Rightarrow> ('i \<Rightarrow> 'e) \<Rightarrow> ('a \<Rightarrow> byte list \<Rightarrow> 'e + 'b) \<Rightarrow> 'e + 'b" where
  "try_read s wrap k = (case s of Inl e \<Rightarrow> Inl (wrap e) | Inr (x, r) \<Rightarrow> k x r)"

lemma try_read_simps [simp]: "try_read (Inl e) wrap k = Inl (wrap e)" "try_read (Inr (x, r)) wrap k = k x r"
  by (simp_all add: try_read_def)

lemma try_read_Inr: "try_read s wrap k = Inr y \<longleftrightarrow> (\<exists>x r. s = Inr (x, r) \<and> k x r = Inr y)"
  by (auto simp: try_read_def split: sum.splits)

text \<open>A loop that fills a slice of \<open>k\<close> elements, one decoded value each.\<close>

fun read_n :: "(byte list \<Rightarrow> 'e + ('a \<times> byte list)) \<Rightarrow> nat \<Rightarrow> byte list \<Rightarrow> 'e + ('a list \<times> byte list)" where
  "read_n dec 0 bs = Inr ([], bs)"
| "read_n dec (Suc k) bs =
     (case dec bs of
        Inl e \<Rightarrow> Inl e
      | Inr (x, bs1) \<Rightarrow>
          (case read_n dec k bs1 of
             Inl e \<Rightarrow> Inl e
           | Inr (xs, bs2) \<Rightarrow> Inr (x # xs, bs2)))"

lemma read_full_append [simp]: "length xs = k \<Longrightarrow> read_full k (xs @ rest) = Inr (xs, rest)"
  by (simp add: read_full_def)

lemma read_full_InrD:
  "read_full k bs = Inr (xs, rest) \<Longrightarrow> bs = xs @ rest \<and> length xs = k"
  by (auto simp: read_full_def split: if_splits)

subsection \<open>The interface of a codec\<close>

locale byte_codec =
  fixes enc :: "'a \<Rightarrow> byte list"
    and dec :: "byte list \<Rightarrow> 'e + ('a \<times> byte list)"
    and ok :: "'a \<Rightarrow> bool"
  assumes dec_enc: "ok x \<Longrightarrow> dec (enc x @ rest) = Inr (x, rest)"
    and enc_dec: "dec bs = Inr (x, rest) \<Longrightarrow> ok x \<and> bs = enc x @ rest"
begin

lemma enc_prefix_free:
  assumes "ok x" and "ok y" and "enc x @ r = enc y @ s"
  shows "x = y \<and> r = s"
proof -
  have "Inr (x, r) = (Inr (y, s) :: 'e + ('a \<times> byte list))"
    using dec_enc [OF assms(1), of r] dec_enc [OF assms(2), of s] unfolding assms(3)
    by (rule trans [OF sym])
  then show ?thesis by simp
qed

text \<open>A proper prefix of an encoding is never accepted.\<close>

lemma dec_truncated:
  assumes "ok x" and "k < length (enc x)"
  shows "\<exists>e. dec (take k (enc x)) = Inl e"
proof (cases "dec (take k (enc x))")
  case (Inr p)
  then obtain y r where "dec (take k (enc x)) = Inr (y, r)" by (cases p) auto
  from enc_dec [OF this] have y: "ok y" "take k (enc x) = enc y @ r" by auto
  then have "enc x @ [] = enc y @ (r @ drop k (enc x))" by (metis append.right_neutral append_assoc append_take_drop_id)
  from enc_prefix_free [OF assms(1) y(1) this] assms(2) show ?thesis by simp
qed simp

lemma read_n_enc:
  "\<forall>x \<in> set xs. ok x \<Longrightarrow> read_n dec (length xs) (concat (map enc xs) @ rest) = Inr (xs, rest)"
  by (induction xs) (simp_all add: dec_enc)

lemma enc_read_n:
  "read_n dec k bs = Inr (xs, rest) \<Longrightarrow>
     length xs = k \<and> (\<forall>x \<in> set xs. ok x) \<and> bs = concat (map enc xs) @ rest"
proof (induction k arbitrary: bs xs)
  case 0
  then show ?case by simp
next
  case (Suc k)
  then obtain x bs1 ys where "dec bs = Inr (x, bs1)" "read_n dec k bs1 = Inr (ys, rest)"
      "xs = x # ys"
    by (auto split: sum.splits prod.splits)
  with Suc.IH [of bs1 ys] enc_dec [of bs x bs1] show ?case by auto
qed

end

subsection \<open>The integer readers and writers of the packages codec, persist and snapshot\<close>

definition writeU64 :: "u64 \<Rightarrow> byte list" where
  "writeU64 v = be_bytes 8 v"

definition readU64 :: "byte list \<Rightarrow> io_error + (u64 \<times> byte list)" where
  "readU64 bs =
     (case read_full 8 bs of
        Inl e \<Rightarrow> Inl e
      | Inr (buf, rest) \<Rightarrow> Inr (be_word buf, rest))"

definition writeU32 :: "u32 \<Rightarrow> byte list" where
  "writeU32 v = be_bytes 4 v"

definition readU32 :: "byte list \<Rightarrow> io_error + (u32 \<times> byte list)" where
  "readU32 bs =
     (case read_full 4 bs of
        Inl e \<Rightarrow> Inl e
      | Inr (buf, rest) \<Rightarrow> Inr (be_word buf, rest))"

lemma length_writeU64 [simp]: "length (writeU64 v) = 8"
  by (simp add: writeU64_def)

lemma length_writeU32 [simp]: "length (writeU32 v) = 4"
  by (simp add: writeU32_def)

interpretation u64_be: byte_codec writeU64 readU64 "\<lambda>_. True"
proof unfold_locales
  fix x :: u64 and rest
  show "readU64 (writeU64 x @ rest) = Inr (x, rest)"
    by (simp add: readU64_def writeU64_def be_word_bytes)
next
  fix bs rest and x :: u64
  assume "readU64 bs = Inr (x, rest)"
  then show "True \<and> bs = writeU64 x @ rest"
    by (auto simp: readU64_def writeU64_def be_bytes_word dest!: read_full_InrD
        split: sum.splits)
qed

interpretation u32_be: byte_codec writeU32 readU32 "\<lambda>_. True"
proof unfold_locales
  fix x :: u32 and rest
  show "readU32 (writeU32 x @ rest) = Inr (x, rest)"
    by (simp add: readU32_def writeU32_def be_word_bytes)
next
  fix bs rest and x :: u32
  assume "readU32 bs = Inr (x, rest)"
  then show "True \<and> bs = writeU32 x @ rest"
    by (auto simp: readU32_def writeU32_def be_bytes_word dest!: read_full_InrD
        split: sum.splits)
qed

end
