(* ===== verification/Log_State.thy ===== *)
theory Log_State
  imports Raft_Log Bytes
begin

text \<open>
  The persistent state of internal/log/log.go: \<open>PersistedState\<close>, \<open>Serialize\<close> and \<open>Deserialize\<close>.
  The cursor \<open>pos\<close> of the reader is modelled by the bytes that are left. The theorems show that
  \<open>Deserialize\<close> accepts exactly the serialized states with consecutive indices from 1, followed by
  any bytes, and rejects every truncation.
\<close>

record persisted =
  psCurrentTerm :: u64
  psVotedFor :: u64
  psEntries :: "entry list"

definition putU64 :: "u64 \<Rightarrow> byte list" where
  "putU64 v = le_bytes 8 v"

definition ser_entry :: "entry \<Rightarrow> byte list" where
  "ser_entry e =
     putU64 (eTerm e) @ putU64 (eIndex e) @ putU64 (of_nat (length (eCommand e))) @ eCommand e"

definition Serialize :: "persisted \<Rightarrow> byte list" where
  "Serialize s =
     putU64 (psCurrentTerm s) @ putU64 (psVotedFor s) @ putU64 (of_nat (length (psEntries s))) @
     concat (map ser_entry (psEntries s))"

text \<open>
  The closure \<open>readU64\<close> of \<open>Deserialize\<close>: \<open>Inl ()\<close> is the result \<open>(0, false)\<close>. It leaves the cursor
  where it is when it fails, so within one entry the first failing read makes the others fail too.
\<close>

definition getU64 :: "byte list \<Rightarrow> unit + (u64 \<times> byte list)" where
  "getU64 bs = (if length bs < 8 then Inl () else Inr (le_word (take 8 bs), drop 8 bs))"

definition des_entry :: "nat \<Rightarrow> u64 \<Rightarrow> byte list \<Rightarrow> corrupt + (entry \<times> byte list)" where
  "des_entry i prevIndex bs =
     (case getU64 bs of Inl _ \<Rightarrow> Inl (TruncatedEntry i)
      | Inr (term, bs1) \<Rightarrow>
     (case getU64 bs1 of Inl _ \<Rightarrow> Inl (TruncatedEntry i)
      | Inr (index, bs2) \<Rightarrow>
     (case getU64 bs2 of Inl _ \<Rightarrow> Inl (TruncatedEntry i)
      | Inr (cmdLen, bs3) \<Rightarrow>
        if index \<noteq> prevIndex + 1 then Inl (NonContiguousIndex i index (prevIndex + 1))
        else if length bs3 < unat cmdLen then Inl (TruncatedCommand i)
        else Inr (\<lparr>eTerm = term, eIndex = index, eCommand = take (unat cmdLen) bs3\<rparr>,
                  drop (unat cmdLen) bs3))))"

fun des_entries :: "nat \<Rightarrow> nat \<Rightarrow> u64 \<Rightarrow> byte list \<Rightarrow> corrupt + (entry list \<times> byte list)" where
  "des_entries 0 i prevIndex bs = Inr ([], bs)"
| "des_entries (Suc k) i prevIndex bs =
     (case des_entry i prevIndex bs of
        Inl c \<Rightarrow> Inl c
      | Inr (e, bs1) \<Rightarrow>
          (case des_entries k (Suc i) (eIndex e) bs1 of
             Inl c \<Rightarrow> Inl c
           | Inr (es, bs2) \<Rightarrow> Inr (e # es, bs2)))"

definition Deserialize :: "byte list \<Rightarrow> log_error + persisted" where
  "Deserialize data =
     (case getU64 data of Inl _ \<Rightarrow> Inl (ErrCorruptState TruncatedCurrentTerm)
      | Inr (cur, bs1) \<Rightarrow>
     (case getU64 bs1 of Inl _ \<Rightarrow> Inl (ErrCorruptState TruncatedVotedFor)
      | Inr (vf, bs2) \<Rightarrow>
     (case getU64 bs2 of Inl _ \<Rightarrow> Inl (ErrCorruptState TruncatedNumEntries)
      | Inr (n, bs3) \<Rightarrow>
        if unat n > length data div 24 + 1 then Inl (ErrCorruptState (ImplausibleCount n))
        else case des_entries (unat n) 0 0 bs3 of
               Inl c \<Rightarrow> Inl (ErrCorruptState c)
             | Inr (es, _) \<Rightarrow>
                 Inr \<lparr>psCurrentTerm = cur, psVotedFor = vf, psEntries = es\<rparr>)))"

subsection \<open>The codecs of one integer and of one entry\<close>

lemma length_putU64 [simp]: "length (putU64 v) = 8"
  by (simp add: putU64_def)

interpretation u64_le: byte_codec putU64 getU64 "\<lambda>_. True"
proof unfold_locales
  fix x :: u64 and rest
  show "getU64 (putU64 x @ rest) = Inr (x, rest)"
    by (simp add: getU64_def putU64_def le_word_bytes)
next
  fix bs rest and x :: u64
  assume "getU64 bs = Inr (x, rest)"
  then show "True \<and> bs = putU64 x @ rest"
    by (auto simp: getU64_def putU64_def le_bytes_word split: if_splits)
qed

text \<open>A command that a Go slice can hold has a length below \<open>2 ^ 64\<close>.\<close>

abbreviation small :: "entry \<Rightarrow> bool" where
  "small e \<equiv> length (eCommand e) < 2 ^ 64"

interpretation entry_le: byte_codec ser_entry "des_entry i prevIndex"
    "\<lambda>e. eIndex e = prevIndex + 1 \<and> small e" for i prevIndex
proof unfold_locales
  fix e rest
  assume "eIndex e = prevIndex + 1 \<and> small e"
  then show "des_entry i prevIndex (ser_entry e @ rest) = Inr (e, rest)"
    by (cases e) (simp add: des_entry_def ser_entry_def u64_le.dec_enc unat_of_nat64)
next
  fix bs e rest
  assume "des_entry i prevIndex bs = Inr (e, rest)"
  then obtain t index len bs1 bs2 bs3 where
      "getU64 bs = Inr (t, bs1)" "getU64 bs1 = Inr (index, bs2)" "getU64 bs2 = Inr (len, bs3)"
      and *: "index = prevIndex + 1" "unat len \<le> length bs3"
      "e = \<lparr>eTerm = t, eIndex = index, eCommand = take (unat len) bs3\<rparr>" "rest = drop (unat len) bs3"
    by (auto simp: des_entry_def split: sum.splits prod.splits if_splits)
  then have "bs = putU64 t @ putU64 index @ putU64 len @ bs3"
    using u64_le.enc_dec by simp
  moreover have "min (length bs3) (unat len) = unat len" using * by simp
  ultimately show "(eIndex e = prevIndex + 1 \<and> small e) \<and> bs = ser_entry e @ rest"
    using * unsigned_less [of len] by (simp add: ser_entry_def)
qed

subsection \<open>The sequence of entries\<close>

text \<open>The indices follow one another, starting after \<open>prevIndex\<close>.\<close>

fun consecutive :: "u64 \<Rightarrow> entry list \<Rightarrow> bool" where
  "consecutive prevIndex [] = True"
| "consecutive prevIndex (e # es) = (eIndex e = prevIndex + 1 \<and> consecutive (eIndex e) es)"

lemma des_entries_ser:
  "consecutive prevIndex es \<Longrightarrow> \<forall>e \<in> set es. small e \<Longrightarrow>
     des_entries (length es) i prevIndex (concat (map ser_entry es) @ rest) = Inr (es, rest)"
proof (induction es arbitrary: i prevIndex)
  case (Cons e es)
  then have "des_entry i prevIndex (ser_entry e @ concat (map ser_entry es) @ rest) =
      Inr (e, concat (map ser_entry es) @ rest)"
    by (intro entry_le.dec_enc) simp
  moreover have "des_entries (length es) (Suc i) (eIndex e) (concat (map ser_entry es) @ rest) =
      Inr (es, rest)"
    using Cons.prems by (intro Cons.IH) auto
  ultimately show ?case by simp
qed simp

lemma ser_des_entries:
  "des_entries k i prevIndex bs = Inr (es, rest) \<Longrightarrow>
     length es = k \<and> consecutive prevIndex es \<and> (\<forall>e \<in> set es. small e) \<and>
     bs = concat (map ser_entry es) @ rest"
proof (induction k arbitrary: i prevIndex bs es)
  case (Suc k)
  then obtain e bs1 es' where "des_entry i prevIndex bs = Inr (e, bs1)"
      "des_entries k (Suc i) (eIndex e) bs1 = Inr (es', rest)" "es = e # es'"
    by (auto split: sum.splits prod.splits)
  with Suc.IH [of "Suc i" "eIndex e" bs1 es'] entry_le.enc_dec [of i prevIndex bs e bs1]
  show ?case by simp
qed simp

lemma length_ser_entries: "24 * length es \<le> length (concat (map ser_entry es))"
  by (induction es) (simp_all add: ser_entry_def)

subsection \<open>States\<close>

definition persistable :: "persisted \<Rightarrow> bool" where
  "persistable s \<longleftrightarrow>
     consecutive 0 (psEntries s) \<and> (\<forall>e \<in> set (psEntries s). small e) \<and> length (psEntries s) < 2 ^ 64"

lemma Deserialize_Serialize_append:
  assumes "persistable s"
  shows "Deserialize (Serialize s @ rest) = Inr s"
proof -
  let ?n = "length (psEntries s)"
  have n: "unat (of_nat ?n :: u64) = ?n"
    using assms by (simp add: persistable_def unat_of_nat64)
  have "24 * ?n \<le> length (Serialize s @ rest)"
    using length_ser_entries [of "psEntries s"] by (simp add: Serialize_def)
  then have count: "\<not> unat (of_nat ?n :: u64) > length (Serialize s @ rest) div 24 + 1"
    by (simp add: n)
  have "des_entries ?n 0 0 (concat (map ser_entry (psEntries s)) @ rest) = Inr (psEntries s, rest)"
    using assms by (intro des_entries_ser) (simp_all add: persistable_def)
  with count n show ?thesis
    by (simp add: Deserialize_def Serialize_def u64_le.dec_enc)
qed

lemma Deserialize_InrD:
  assumes "Deserialize data = Inr s"
  shows "persistable s \<and> (\<exists>rest. data = Serialize s @ rest)"
proof -
  obtain cur vf n bs1 bs2 bs3 es rest where g: "getU64 data = Inr (cur, bs1)"
      "getU64 bs1 = Inr (vf, bs2)" "getU64 bs2 = Inr (n, bs3)"
      and d: "des_entries (unat n) 0 0 bs3 = Inr (es, rest)"
      and s: "s = \<lparr>psCurrentTerm = cur, psVotedFor = vf, psEntries = es\<rparr>"
    using assms by (auto simp: Deserialize_def split: sum.splits prod.splits if_splits)
  have "data = putU64 cur @ putU64 vf @ putU64 n @ bs3"
    using g u64_le.enc_dec by simp
  moreover from ser_des_entries [OF d] have "length es = unat n" "consecutive 0 es"
      "\<forall>e \<in> set es. small e" "bs3 = concat (map ser_entry es) @ rest"
    by auto
  moreover have "unat n < 2 ^ 64" using unsigned_less [of n] by simp
  ultimately show ?thesis by (simp add: s persistable_def Serialize_def)
qed

text \<open>C15: persistent state. \<open>Deserialize\<close> returns a state exactly when the bytes are the serialization
  of that state, possibly followed by more bytes, and the state's entries have the indices
  1, 2, 3 and so on: nothing else is accepted, and nothing of a stored state is lost.\<close>

theorem Deserialize_iff:
  "Deserialize data = Inr s \<longleftrightarrow> persistable s \<and> (\<exists>rest. data = Serialize s @ rest)"
  using Deserialize_Serialize_append Deserialize_InrD by blast

text \<open>A truncated state file is refused. Every proper prefix of a serialized state is rejected with
  \<open>ErrCorruptState\<close>.\<close>

theorem Deserialize_truncated:
  assumes "persistable s" and "k < length (Serialize s)"
  shows "\<exists>c. Deserialize (take k (Serialize s)) = Inl (ErrCorruptState c)"
proof (cases "Deserialize (take k (Serialize s))")
  case (Inl e)
  then show ?thesis
    by (auto simp: Deserialize_def split: sum.splits prod.splits if_splits)
next
  case (Inr s')
  then obtain rest where s': "persistable s'" "take k (Serialize s) = Serialize s' @ rest"
    using Deserialize_InrD by blast
  then have eq: "Serialize s = Serialize s' @ rest @ drop k (Serialize s)"
    by (metis append_assoc append_take_drop_id)
  have "Inr s = (Inr s' :: log_error + persisted)"
    using Deserialize_Serialize_append [OF assms(1), of "[]"]
      Deserialize_Serialize_append [OF s'(1), of "rest @ drop k (Serialize s)"] eq by simp
  with eq have "drop k (Serialize s) = []" by simp
  with assms(2) show ?thesis by simp
qed

theorem Deserialize_truncated_witness:
  "\<exists>c. Deserialize (take 5 (Serialize \<lparr>psCurrentTerm = 1, psVotedFor = 0,
     psEntries = [\<lparr>eTerm = 1, eIndex = 1, eCommand = [7]\<rparr>]\<rparr>)) = Inl (ErrCorruptState c)"
  by (rule Deserialize_truncated) (simp_all add: persistable_def Serialize_def)

end
