(* ===== verification/Node.thy ===== *)
theory Node
  imports Log_State
begin

text \<open>
  One Raft peer of internal/node/node.go. The struct \<open>Node\<close> is the record \<open>node\<close>; every method that
  changes it returns the new record, together with the outbound messages. A handler that reads a
  range of the log or truncates it can panic in Go, so it has a \<open>run\<close> type; \<open>Network\<close> shows that no
  reachable node panics.

  The random source is an argument of \<open>New\<close>, as in the source. All a node can see of it is the
  sequence of answers to its calls of \<open>Intn\<close>, so an \<open>rng\<close> is the answer it will give to each call,
  as a function of the call's number and argument, and the number of calls made so far.
\<close>

subsection \<open>Data\<close>

datatype State = StateFollower | StateCandidate | StateLeader

text \<open>\<open>MessageType\<close> is an \<open>int\<close>: \<open>MsgOther\<close> stands for the values that are no declared constant.\<close>

datatype MessageType =
    MsgRequestVote
  | MsgRequestVoteResp
  | MsgAppendEntries
  | MsgAppendEntriesResp
  | MsgOther int

record message =
  mType :: MessageType
  mFrom :: u64
  mTo :: u64
  mTerm :: u64
  mLastLogIndex :: u64
  mLastLogTerm :: u64
  mGranted :: bool
  mPrevLogIndex :: u64
  mPrevLogTerm :: u64
  mEntries :: "entry list"
  mLeaderCommit :: u64
  mSuccess :: bool
  mMatchIndex :: u64

definition zero_message :: message where
  "zero_message = \<lparr>mType = MsgRequestVote, mFrom = 0, mTo = 0, mTerm = 0, mLastLogIndex = 0,
     mLastLogTerm = 0, mGranted = False, mPrevLogIndex = 0, mPrevLogTerm = 0, mEntries = [],
     mLeaderCommit = 0, mSuccess = False, mMatchIndex = 0\<rparr>"

definition NewRequestVote :: "u64 \<Rightarrow> u64 \<Rightarrow> u64 \<Rightarrow> u64 \<Rightarrow> u64 \<Rightarrow> message" where
  "NewRequestVote from to tm lastIndex lastTerm =
     zero_message\<lparr>mType := MsgRequestVote, mFrom := from, mTo := to, mTerm := tm,
       mLastLogIndex := lastIndex, mLastLogTerm := lastTerm\<rparr>"

definition NewRequestVoteResp :: "u64 \<Rightarrow> u64 \<Rightarrow> u64 \<Rightarrow> bool \<Rightarrow> message" where
  "NewRequestVoteResp from to tm granted =
     zero_message\<lparr>mType := MsgRequestVoteResp, mFrom := from, mTo := to, mTerm := tm,
       mGranted := granted\<rparr>"

definition NewAppendEntries :: "u64 \<Rightarrow> u64 \<Rightarrow> u64 \<Rightarrow> u64 \<Rightarrow> u64 \<Rightarrow> u64 \<Rightarrow> entry list \<Rightarrow> message" where
  "NewAppendEntries from to tm prevIndex prevTerm leaderCommit es =
     zero_message\<lparr>mType := MsgAppendEntries, mFrom := from, mTo := to, mTerm := tm,
       mPrevLogIndex := prevIndex, mPrevLogTerm := prevTerm, mEntries := es,
       mLeaderCommit := leaderCommit\<rparr>"

definition NewAppendEntriesResp :: "u64 \<Rightarrow> u64 \<Rightarrow> u64 \<Rightarrow> bool \<Rightarrow> u64 \<Rightarrow> message" where
  "NewAppendEntriesResp from to tm success matchIdx =
     zero_message\<lparr>mType := MsgAppendEntriesResp, mFrom := from, mTo := to, mTerm := tm,
       mSuccess := success, mMatchIndex := matchIdx\<rparr>"

lemmas msg_defs = zero_message_def NewRequestVote_def NewRequestVoteResp_def
  NewAppendEntries_def NewAppendEntriesResp_def

record rng =
  draws :: "nat \<Rightarrow> int \<Rightarrow> int"
  drawn :: nat

definition Intn :: "rng \<Rightarrow> int \<Rightarrow> int \<times> rng" where
  "Intn r n = (draws r (drawn r) n, r\<lparr>drawn := Suc (drawn r)\<rparr>)"

record node =
  nid :: u64
  peers :: "u64 list"
  currentTerm :: u64
  votedFor :: u64
  raftLog :: log
  nstate :: State
  leaderID :: u64
  nrng :: rng
  electionTimeout :: int
  electionElapsed :: int
  heartbeatElapsed :: int
  votesGranted :: "u64 \<rightharpoonup> bool"
  nextIndex :: "u64 \<rightharpoonup> u64"
  matchIndex :: "u64 \<rightharpoonup> u64"
  crashed :: bool
  events :: "string list"
  electionTimeoutMin :: int
  electionTimeoutMax :: int
  heartbeatInterval :: int

datatype node_error = ErrNotLeader | ErrNodeCrashed | LogError log_error

subsection \<open>Timers, votes and log comparison\<close>

definition addEvent :: "node \<Rightarrow> string \<Rightarrow> node" where
  "addEvent n s = n\<lparr>events := events n @ [s]\<rparr>"

definition DrainEvents :: "node \<Rightarrow> string list \<times> node" where
  "DrainEvents n = (events n, n\<lparr>events := []\<rparr>)"

definition resetElectionTimer :: "node \<Rightarrow> node" where
  "resetElectionTimer n =
     (let span = electionTimeoutMax n - electionTimeoutMin n + 1;
          span = (if span < 1 then 1 else span);
          (k, r) = Intn (nrng n) span
      in n\<lparr>electionElapsed := 0, electionTimeout := electionTimeoutMin n + k, nrng := r\<rparr>)"

definition New :: "u64 \<Rightarrow> u64 list \<Rightarrow> rng \<Rightarrow> node" where
  "New i ps r = resetElectionTimer
     \<lparr>nid = i, peers = ps, currentTerm = 0, votedFor = 0, raftLog = log_New,
      nstate = StateFollower, leaderID = 0, nrng = r, electionTimeout = 0, electionElapsed = 0,
      heartbeatElapsed = 0, votesGranted = Map.empty, nextIndex = Map.empty,
      matchIndex = Map.empty, crashed = False, events = [], electionTimeoutMin = 10,
      electionTimeoutMax = 20, heartbeatInterval = 2\<rparr>"

definition majority :: "node \<Rightarrow> nat" where
  "majority n = (let total = length (peers n) + 1 in total div 2 + 1)"

definition countVotes :: "node \<Rightarrow> nat" where
  "countVotes n =
     (if mget (votesGranted n) False (nid n) then 1 else 0) +
     length (filter (mget (votesGranted n) False) (peers n))"

definition isUpToDate :: "node \<Rightarrow> u64 \<Rightarrow> u64 \<Rightarrow> bool" where
  "isUpToDate n lastIndex lastTerm =
     (let (myIdx, myTerm) = Last (raftLog n)
      in if lastTerm \<noteq> myTerm then lastTerm > myTerm else lastIndex \<ge> myIdx)"

text \<open>What the node shows of its state.\<close>

definition node_ID :: "node \<Rightarrow> u64" where [simp]:
  "node_ID n = nid n"

definition node_State :: "node \<Rightarrow> State" where [simp]:
  "node_State n = nstate n"

definition node_Term :: "node \<Rightarrow> u64" where [simp]:
  "node_Term n = currentTerm n"

definition node_LeaderID :: "node \<Rightarrow> u64" where [simp]:
  "node_LeaderID n = leaderID n"

definition node_Crashed :: "node \<Rightarrow> bool" where [simp]:
  "node_Crashed n = crashed n"

definition node_CommitIndex :: "node \<Rightarrow> u64" where [simp]:
  "node_CommitIndex n = CommitIndex (raftLog n)"

definition node_CommittedEntries :: "node \<Rightarrow> entry list run" where [simp]:
  "node_CommittedEntries n = CommittedEntries (raftLog n)"

definition node_RaftLog :: "node \<Rightarrow> log" where [simp]:
  "node_RaftLog n = raftLog n"

definition AllEntries :: "node \<Rightarrow> entry list run" where
  "AllEntries n = Slice (raftLog n) 1 (fst (Last (raftLog n)) + 1)"

subsection \<open>Elections\<close>

definition startElection :: "node \<Rightarrow> node \<times> message list" where
  "startElection n =
     (let n1 = resetElectionTimer
            (n\<lparr>currentTerm := currentTerm n + 1, nstate := StateCandidate, votedFor := nid n,
              votesGranted := [nid n \<mapsto> True], leaderID := 0\<rparr>);
          n2 = addEvent n1 (''node '' @ fmt_d (nid n1) @ '' started election for term '' @
                 fmt_d (currentTerm n1));
          (lastIdx, lastTerm) = Last (raftLog n2)
      in (n2, map (\<lambda>p. NewRequestVote (nid n2) p (currentTerm n2) lastIdx lastTerm) (peers n2)))"

text \<open>The message \<open>broadcastAppendEntries\<close> builds for one peer.\<close>

definition appendEntriesFor :: "node \<Rightarrow> u64 \<Rightarrow> message run" where
  "appendEntriesFor n p =
     (let lastIdx = fst (Last (raftLog n));
          commit = CommitIndex (raftLog n);
          ni = mget (nextIndex n) 0 p;
          (prevIndex, prevTerm) =
            (if ni > 1 then
               (case TermAt (raftLog n) (ni - 1) of Inr t \<Rightarrow> (ni - 1, t) | Inl _ \<Rightarrow> (0, 0))
             else (0, 0))
      in do {
           es \<leftarrow> (if ni \<le> lastIdx then Slice (raftLog n) ni (lastIdx + 1) else Some []);
           Some (NewAppendEntries (nid n) p (currentTerm n) prevIndex prevTerm commit es)
         })"

fun broadcast_loop :: "node \<Rightarrow> u64 list \<Rightarrow> message list run" where
  "broadcast_loop n [] = Some []"
| "broadcast_loop n (p # ps) =
     do { m \<leftarrow> appendEntriesFor n p; ms \<leftarrow> broadcast_loop n ps; Some (m # ms) }"

definition broadcastAppendEntries :: "node \<Rightarrow> message list run" where
  "broadcastAppendEntries n = broadcast_loop n (peers n)"

fun set_all :: "('k \<rightharpoonup> 'v) \<Rightarrow> 'k list \<Rightarrow> 'v \<Rightarrow> ('k \<rightharpoonup> 'v)" where
  "set_all m [] v = m"
| "set_all m (k # ks) v = set_all (m(k \<mapsto> v)) ks v"

definition leaderState :: "node \<Rightarrow> node" where
  "leaderState n =
     (let n1 = resetElectionTimer (n\<lparr>nstate := StateLeader, leaderID := nid n\<rparr>);
          n2 = n1\<lparr>heartbeatElapsed := 0\<rparr>;
          lastIdx = fst (Last (raftLog n2));
          n3 = n2\<lparr>nextIndex := set_all Map.empty (peers n2) (lastIdx + 1),
                  matchIndex := set_all Map.empty (peers n2) 0\<rparr>
      in addEvent n3 (''node '' @ fmt_d (nid n3) @ '' became leader for term '' @
           fmt_d (currentTerm n3)))"

definition becomeLeader :: "node \<Rightarrow> (node \<times> message list) run" where
  "becomeLeader n =
     do { out \<leftarrow> broadcastAppendEntries (leaderState n); Some (leaderState n, out) }"

definition stepDown :: "node \<Rightarrow> u64 \<Rightarrow> node" where
  "stepDown n tm =
     (let n1 = resetElectionTimer
            (n\<lparr>currentTerm := tm, nstate := StateFollower, votedFor := 0, leaderID := 0,
              votesGranted := Map.empty, nextIndex := Map.empty, matchIndex := Map.empty\<rparr>)
      in addEvent n1 (''node '' @ fmt_d (nid n1) @ '' stepped down to follower (term '' @
           fmt_d (currentTerm n1) @ '')''))"

definition Tick :: "node \<Rightarrow> (node \<times> message list) run" where
  "Tick n =
     (if crashed n then Some (n, [])
      else
        let n1 = n\<lparr>electionElapsed := electionElapsed n + 1\<rparr> in
        case nstate n1 of
          StateLeader \<Rightarrow>
            let n2 = n1\<lparr>heartbeatElapsed := heartbeatElapsed n1 + 1\<rparr> in
            if heartbeatElapsed n2 \<ge> heartbeatInterval n2 then
              let n3 = n2\<lparr>heartbeatElapsed := 0\<rparr>
              in do { out \<leftarrow> broadcastAppendEntries n3; Some (n3, out) }
            else Some (n2, [])
        | _ \<Rightarrow>
            if electionElapsed n1 \<ge> electionTimeout n1 then Some (startElection n1)
            else Some (n1, []))"

definition ReplicateNow :: "node \<Rightarrow> message list run" where
  "ReplicateNow n =
     (if nstate n \<noteq> StateLeader \<or> crashed n then Some [] else broadcastAppendEntries n)"

subsection \<open>Commitment\<close>

definition replicatedOnMajority :: "node \<Rightarrow> u64 \<Rightarrow> bool" where
  "replicatedOnMajority n idx \<longleftrightarrow>
     1 + length (filter (\<lambda>p. mget (matchIndex n) 0 p \<ge> idx) (peers n)) \<ge> majority n"

text \<open>The body of the loop of \<open>advanceCommit\<close> at the index it commits.\<close>

definition commitAt :: "node \<Rightarrow> u64 \<Rightarrow> node" where
  "commitAt n idx =
     (let (e, l) = CommitTo (raftLog n) idx;
          n1 = n\<lparr>raftLog := l\<rparr>
      in if e = None
         then addEvent n1 (''node '' @ fmt_d (nid n1) @ '' committed index '' @ fmt_d idx @
                '' (term '' @ fmt_d (currentTerm n1) @ '')'')
         else n1)"

function advance_loop :: "node \<Rightarrow> u64 \<Rightarrow> node" where
  "advance_loop n idx =
     (if idx > CommitIndex (raftLog n) then
        (case TermAt (raftLog n) idx of
           Inl _ \<Rightarrow> n
         | Inr tm \<Rightarrow>
             if tm \<noteq> currentTerm n then advance_loop n (idx - 1)
             else if replicatedOnMajority n idx then commitAt n idx
             else advance_loop n (idx - 1))
      else n)"
  by pat_completeness auto
termination
  by (relation "measure (\<lambda>(n, idx). unat idx)") (auto dest: unat_pred_less)

declare advance_loop.simps [simp del]

definition advanceCommit :: "node \<Rightarrow> node" where
  "advanceCommit n = advance_loop n (fst (Last (raftLog n)))"

subsection \<open>Message handlers\<close>

definition handleRequestVote :: "node \<Rightarrow> message \<Rightarrow> node \<times> message list" where
  "handleRequestVote n m =
     (if mTerm m < currentTerm n then
        (n, [NewRequestVoteResp (nid n) (mFrom m) (currentTerm n) False])
      else
        let n1 = (if mTerm m > currentTerm n
                  then n\<lparr>currentTerm := mTerm m, votedFor := 0, nstate := StateFollower, leaderID := 0\<rparr>
                  else n);
            grant = ((votedFor n1 = 0 \<or> votedFor n1 = mFrom m) \<and>
                     isUpToDate n1 (mLastLogIndex m) (mLastLogTerm m));
            n2 = (if grant then resetElectionTimer (n1\<lparr>votedFor := mFrom m\<rparr>) else n1)
        in (n2, [NewRequestVoteResp (nid n2) (mFrom m) (currentTerm n2) grant]))"

definition handleRequestVoteResp :: "node \<Rightarrow> message \<Rightarrow> (node \<times> message list) run" where
  "handleRequestVoteResp n m =
     (if mTerm m > currentTerm n then Some (stepDown n (mTerm m), [])
      else if mTerm m = currentTerm n \<and> nstate n = StateCandidate then
        let n1 = (if mGranted m then n\<lparr>votesGranted := (votesGranted n)(mFrom m \<mapsto> True)\<rparr> else n)
        in if countVotes n1 \<ge> majority n1 then becomeLeader n1 else Some (n1, [])
      else Some (n, []))"

definition deepCopyEntries :: "entry list \<Rightarrow> entry list" where
  "deepCopyEntries es =
     map (\<lambda>e. \<lparr>eTerm = eTerm e, eIndex = eIndex e, eCommand = eCommand e\<rparr>) es"

text \<open>
  \<open>handleAppendEntries\<close> in three parts: accepting the sender as the leader of its term, storing the
  entries, and following the leader's commit index.
\<close>

definition ae_accept :: "node \<Rightarrow> message \<Rightarrow> node" where
  "ae_accept n m =
     (let n1 = (if nstate n \<noteq> StateFollower \<or> mTerm m > currentTerm n
                then n\<lparr>currentTerm := mTerm m, nstate := StateFollower, votedFor := 0\<rparr>
                else n)
      in resetElectionTimer (n1\<lparr>leaderID := mFrom m\<rparr>))"

definition ae_commit :: "node \<Rightarrow> message \<Rightarrow> node" where
  "ae_commit n m =
     (let lastIdx = fst (Last (raftLog n)) in
      if mLeaderCommit m > CommitIndex (raftLog n) then
        let newCommit = (if mLeaderCommit m > lastIdx then lastIdx else mLeaderCommit m);
            (e, l) = CommitTo (raftLog n) newCommit;
            n1 = n\<lparr>raftLog := l\<rparr>
        in if e = None \<and> newCommit > 0
           then addEvent n1 (''node '' @ fmt_d (nid n1) @ '' committed index '' @
                  fmt_d (CommitIndex (raftLog n1)) @ '' (term '' @ fmt_d (currentTerm n1) @ '')'')
           else n1
      else n)"

definition handleAppendEntries :: "node \<Rightarrow> message \<Rightarrow> (node \<times> message list) run" where
  "handleAppendEntries n m =
     (if mTerm m < currentTerm n then
        Some (n, [NewAppendEntriesResp (nid n) (mFrom m) (currentTerm n) False 0])
      else
        let n1 = ae_accept n m in
        if \<not> MatchesPrevLogTerm (raftLog n1) (mPrevLogIndex m) (mPrevLogTerm m) then
          Some (n1, [NewAppendEntriesResp (nid n1) (mFrom m) (currentTerm n1) False
                       (fst (Last (raftLog n1)))])
        else
          (case (if mEntries m = [] then Some (None, raftLog n1)
                 else Append (raftLog n1) (deepCopyEntries (mEntries m))) of
             None \<Rightarrow> None
           | Some (e, l) \<Rightarrow>
               let n2 = n1\<lparr>raftLog := l\<rparr> in
               if e \<noteq> None then
                 Some (n2, [NewAppendEntriesResp (nid n2) (mFrom m) (currentTerm n2) False
                              (fst (Last (raftLog n2)))])
               else
                 Some (ae_commit n2 m,
                       [NewAppendEntriesResp (nid n2) (mFrom m) (currentTerm n2) True
                          (fst (Last (raftLog n2)))])))"

definition handleAppendEntriesResp :: "node \<Rightarrow> message \<Rightarrow> node \<times> message list" where
  "handleAppendEntriesResp n m =
     (if mTerm m > currentTerm n then (stepDown n (mTerm m), [])
      else if mTerm m = currentTerm n \<and> nstate n = StateLeader then
        (if mSuccess m then
           (advanceCommit
              (n\<lparr>matchIndex := (matchIndex n)(mFrom m \<mapsto> mMatchIndex m),
                nextIndex := (nextIndex n)(mFrom m \<mapsto> mMatchIndex m + 1)\<rparr>), [])
         else if mget (nextIndex n) 0 (mFrom m) > 1 then
           (n\<lparr>nextIndex := (nextIndex n)(mFrom m \<mapsto> mget (nextIndex n) 0 (mFrom m) - 1)\<rparr>, [])
         else (n, []))
      else (n, []))"

definition Step :: "node \<Rightarrow> message \<Rightarrow> (node \<times> message list) run" where
  "Step n m =
     (if crashed n then Some (n, [])
      else case mType m of
             MsgRequestVote \<Rightarrow> Some (handleRequestVote n m)
           | MsgRequestVoteResp \<Rightarrow> handleRequestVoteResp n m
           | MsgAppendEntries \<Rightarrow> handleAppendEntries n m
           | MsgAppendEntriesResp \<Rightarrow> Some (handleAppendEntriesResp n m)
           | MsgOther _ \<Rightarrow> Some (n, []))"

subsection \<open>Client commands, crashes and restarts\<close>

definition Propose :: "node \<Rightarrow> byte list \<Rightarrow> (node_error err \<times> node) run" where
  "Propose n cmd =
     (if crashed n then Some (Some ErrNodeCrashed, n)
      else if nstate n \<noteq> StateLeader then Some (Some ErrNotLeader, n)
      else
        let e = \<lparr>eTerm = currentTerm n, eIndex = fst (Last (raftLog n)) + 1, eCommand = cmd\<rparr>
        in case Append (raftLog n) [e] of
             None \<Rightarrow> None
           | Some (er, l) \<Rightarrow>
               let n1 = n\<lparr>raftLog := l\<rparr> in
               (case er of
                  Some x \<Rightarrow> Some (Some (LogError x), n1)
                | None \<Rightarrow>
                    Some (None, addEvent n1 (''node '' @ fmt_d (nid n1) @
                      '' proposed command at index '' @ fmt_d (eIndex e) @ '' (term '' @
                      fmt_d (currentTerm n1) @ '')''))))"

definition Crash :: "node \<Rightarrow> node" where
  "Crash n =
     (if crashed n then n
      else n\<lparr>crashed := True, nstate := StateFollower, leaderID := 0, votesGranted := Map.empty,
             nextIndex := Map.empty, matchIndex := Map.empty, electionElapsed := 0\<rparr>)"

definition Persist :: "node \<Rightarrow> byte list run" where
  "Persist n =
     do { es \<leftarrow> AllEntries n;
          Some (Serialize \<lparr>psCurrentTerm = currentTerm n, psVotedFor = votedFor n, psEntries = es\<rparr>) }"

text \<open>\<open>Restart\<close> serializes the same state as \<open>Persist\<close> and reads it back.\<close>

definition Restart :: "node \<Rightarrow> (log_error err \<times> node) run" where
  "Restart n =
     (if \<not> crashed n then Some (None, n)
      else
        (case AllEntries n of
           None \<Rightarrow> None
         | Some es \<Rightarrow>
             (case Deserialize (Serialize \<lparr>psCurrentTerm = currentTerm n, psVotedFor = votedFor n,
                                          psEntries = es\<rparr>) of
                Inl e \<Rightarrow> Some (Some e, n)
              | Inr restored \<Rightarrow>
                  let n1 = n\<lparr>raftLog := log_New\<rparr> in
                  (case Append (raftLog n1) (psEntries restored) of
                     None \<Rightarrow> None
                   | Some (Some e, l) \<Rightarrow> Some (Some e, n1\<lparr>raftLog := l\<rparr>)
                   | Some (None, l) \<Rightarrow>
                       let n2 = resetElectionTimer
                             (n1\<lparr>raftLog := l, currentTerm := psCurrentTerm restored,
                               votedFor := psVotedFor restored, nstate := StateFollower,
                               leaderID := 0, votesGranted := Map.empty, nextIndex := Map.empty,
                               matchIndex := Map.empty, crashed := False, electionElapsed := 0\<rparr>)
                       in Some (None, addEvent n2 (''node '' @ fmt_d (nid n2) @ '' restarted (term '' @
                            fmt_d (currentTerm n2) @ '', log length '' @ fmt_int (Len (raftLog n2)) @
                            '')'')))))) "

end
