(* ===== verification/Quorum.thy ===== *)
theory Quorum
  imports Prelude
begin

text \<open>
  Quorums. The interface \<open>quorum_system\<close> promises that two quorums have a member in common; what the
  protocol derives from it is proved in the locale. The majorities of a finite membership satisfy
  it, in the form in which the sources compute them: \<open>n / 2 + 1\<close> of \<open>n\<close> members.
\<close>

locale quorum_system =
  fixes quorum :: "'a set \<Rightarrow> bool"
  assumes quorums_meet: "quorum A \<Longrightarrow> quorum B \<Longrightarrow> A \<inter> B \<noteq> {}"
begin

lemma quorum_nonempty: "quorum A \<Longrightarrow> A \<noteq> {}"
  using quorums_meet by fastforce

text \<open>Two decisions, each backed by a quorum whose members vouch for one decision only, agree.\<close>

lemma unique_decision:
  assumes "quorum A" and "quorum B" and "\<forall>v \<in> A. \<forall>z. vouches v z \<longrightarrow> z = x" and "\<forall>v \<in> B. vouches v y"
  shows "x = y"
proof -
  obtain v where "v \<in> A" "v \<in> B" using quorums_meet [OF assms(1,2)] by blast
  with assms(3,4) show ?thesis by blast
qed

end

definition is_majority :: "'a set \<Rightarrow> 'a set \<Rightarrow> bool" where
  "is_majority N Q \<longleftrightarrow> finite N \<and> Q \<subseteq> N \<and> card N div 2 + 1 \<le> card Q"

interpretation majorities: quorum_system "is_majority N" for N
proof unfold_locales
  fix A B
  assume A: "is_majority N A" and B: "is_majority N B"
  then have fin: "finite A" "finite B" "finite N" by (auto simp: is_majority_def intro: finite_subset)
  show "A \<inter> B \<noteq> {}"
  proof
    assume "A \<inter> B = {}"
    then have "card A + card B = card (A \<union> B)" using fin by (simp add: card_Un_disjoint)
    also have "\<dots> \<le> card N" using A B fin by (intro card_mono) (auto simp: is_majority_def)
    finally have le: "card A + card B \<le> card N" .
    from A B have "card N div 2 + 1 \<le> card A" "card N div 2 + 1 \<le> card B"
      by (auto simp: is_majority_def)
    with le show False by linarith
  qed
qed

text \<open>Counting the members of a list that satisfy a condition.\<close>

lemma card_filter: "distinct xs \<Longrightarrow> length (filter P xs) = card {x \<in> set xs. P x}"
  by (simp add: distinct_length_filter Int_def conj_commute)

end
