(* ===== verification/Node_Facts.thy ===== *)
theory Node_Facts
  imports Node Quorum
begin

text \<open>
  What each operation of a node does: the fields it leaves alone, the messages it sends, its
  behaviour on every branch, and that it never panics on a node whose log satisfies \<open>log_ok\<close>.
\<close>

subsection \<open>Frame\<close>

lemma resetElectionTimer_frame [simp]:
  "nid (resetElectionTimer n) = nid n"
  "peers (resetElectionTimer n) = peers n"
  "currentTerm (resetElectionTimer n) = currentTerm n"
  "votedFor (resetElectionTimer n) = votedFor n"
  "raftLog (resetElectionTimer n) = raftLog n"
  "nstate (resetElectionTimer n) = nstate n"
  "leaderID (resetElectionTimer n) = leaderID n"
  "votesGranted (resetElectionTimer n) = votesGranted n"
  "nextIndex (resetElectionTimer n) = nextIndex n"
  "matchIndex (resetElectionTimer n) = matchIndex n"
  "crashed (resetElectionTimer n) = crashed n"
  "events (resetElectionTimer n) = events n"
  "heartbeatElapsed (resetElectionTimer n) = heartbeatElapsed n"
  "electionElapsed (resetElectionTimer n) = 0"
  "electionTimeoutMin (resetElectionTimer n) = electionTimeoutMin n"
  "electionTimeoutMax (resetElectionTimer n) = electionTimeoutMax n"
  "heartbeatInterval (resetElectionTimer n) = heartbeatInterval n"
  by (simp_all add: resetElectionTimer_def Let_def Intn_def)

lemma addEvent_frame [simp]:
  "nid (addEvent n s) = nid n"
  "peers (addEvent n s) = peers n"
  "currentTerm (addEvent n s) = currentTerm n"
  "votedFor (addEvent n s) = votedFor n"
  "raftLog (addEvent n s) = raftLog n"
  "nstate (addEvent n s) = nstate n"
  "leaderID (addEvent n s) = leaderID n"
  "votesGranted (addEvent n s) = votesGranted n"
  "nextIndex (addEvent n s) = nextIndex n"
  "matchIndex (addEvent n s) = matchIndex n"
  "crashed (addEvent n s) = crashed n"
  "heartbeatElapsed (addEvent n s) = heartbeatElapsed n"
  "electionElapsed (addEvent n s) = electionElapsed n"
  "electionTimeout (addEvent n s) = electionTimeout n"
  "electionTimeoutMin (addEvent n s) = electionTimeoutMin n"
  "electionTimeoutMax (addEvent n s) = electionTimeoutMax n"
  "heartbeatInterval (addEvent n s) = heartbeatInterval n"
  "nrng (addEvent n s) = nrng n"
  by (simp_all add: addEvent_def)

lemma stepDown_simps [simp]:
  "nid (stepDown n t) = nid n"
  "peers (stepDown n t) = peers n"
  "currentTerm (stepDown n t) = t"
  "votedFor (stepDown n t) = 0"
  "raftLog (stepDown n t) = raftLog n"
  "nstate (stepDown n t) = StateFollower"
  "crashed (stepDown n t) = crashed n"
  "votesGranted (stepDown n t) = Map.empty"
  by (simp_all add: stepDown_def Let_def)

lemma New_simps [simp]:
  "nid (New i ps r) = i"
  "peers (New i ps r) = ps"
  "currentTerm (New i ps r) = 0"
  "votedFor (New i ps r) = 0"
  "raftLog (New i ps r) = log_New"
  "nstate (New i ps r) = StateFollower"
  "crashed (New i ps r) = False"
  "votesGranted (New i ps r) = Map.empty"
  by (simp_all add: New_def)

lemma startElection_simps [simp]:
  "nid (fst (startElection n)) = nid n"
  "peers (fst (startElection n)) = peers n"
  "currentTerm (fst (startElection n)) = currentTerm n + 1"
  "votedFor (fst (startElection n)) = nid n"
  "raftLog (fst (startElection n)) = raftLog n"
  "nstate (fst (startElection n)) = StateCandidate"
  "votesGranted (fst (startElection n)) = [nid n \<mapsto> True]"
  "crashed (fst (startElection n)) = crashed n"
  by (simp_all add: startElection_def Let_def split: prod.splits)

lemma snd_startElection:
  "m \<in> set (snd (startElection n)) \<Longrightarrow>
     mType m = MsgRequestVote \<and> mFrom m = nid n \<and> mTo m \<in> set (peers n) \<and>
     mTerm m = currentTerm n + 1 \<and> (mLastLogIndex m, mLastLogTerm m) = Last (raftLog n)"
  by (auto simp: startElection_def Let_def msg_defs split: prod.splits)

lemma ae_accept_simps [simp]:
  "nid (ae_accept n m) = nid n"
  "peers (ae_accept n m) = peers n"
  "currentTerm (ae_accept n m) = (if nstate n = StateFollower \<and> mTerm m \<le> currentTerm n then currentTerm n else mTerm m)"
  "votedFor (ae_accept n m) = (if nstate n = StateFollower \<and> mTerm m \<le> currentTerm n then votedFor n else 0)"
  "raftLog (ae_accept n m) = raftLog n"
  "nstate (ae_accept n m) = StateFollower"
  "crashed (ae_accept n m) = crashed n"
  "votesGranted (ae_accept n m) = votesGranted n"
  by (auto simp: ae_accept_def Let_def)

lemma ae_accept_leader [simp]: "leaderID (ae_accept n m) = mFrom m"
  by (simp add: ae_accept_def Let_def)

lemma deepCopyEntries_id [simp]: "deepCopyEntries es = es"
  by (induction es) (simp_all add: deepCopyEntries_def)

lemma set_all_eq: "set_all m ks v k = (if k \<in> set ks then Some v else m k)"
  by (induction ks arbitrary: m) auto

lemma CommitTo_entries [simp]: "entries (snd (CommitTo l i)) = entries l"
  by (simp add: log_defs Let_def)

lemma CommitTo_ok:
  assumes "log_ok l"
  shows "log_ok (snd (CommitTo l i))"
proof -
  have "unat (fst (Last l)) = length (entries l) - 1"
    using assms by (intro unat_Last) (simp add: log_ok_def)
  moreover have "0 < length (entries l)" using assms by (auto simp: log_ok_def indexed_def)
  ultimately show ?thesis
    using assms by (auto simp: log_defs Let_def log_ok_def word_le_nat_alt not_less)
qed

lemma ae_commit_simps [simp]:
  "nid (ae_commit n m) = nid n"
  "peers (ae_commit n m) = peers n"
  "currentTerm (ae_commit n m) = currentTerm n"
  "votedFor (ae_commit n m) = votedFor n"
  "entries (raftLog (ae_commit n m)) = entries (raftLog n)"
  "nstate (ae_commit n m) = nstate n"
  "crashed (ae_commit n m) = crashed n"
  "votesGranted (ae_commit n m) = votesGranted n"
  by (auto simp: ae_commit_def Let_def split: prod.splits dest: arg_cong [where f = "entries \<circ> snd"])

lemma ae_commit_leader [simp]: "leaderID (ae_commit n m) = leaderID n"
  by (simp add: ae_commit_def Let_def split: prod.splits)

lemma ae_commit_ok: "log_ok (raftLog n) \<Longrightarrow> log_ok (raftLog (ae_commit n m))"
  using CommitTo_ok [of "raftLog n"]
  by (auto simp: ae_commit_def Let_def split: prod.splits) (metis snd_conv)+

lemma commitAt_simps [simp]:
  "nid (commitAt n i) = nid n"
  "peers (commitAt n i) = peers n"
  "currentTerm (commitAt n i) = currentTerm n"
  "votedFor (commitAt n i) = votedFor n"
  "raftLog (commitAt n i) = snd (CommitTo (raftLog n) i)"
  "nstate (commitAt n i) = nstate n"
  "crashed (commitAt n i) = crashed n"
  "matchIndex (commitAt n i) = matchIndex n"
  "votesGranted (commitAt n i) = votesGranted n"
  by (auto simp: commitAt_def Let_def split: prod.splits)

text \<open>An index a leader may commit: an entry of its own term, replicated on a majority.\<close>

definition committable :: "node \<Rightarrow> u64 \<Rightarrow> bool" where
  "committable n i \<longleftrightarrow> TermAt (raftLog n) i = Inr (currentTerm n) \<and> replicatedOnMajority n i"

lemma advance_loop_cases:
  "advance_loop n i = n \<or>
   (\<exists>j. CommitIndex (raftLog n) < j \<and> committable n j \<and> advance_loop n i = commitAt n j)"
proof (induction n i rule: advance_loop.induct)
  case (1 n i)
  then show ?case
    by (auto simp: advance_loop.simps [of n i] committable_def split: sum.splits)
qed

lemma advanceCommit_simps [simp]:
  "nid (advanceCommit n) = nid n"
  "peers (advanceCommit n) = peers n"
  "currentTerm (advanceCommit n) = currentTerm n"
  "votedFor (advanceCommit n) = votedFor n"
  "entries (raftLog (advanceCommit n)) = entries (raftLog n)"
  "nstate (advanceCommit n) = nstate n"
  "crashed (advanceCommit n) = crashed n"
  "matchIndex (advanceCommit n) = matchIndex n"
  "votesGranted (advanceCommit n) = votesGranted n"
  using advance_loop_cases [of n "fst (Last (raftLog n))"]
  by (auto simp: advanceCommit_def)

lemma advanceCommit_ok: "log_ok (raftLog n) \<Longrightarrow> log_ok (raftLog (advanceCommit n))"
  using advance_loop_cases [of n "fst (Last (raftLog n))"]
  by (auto simp: advanceCommit_def CommitTo_ok)

text \<open>The loop finds the highest index it may commit.\<close>

lemma advance_loop_spec:
  assumes "log_ok (raftLog n)" and "unat i < length (entries (raftLog n))"
  shows "(\<forall>k. CommitIndex (raftLog n) < k \<and> k \<le> i \<longrightarrow> \<not> committable n k) \<and> advance_loop n i = n \<or>
    (\<exists>j. CommitIndex (raftLog n) < j \<and> j \<le> i \<and> committable n j \<and>
      (\<forall>k. j < k \<and> k \<le> i \<longrightarrow> \<not> committable n k) \<and> advance_loop n i = commitAt n j)"
  using assms(2)
proof (induction "unat i" arbitrary: i)
  case 0
  then have "i = 0" by (metis unat_eq_zero)
  then show ?case by (simp add: advance_loop.simps [of n 0])
next
  case (Suc m)
  show ?case
  proof (cases "CommitIndex (raftLog n) < i")
    case False
    then show ?thesis by (auto simp: advance_loop.simps [of n i])
  next
    case True
    have tm: "TermAt (raftLog n) i = Inr (eTerm (entries (raftLog n) ! unat i))"
      using Suc.prems by (simp add: log_defs)
    show ?thesis
    proof (cases "committable n i")
      case com: True
      with True tm have "advance_loop n i = commitAt n i"
        by (simp add: advance_loop.simps [of n i] committable_def)
      with com True show ?thesis by auto
    next
      case no: False
      with True tm have step: "advance_loop n i = advance_loop n (i - 1)"
        by (auto simp: advance_loop.simps [of n i] committable_def)
      have pred: "unat (i - 1) = m" using Suc.hyps(2) unat_pred_word [of i] by fastforce
      then have le: "k \<le> i - 1 \<longleftrightarrow> k \<le> i \<and> k \<noteq> i" for k
        unfolding word_le_nat_alt word_unat_eq_iff using Suc.hyps(2) by linarith
      have "unat (i - 1) < length (entries (raftLog n))" using pred Suc.hyps(2) Suc.prems by simp
      from Suc.hyps(1) [OF pred [symmetric] this] show ?thesis
        unfolding step le using no by metis
    qed
  qed
qed

subsection \<open>What a leader sends\<close>

text \<open>A message carries a run of the log \<open>es\<close>: the entry before it as the previous entry, then the run.\<close>

definition carries :: "message \<Rightarrow> entry list \<Rightarrow> bool" where
  "carries m es \<longleftrightarrow>
     (\<exists>k j. k < j \<and> j \<le> length es \<and> mPrevLogIndex m = of_nat k \<and>
        mPrevLogTerm m = eTerm (es ! k) \<and> mEntries m = drop (Suc k) (take j es))"

definition ae_from :: "node \<Rightarrow> message \<Rightarrow> bool" where
  "ae_from n m \<longleftrightarrow>
     mType m = MsgAppendEntries \<and> mFrom m = nid n \<and> mTo m \<in> set (peers n) \<and>
     mTerm m = currentTerm n \<and> carries m (entries (raftLog n)) \<and> mLeaderCommit m = commitIndex (raftLog n)"

text \<open>What the message for a peer with next index \<open>ni\<close> names as the previous entry, and what it carries.\<close>

definition prev_of :: "log \<Rightarrow> u64 \<Rightarrow> u64 \<times> u64" where
  "prev_of l ni =
     (if ni > 1 then (case TermAt l (ni - 1) of Inr t \<Rightarrow> (ni - 1, t) | Inl _ \<Rightarrow> (0, 0)) else (0, 0))"

definition rest_of :: "log \<Rightarrow> u64 \<Rightarrow> entry list" where
  "rest_of l ni = (if ni \<le> fst (Last l) then drop (max 1 (unat ni)) (entries l) else [])"

lemma appendEntriesFor_msg:
  assumes "indexed (entries (raftLog n))"
  shows "appendEntriesFor n p =
    Some (NewAppendEntries (nid n) p (currentTerm n) (fst (prev_of (raftLog n) (mget (nextIndex n) 0 p)))
      (snd (prev_of (raftLog n) (mget (nextIndex n) 0 p))) (commitIndex (raftLog n))
      (rest_of (raftLog n) (mget (nextIndex n) 0 p)))"
  by (simp add: appendEntriesFor_def Let_def prev_of_def rest_of_def Slice_tail [OF assms] log_defs
      split: prod.splits sum.splits)

lemma le_Last_iff: "indexed (entries l) \<Longrightarrow> ni \<le> fst (Last l) \<longleftrightarrow> unat ni < length (entries l)"
  unfolding word_le_nat_alt unat_Last using indexedD(2) [of "entries l"] by linarith

text \<open>The previous entry and the rest are consecutive parts of the log; without a usable next index the
  previous entry is the sentinel.\<close>

lemma prev_rest:
  assumes ix: "indexed (entries l)"
  shows "\<exists>k j. k < j \<and> j \<le> length (entries l) \<and> fst (prev_of l ni) = of_nat k \<and>
    snd (prev_of l ni) = eTerm (entries l ! k) \<and> rest_of l ni = drop (Suc k) (take j (entries l))"
proof (cases "ni > 1 \<and> unat (ni - 1) < length (entries l)")
  case True
  then have "ni \<noteq> 0" "1 < unat ni" by (auto simp: word_less_nat_alt)
  then have k: "unat (ni - 1) = unat ni - 1" "1 < unat ni" by (simp_all add: unat_pred_word)
  then have "prev_of l ni = (of_nat (unat ni - 1), eTerm (entries l ! (unat ni - 1)))"
    using True by (simp add: prev_of_def log_defs flip: k(1))
  moreover have "rest_of l ni = drop (Suc (unat ni - 1)) (take (length (entries l)) (entries l))"
    using k True by (auto simp: rest_of_def le_Last_iff [OF ix] max_def)
  ultimately show ?thesis using True k
    by (intro exI [of _ "unat ni - 1"] exI [of _ "length (entries l)"]) simp
next
  case False
  note len = indexedD(2) [OF ix]
  have "eTerm (entries l ! 0) = 0" using indexedD(3) [OF ix] by (simp add: dummy_def)
  moreover have "prev_of l ni = (0, 0)" using False by (auto simp: prev_of_def log_defs)
  moreover have "rest_of l ni = drop (Suc 0) (take (if ni > 1 then 1 else length (entries l)) (entries l))"
  proof (cases "ni > 1")
    case True
    with False unat_pred_word [of ni] have "length (entries l) \<le> unat ni" by fastforce
    then show ?thesis using True by (simp add: rest_of_def le_Last_iff [OF ix])
  next
    case small: False
    then have "unat ni \<le> 1" by (simp add: word_less_nat_alt)
    then show ?thesis using small len by (auto simp: rest_of_def le_Last_iff [OF ix] max_def)
  qed
  ultimately show ?thesis using len
    by (intro exI [of _ 0] exI [of _ "if ni > 1 then 1 else length (entries l)"]) (auto simp: Suc_leI)
qed

lemma appendEntriesFor_eq:
  assumes "log_ok (raftLog n)" and "p \<in> set (peers n)"
  shows "\<exists>m. appendEntriesFor n p = Some m \<and> ae_from n m"
proof -
  have ix: "indexed (entries (raftLog n))" using assms(1) by (simp add: log_ok_def)
  from appendEntriesFor_msg [OF ix] prev_rest [OF ix] assms(2) show ?thesis
    by (simp add: ae_from_def carries_def msg_defs)
qed

lemma broadcast_loop_ok:
  "log_ok (raftLog n) \<Longrightarrow> set ps \<subseteq> set (peers n) \<Longrightarrow>
     \<exists>ms. broadcast_loop n ps = Some ms \<and> (\<forall>m \<in> set ms. ae_from n m)"
proof (induction ps)
  case (Cons p ps)
  then show ?case using appendEntriesFor_eq [of n p] by fastforce
qed simp

lemma broadcast_ok:
  "log_ok (raftLog n) \<Longrightarrow>
     \<exists>ms. broadcastAppendEntries n = Some ms \<and> (\<forall>m \<in> set ms. ae_from n m)"
  using broadcast_loop_ok [of n "peers n"] by (auto simp: broadcastAppendEntries_def)

subsection \<open>The branches of Tick\<close>

lemma Tick_crashed: "crashed n \<Longrightarrow> Tick n = Some (n, [])"
  by (simp add: Tick_def)

lemma Tick_leader:
  assumes "\<not> crashed n" and "nstate n = StateLeader"
  shows "Tick n =
    (if heartbeatElapsed n + 1 \<ge> heartbeatInterval n
     then map_option (Pair (n\<lparr>electionElapsed := electionElapsed n + 1, heartbeatElapsed := 0\<rparr>))
            (broadcastAppendEntries (n\<lparr>electionElapsed := electionElapsed n + 1, heartbeatElapsed := 0\<rparr>))
     else Some (n\<lparr>electionElapsed := electionElapsed n + 1, heartbeatElapsed := heartbeatElapsed n + 1\<rparr>, []))"
  using assms by (simp add: Tick_def Let_def map_conv_bind_option comp_def)

lemma Tick_other:
  assumes "\<not> crashed n" and "nstate n \<noteq> StateLeader"
  shows "Tick n = Some
    (if electionElapsed n + 1 \<ge> electionTimeout n
     then startElection (n\<lparr>electionElapsed := electionElapsed n + 1\<rparr>)
     else (n\<lparr>electionElapsed := electionElapsed n + 1\<rparr>, []))"
  using assms by (cases "nstate n") (simp_all add: Tick_def Let_def)

subsection \<open>Winning an election\<close>

lemma leaderState_simps [simp]:
  "nid (leaderState n) = nid n"
  "peers (leaderState n) = peers n"
  "currentTerm (leaderState n) = currentTerm n"
  "votedFor (leaderState n) = votedFor n"
  "raftLog (leaderState n) = raftLog n"
  "nstate (leaderState n) = StateLeader"
  "crashed (leaderState n) = crashed n"
  "mget (matchIndex (leaderState n)) 0 p = 0"
  "leaderID (leaderState n) = nid n"
  by (simp_all add: leaderState_def Let_def mget_def set_all_eq)

lemma becomeLeader_facts:
  assumes "becomeLeader n = Some (n', out)"
  shows "n' = leaderState n" and "broadcastAppendEntries n' = Some out"
  using assms by (auto simp: becomeLeader_def split: bind_splits)

lemma becomeLeader_ok:
  "log_ok (raftLog n) \<Longrightarrow> \<exists>out. becomeLeader n = Some (leaderState n, out) \<and> (\<forall>m \<in> set out. ae_from (leaderState n) m)"
  using broadcast_ok [of "leaderState n"] by (auto simp: becomeLeader_def)

text \<open>With distinct peers that do not include the node itself, the vote count and the majority are
  those of the whole membership.\<close>

lemma countVotes_card:
  assumes "distinct (nid n # peers n)"
  shows "countVotes n = card {v \<in> set (nid n # peers n). mget (votesGranted n) False v}"
proof -
  have "countVotes n = length (filter (mget (votesGranted n) False) (nid n # peers n))"
    by (simp add: countVotes_def)
  then show ?thesis using card_filter [OF assms] by simp
qed

lemma majority_card:
  assumes "distinct (nid n # peers n)"
  shows "majority n = card (set (nid n # peers n)) div 2 + 1"
  using distinct_card [OF assms] by (simp add: majority_def Let_def)

subsection \<open>Crash and restart\<close>

lemma consecutiveI:
  "(\<And>k. k < length xs \<Longrightarrow> eIndex (xs ! k) = p + 1 + of_nat k) \<Longrightarrow> consecutive p xs"
proof (induction xs arbitrary: p)
  case (Cons x xs)
  have "eIndex x = p + 1" using Cons.prems [of 0] by simp
  moreover have "eIndex (xs ! k) = eIndex x + 1 + of_nat k" if "k < length xs" for k
    using Cons.prems [of "Suc k"] that \<open>eIndex x = p + 1\<close> by simp
  ultimately show ?case using Cons.IH by simp
qed simp

lemma AllEntries_eq: "log_ok (raftLog n) \<Longrightarrow> AllEntries n = Some (drop 1 (entries (raftLog n)))"
  by (simp add: AllEntries_def log_ok_def Slice_tail)

lemma persistable_node:
  assumes "log_ok (raftLog n)" and "\<forall>e \<in> set (entries (raftLog n)). length (eCommand e) < 2 ^ 63"
  shows "persistable \<lparr>psCurrentTerm = t, psVotedFor = v, psEntries = drop 1 (entries (raftLog n))\<rparr>"
proof -
  have ix: "indexed (entries (raftLog n))" using assms(1) by (simp add: log_ok_def)
  have "consecutive 0 (drop 1 (entries (raftLog n)))"
    using indexedD(5) [OF ix] by (intro consecutiveI) simp
  then show ?thesis
    using assms(2) indexedD(4) [OF ix] by (fastforce simp: persistable_def dest: in_set_dropD)
qed

lemma Append_fresh:
  assumes "indexed es"
  shows "Append log_New (drop 1 es) = Some (None, \<lparr>entries = es, commitIndex = 0\<rparr>)"
proof -
  note ix = indexedD [OF assms]
  have es: "es = dummy # drop 1 es" using ix(1,3) by (cases es) auto
  have "numbered 1 (drop 1 es)" using ix(4,5) by (auto simp: numbered_def)
  then have "Append log_New (drop 1 es) =
      Some (None, \<lparr>entries = merged [dummy] 1 (drop 1 es), commitIndex = merged_commit log_New 1 (drop 1 es)\<rparr>)"
    using Append_eq [OF log_ok_New, of 1 "drop 1 es"] by (simp add: log_New_def)
  moreover have "first_diff [dummy] 1 xs = (if xs = [] then None else Some 1)" for xs
    by (cases xs) simp_all
  moreover have "drop 1 es = [] \<longleftrightarrow> es = [dummy]" using es by (metis list.inject)
  ultimately show ?thesis
    using es by (auto simp: merged_def merged_commit_def log_New_def split: if_splits)
qed

lemma Restart_eq:
  assumes ok: "log_ok (raftLog n)" and c: "crashed n"
    and small: "\<forall>e \<in> set (entries (raftLog n)). length (eCommand e) < 2 ^ 63"
  shows "\<exists>n'. Restart n = Some (None, n') \<and> nid n' = nid n \<and> peers n' = peers n \<and>
    currentTerm n' = currentTerm n \<and> votedFor n' = votedFor n \<and>
    raftLog n' = \<lparr>entries = entries (raftLog n), commitIndex = 0\<rparr> \<and> nstate n' = StateFollower \<and>
    leaderID n' = 0 \<and> votesGranted n' = Map.empty \<and> \<not> crashed n'"
proof -
  let ?p = "\<lparr>psCurrentTerm = currentTerm n, psVotedFor = votedFor n, psEntries = drop 1 (entries (raftLog n))\<rparr>"
  have "Deserialize (Serialize ?p) = Inr ?p"
    using Deserialize_Serialize_append [OF persistable_node [OF ok small], of _ _ "[]"] by simp
  moreover have "Append log_New (drop 1 (entries (raftLog n))) =
      Some (None, \<lparr>entries = entries (raftLog n), commitIndex = 0\<rparr>)"
    using ok by (intro Append_fresh) (simp add: log_ok_def)
  ultimately show ?thesis
    using c AllEntries_eq [OF ok] by (simp add: Restart_def Let_def)
qed

subsection \<open>Proposals\<close>

lemma Propose_leader:
  assumes "log_ok (raftLog n)" and "\<not> crashed n" and "nstate n = StateLeader"
    and "Suc (length (entries (raftLog n))) < 2 ^ 63"
  shows "\<exists>n' e. Propose n cmd = Some (None, n') \<and>
    e = \<lparr>eTerm = currentTerm n, eIndex = of_nat (length (entries (raftLog n))), eCommand = cmd\<rparr> \<and>
    entries (raftLog n') = entries (raftLog n) @ [e] \<and> log_ok (raftLog n') \<and>
    nid n' = nid n \<and> peers n' = peers n \<and> currentTerm n' = currentTerm n \<and> votedFor n' = votedFor n \<and>
    nstate n' = StateLeader \<and> votesGranted n' = votesGranted n \<and> matchIndex n' = matchIndex n \<and>
    commitIndex (raftLog n') = commitIndex (raftLog n)"
proof -
  let ?e = "\<lparr>eTerm = currentTerm n, eIndex = fst (Last (raftLog n)) + 1, eCommand = cmd\<rparr>"
  have "0 < length (entries (raftLog n))" using assms(1) by (auto simp: log_ok_def indexed_def)
  then have idx: "fst (Last (raftLog n)) + 1 = of_nat (length (entries (raftLog n)))"
    by (simp add: rl.last_of_eq [OF assms(1)] of_nat_diff Suc_leI)
  obtain l where "Append (raftLog n) [?e] = Some (None, l)" "log_ok l" "entries l = entries (raftLog n) @ [?e]"
      "commitIndex l = commitIndex (raftLog n)"
    using rl.append_next [OF assms(1,4), of ?e] by auto
  with assms(2,3) idx show ?thesis by (simp add: Propose_def Let_def)
qed

end
