(* ===== verification/Log_Props.thy ===== *)
theory Log_Props
  imports Raft_Log
begin

text \<open>
  What the operations of internal/log/log.go promise on a well-formed log: conflict resolution by
  \<open>Append\<close>, its refusal of entries out of order, \<open>Truncate\<close>, \<open>CommitTo\<close> and the ranges \<open>Slice\<close> and
  \<open>CommittedEntries\<close> return. Each holds on every branch of the code.
\<close>

subsection \<open>Conflict resolution\<close>

lemma first_diff_agree:
  "first_diff es p ns = Some j \<Longrightarrow> k < j - p \<Longrightarrow> p + k < length es \<and> eTerm (es ! (p + k)) = eTerm (ns ! k)"
proof (induction es p ns arbitrary: k rule: first_diff.induct)
  case (2 es p n ns)
  then show ?case using first_diff_bounds [of es "Suc p" ns j] by (cases k) (auto split: if_splits)
qed simp

lemma first_diff_at:
  "first_diff es p ns = Some j \<Longrightarrow> \<not> (j < length es \<and> eTerm (es ! j) = eTerm (ns ! (j - p)))"
proof (induction es p ns rule: first_diff.induct)
  case (2 es p n ns)
  then show ?case using first_diff_bounds [of es "Suc p" ns j] by (auto simp: nth_Cons' split: if_splits)
qed simp

lemma first_diff_None:
  "first_diff es p ns = None \<longleftrightarrow> (\<forall>k < length ns. p + k < length es \<and> eTerm (es ! (p + k)) = eTerm (ns ! k))"
  by (induction es p ns rule: first_diff.induct) (auto simp: All_less_Suc2)

lemma first_diff_merged:
  assumes "p \<le> length es"
  shows "first_diff (merged es p ns) p ns = None"
proof (cases "first_diff es p ns")
  case (Some j)
  have j: "p \<le> j" "j < p + length ns" "j \<le> length es"
    using first_diff_bounds [OF Some] first_diff_le [OF Some assms] by auto
  have "eTerm ((take j es @ drop (j - p) ns) ! (p + k)) = eTerm (ns ! k)" if "k < length ns" for k
    using first_diff_agree [OF Some, of k] j that by (auto simp: nth_append)
  with Some j show ?thesis by (simp add: merged_def first_diff_None)
qed (simp add: merged_def)

text \<open>C13: Conflict resolution. Given entries numbered from \<open>p\<close>, no further than the end of a well-formed
  log, \<open>Append\<close> succeeds. If the log holds all of them by term it is left alone, tail included.
  Otherwise there is a first position at which the log ends or holds another term: everything
  before it is kept, everything from it on is replaced by the new entries, and a commit index
  beyond it is moved back to just before it.\<close>

theorem Append_resolves:
  assumes "log_ok l" and "numbered p ns" and "0 < p" and "p \<le> length (entries l)"
  shows "\<exists>l'. Append l ns = Some (None, l') \<and> log_ok l' \<and>
    (if \<forall>k < length ns. p + k < length (entries l) \<and> eTerm (entries l ! (p + k)) = eTerm (ns ! k)
     then l' = l
     else \<exists>j < length ns. (\<forall>k < j. eTerm (entries l ! (p + k)) = eTerm (ns ! k)) \<and> p + j \<le> length (entries l) \<and>
       (p + j < length (entries l) \<longrightarrow> eTerm (entries l ! (p + j)) \<noteq> eTerm (ns ! j)) \<and>
       entries l' = take (p + j) (entries l) @ drop j ns \<and>
       unat (commitIndex l') = min (unat (commitIndex l)) (p + j - 1))"
proof (cases "first_diff (entries l) p ns")
  case None
  then have "merged (entries l) p ns = entries l" "merged_commit l p ns = commitIndex l"
    by (simp_all add: merged_def merged_commit_def)
  with Append_eq [OF assms] None assms(1) show ?thesis by (cases l) (simp add: first_diff_None)
next
  case (Some j)
  let ?j = "j - p"
  have j: "p \<le> j" "j < p + length ns" "j \<le> length (entries l)" "j < 2 ^ 63" "unat (commitIndex l) < length (entries l)"
    using first_diff_bounds [OF Some] first_diff_le [OF Some assms(4)] assms(1,2)
    by (auto simp: numbered_def log_ok_def)
  then have "unat (merged_commit l p ns) = min (unat (commitIndex l)) (j - 1)"
    using Some assms(3) by (auto simp: merged_commit_def min_def unat_of_nat)
  moreover have "merged (entries l) p ns = take j (entries l) @ drop ?j ns"
    using Some by (simp add: merged_def)
  moreover have "\<not> (\<forall>k < length ns. p + k < length (entries l) \<and> eTerm (entries l ! (p + k)) = eTerm (ns ! k))"
    using Some first_diff_None [of "entries l" p ns] by simp
  ultimately show ?thesis
    using Append_eq [OF assms] log_ok_merged [OF assms] first_diff_agree [OF Some] first_diff_at [OF Some] j
    by (auto intro!: exI [of _ ?j])
qed

text \<open>A retransmitted append changes nothing: appending the same entries a second time leaves the
  log as the first append made it.\<close>

theorem Append_idempotent:
  assumes "log_ok l" and "numbered p ns" and "0 < p" and "p \<le> length (entries l)"
    and "Append l ns = Some (None, l')"
  shows "Append l' ns = Some (None, l')"
proof -
  have l': "l' = \<lparr>entries = merged (entries l) p ns, commitIndex = merged_commit l p ns\<rparr>"
    using Append_eq [OF assms(1-4)] assms(5) by simp
  have len: "p \<le> length (entries l')"
    using assms(4) length_merged [OF assms(4), of ns] by (cases "first_diff (entries l) p ns") (auto simp: l' merged_def)
  have ok: "log_ok l'" unfolding l' by (rule log_ok_merged [OF assms(1-4)])
  have same: "first_diff (entries l') p ns = None"
    using first_diff_merged [OF assms(4)] by (simp add: l')
  from Append_eq [OF ok assms(2,3) len] show ?thesis
    unfolding merged_def merged_commit_def same by (cases l') simp
qed

definition gap :: "entry list \<Rightarrow> bool" where
  "gap es \<longleftrightarrow> (\<exists>k. Suc k < length es \<and> eIndex (es ! Suc k) \<noteq> eIndex (es ! k) + 1)"

lemma ex_nat_step: "(\<exists>k :: nat. P k) \<longleftrightarrow> P 0 \<or> (\<exists>k. P (Suc k))"
  by (metis not0_implies_Suc)

lemma gap_simps: "\<not> gap []" "\<not> gap [e]" "gap (e1 # e2 # es) \<longleftrightarrow> eIndex e2 \<noteq> eIndex e1 + 1 \<or> gap (e2 # es)"
  unfolding gap_def ex_nat_step [of "\<lambda>k. Suc k < length (e1 # e2 # es) \<and> _ k"] by auto

lemma append_check_gap: "append_check es \<noteq> None \<longleftrightarrow> gap es"
  by (induction es rule: append_check.induct) (auto simp: gap_simps)

text \<open>Entries out of order are refused. \<open>Append\<close> reports an error exactly when some entry's index is
  not one more than its predecessor's, and then the log is unchanged.\<close>

theorem Append_error:
  "case Append l es of
     Some (Some e, l') \<Rightarrow> l' = l \<and> (\<exists>k. Suc k < length es \<and> eIndex (es ! Suc k) \<noteq> eIndex (es ! k) + 1)
   | _ \<Rightarrow> \<not> (\<exists>k. Suc k < length es \<and> eIndex (es ! Suc k) \<noteq> eIndex (es ! k) + 1)"
  using append_check_gap [of es] unfolding gap_def [symmetric]
  by (cases "append_loop l es") (auto simp: Append_def gap_simps split: option.splits)

subsection \<open>Truncation, commitment and ranges\<close>

text \<open>\<open>Truncate\<close> refuses index 0 and an index that would leave a gap, without changing the log.
  Any other index cuts the log there, keeps it well formed, and moves the commit index back if it
  pointed at what was cut off: it is the one operation that lowers the commit index.\<close>

theorem Truncate_spec:
  assumes "log_ok l"
  shows "case Truncate l i of
     None \<Rightarrow> False
   | Some (Some e, l') \<Rightarrow> l' = l \<and> (i = 0 \<or> length (entries l) < unat i)
   | Some (None, l') \<Rightarrow> 0 < unat i \<and> unat i \<le> length (entries l) \<and> log_ok l' \<and>
       entries l' = take (unat i) (entries l) \<and>
       unat (commitIndex l') = min (unat (commitIndex l)) (unat i - 1)"
proof -
  have ix: "indexed (entries l)" and c: "unat (commitIndex l) < length (entries l)"
    using assms by (auto simp: log_ok_def)
  have gt: "i > fst (Last l) + 1 \<longleftrightarrow> length (entries l) < unat i"
    by (simp add: word_less_nat_alt unat_Last_Suc [OF ix])
  consider "i = 0" | "length (entries l) < unat i" | "0 < unat i" "unat i \<le> length (entries l)"
    using unat_gt_0 [of i] by linarith
  then show ?thesis
  proof cases
    case 3
    then have "unat i < 2 ^ 63" "unat (i - 1) = unat i - 1"
      using indexedD(4) [OF ix] unat_pred_word [of i] unat_gt_0 [of i] by auto
    with 3 Truncate_eq [OF assms 3] c show ?thesis
      by (auto simp: log_ok_def indexed_take [OF ix] min_def unat_of_nat)
  qed (auto simp: Truncate_def gt Let_def)
qed

text \<open>The commit index. \<open>CommitTo\<close> never lowers it and never moves it past the last entry: an index
  beyond the log or below the commit index is refused and changes nothing, the current commit index
  is accepted and changes nothing, and any other index becomes the commit index.\<close>

theorem CommitTo_spec:
  assumes "log_ok l"
  shows "let (e, l') = CommitTo l i in
    entries l' = entries l \<and> log_ok l' \<and> commitIndex l \<le> commitIndex l' \<and>
    (e = None \<longleftrightarrow> commitIndex l \<le> i \<and> unat i < length (entries l)) \<and>
    (e = None \<longrightarrow> commitIndex l' = i) \<and> (e \<noteq> None \<longrightarrow> l' = l)"
proof -
  have ix: "indexed (entries l)" using assms by (simp add: log_ok_def)
  have "i > fst (Last l) \<longleftrightarrow> length (entries l) \<le> unat i"
    using unat_Last [OF ix] indexedD(2) [OF ix] unfolding word_less_nat_alt by linarith
  with assms show ?thesis
    by (auto simp: log_defs Let_def log_ok_def not_less not_le)
qed

text \<open>New entries that agree by term with everything committed leave the committed part alone.\<close>

lemma committed_kept:
  assumes "log_ok l" and "p \<le> length (entries l)"
    and "\<forall>k < length ns. p + k \<le> unat (commitIndex l) \<longrightarrow> eTerm (entries l ! (p + k)) = eTerm (ns ! k)"
  shows "merged_commit l p ns = commitIndex l"
    and "take (Suc (unat (commitIndex l))) (merged (entries l) p ns) = take (Suc (unat (commitIndex l))) (entries l)"
proof -
  let ?c = "unat (commitIndex l)"
  have c: "?c < length (entries l)" using assms(1) by (simp add: log_ok_def)
  have later: "?c < j" if j: "first_diff (entries l) p ns = Some j" for j
  proof (rule ccontr)
    assume "\<not> ?c < j"
    with first_diff_bounds [OF j] assms(3) c have "eTerm (entries l ! j) = eTerm (ns ! (j - p))" "j < length (entries l)"
      by (auto dest: spec [of _ "j - p"])
    with first_diff_at [OF j] show False by simp
  qed
  then show "merged_commit l p ns = commitIndex l"
    by (fastforce simp: merged_commit_def split: option.splits)
  show "take (Suc ?c) (merged (entries l) p ns) = take (Suc ?c) (entries l)"
    using later first_diff_le [OF _ assms(2)] by (fastforce simp: merged_def min_def split: option.splits)
qed

text \<open>The committed entries are the entries at positions 1 up to the commit index, and an append
  that agrees by term with everything committed keeps every one of them.\<close>

theorem CommittedEntries_stable:
  assumes "log_ok l" and "numbered p ns" and "0 < p" and "p \<le> length (entries l)"
    and "\<forall>k < length ns. p + k \<le> unat (commitIndex l) \<longrightarrow> eTerm (entries l ! (p + k)) = eTerm (ns ! k)"
    and "Append l ns = Some (None, l')"
  shows "commitIndex l' = commitIndex l \<and>
    CommittedEntries l = Some (drop 1 (take (Suc (unat (commitIndex l))) (entries l))) \<and>
    CommittedEntries l' = CommittedEntries l"
proof -
  have l': "l' = \<lparr>entries = merged (entries l) p ns, commitIndex = merged_commit l p ns\<rparr>"
    using Append_eq [OF assms(1-4)] assms(6) by simp
  show ?thesis
    using committed_kept [OF assms(1,4,5)] CommittedEntries_eq [OF assms(1)] CommittedEntries_eq [OF log_ok_merged [OF assms(1-4)]]
    by (simp add: l')
qed

lemma filter_numbered:
  fixes f :: "'a \<Rightarrow> nat"
  assumes "\<And>k. k < length xs \<Longrightarrow> f (xs ! k) = b + k"
  shows "filter (\<lambda>x. lo \<le> f x \<and> f x < hi) xs = drop (lo - b) (take (hi - b) xs)"
  using assms
proof (induction xs arbitrary: b)
  case (Cons x xs)
  have "f x = b" using Cons.prems [of 0] by simp
  moreover have "filter (\<lambda>x. lo \<le> f x \<and> f x < hi) xs = drop (lo - Suc b) (take (hi - Suc b) xs)"
    using Cons.prems by (intro Cons.IH) (force simp: nth_Cons' split: if_splits)
  ultimately show ?case
    by (cases "lo \<le> b"; cases "hi \<le> b") (auto simp: Suc_diff_le not_le drop_Cons' take_Cons')
qed simp

text \<open>\<open>Slice\<close> returns exactly the entries with index from \<open>lo\<close> up to but excluding \<open>hi\<close>, clipped to
  the log and never the sentinel, without going out of range for any \<open>lo\<close> and \<open>hi\<close>.\<close>

theorem Slice_spec:
  assumes "log_ok l"
  shows "\<exists>es. Slice l lo hi = Some es \<and>
    es = filter (\<lambda>e. lo \<le> eIndex e \<and> eIndex e < hi) (tl (entries l))"
proof -
  have ix: "indexed (entries l)" using assms by (simp add: log_ok_def)
  have "filter (\<lambda>e. unat lo \<le> unat (eIndex e) \<and> unat (eIndex e) < unat hi) (tl (entries l)) =
      drop (unat lo - 1) (take (unat hi - 1) (tl (entries l)))"
    by (rule filter_numbered) (simp add: nth_tl unat_index [OF ix])
  moreover have "\<dots> = drop (max 1 (unat lo)) (take (unat hi) (entries l))"
    by (cases "entries l"; cases "unat hi"; cases "unat lo") (auto simp: max_def)
  ultimately show ?thesis by (simp add: Slice_eq [OF ix] word_le_nat_alt word_less_nat_alt)
qed

subsection \<open>Witnesses\<close>

text \<open>A log with two entries, of which the first is committed, and two entries that conflict with it
  at position 2.\<close>

definition log2 :: log where
  "log2 = \<lparr>entries = [dummy, \<lparr>eTerm = 1, eIndex = 1, eCommand = [65]\<rparr>, \<lparr>eTerm = 1, eIndex = 2, eCommand = [66]\<rparr>],
     commitIndex = 1\<rparr>"

definition ns2 :: "entry list" where
  "ns2 = [\<lparr>eTerm = 1, eIndex = 1, eCommand = [65]\<rparr>, \<lparr>eTerm = 2, eIndex = 2, eCommand = [67]\<rparr>]"

lemma log2_ok: "log_ok log2"
  by (simp add: log_ok_def indexed_def log2_def dummy_def less_Suc_eq all_conj_distrib)

lemma ns2_numbered: "numbered 1 ns2"
  by (auto simp: numbered_def ns2_def less_Suc_eq)

lemma log2_len: "(1 :: nat) \<le> length (entries log2)"
  by (simp add: log2_def)

theorem Append_resolves_witness:
  "\<exists>l'. Append log2 ns2 = Some (None, l') \<and> log_ok l' \<and> entries l' = take 2 (entries log2) @ drop 1 ns2"
proof -
  obtain l' where l': "Append log2 ns2 = Some (None, l')" "log_ok l'"
    using Append_resolves [OF log2_ok ns2_numbered _ log2_len] by auto
  moreover have "map_option (\<lambda>(_, l). entries l) (Append log2 ns2) = Some (take 2 (entries log2) @ drop 1 ns2)"
    by code_simp
  ultimately show ?thesis by auto
qed

theorem Append_idempotent_witness:
  "\<exists>l'. Append log2 ns2 = Some (None, l') \<and> Append l' ns2 = Some (None, l')"
  using Append_idempotent [OF log2_ok ns2_numbered _ log2_len]
    Append_eq [OF log2_ok ns2_numbered _ log2_len] by auto

theorem Truncate_spec_witness:
  "\<exists>l'. Truncate log2 1 = Some (None, l') \<and> log_ok l' \<and> commitIndex log2 = 1 \<and> unat (commitIndex l') = 0"
  using Truncate_spec [OF log2_ok, of 1]
  by (auto simp: log2_def split: option.splits)

theorem CommitTo_spec_witness:
  "case CommitTo log2 2 of (e, l') \<Rightarrow> e = None \<and> log_ok l' \<and> commitIndex l' = 2"
  using CommitTo_spec [OF log2_ok, of 2] by (auto simp: Let_def log2_def word_le_nat_alt)

theorem CommittedEntries_stable_witness:
  "\<exists>l'. Append log2 ns2 = Some (None, l') \<and> CommittedEntries l' = CommittedEntries log2 \<and> commitIndex l' = 1"
proof -
  have "\<forall>k < length ns2. 1 + k \<le> unat (commitIndex log2) \<longrightarrow> eTerm (entries log2 ! (1 + k)) = eTerm (ns2 ! k)"
    by (auto simp: ns2_def log2_def less_Suc_eq)
  from CommittedEntries_stable [OF log2_ok ns2_numbered _ log2_len this]
    Append_eq [OF log2_ok ns2_numbered _ log2_len] show ?thesis by (auto simp: log2_def)
qed

theorem Slice_spec_witness:
  "\<exists>es. Slice log2 2 9 = Some es \<and> es = filter (\<lambda>e. 2 \<le> eIndex e \<and> eIndex e < 9) (tl (entries log2))"
  using Slice_spec [OF log2_ok, of 2 9] .

end
