(* ===== verification/Node_Props.thy ===== *)
theory Node_Props
  imports Node_Facts Log_Props
begin

text \<open>
  What one Raft peer (internal/node/node.go) promises, operation by operation: when it grants its
  vote, which index a leader commits, what a proposal, a crash and a restart do to its state, how it
  treats the term of a message, and when it starts an election. None of these needs the rest of the
  cluster.
\<close>

subsection \<open>Log positions\<close>

text \<open>The end of a log as a point of the order in which Raft compares logs: by term, then by index.\<close>

datatype logpos = LogPos (pos_term: u64) (pos_index: u64)

instantiation logpos :: linorder
begin

definition less_eq_logpos :: "logpos \<Rightarrow> logpos \<Rightarrow> bool" where
  "less_eq_logpos a b \<longleftrightarrow> pos_term a < pos_term b \<or> pos_term a = pos_term b \<and> pos_index a \<le> pos_index b"

definition less_logpos :: "logpos \<Rightarrow> logpos \<Rightarrow> bool" where
  "less_logpos a b \<longleftrightarrow> pos_term a < pos_term b \<or> pos_term a = pos_term b \<and> pos_index a < pos_index b"

instance
  by standard (auto simp: less_eq_logpos_def less_logpos_def logpos.expand)

end

definition log_end :: "log \<Rightarrow> logpos" where
  "log_end l = LogPos (snd (Last l)) (fst (Last l))"

lemma isUpToDate_iff: "isUpToDate n i t \<longleftrightarrow> log_end (raftLog n) \<le> LogPos t i"
  by (auto simp: isUpToDate_def log_end_def less_eq_logpos_def split: prod.splits)

subsection \<open>Votes\<close>

text \<open>C10: Granting a vote. A node answers a vote request with one response to the candidate. It grants
  the vote exactly when the request is not from an older term, the node has not voted in that term
  or has voted for this very candidate, and the candidate's log is at least as up to date as its own
  in the order of terms and indices; it then records the vote. Its log is never touched.\<close>

theorem handleRequestVote_spec:
  assumes "handleRequestVote n m = (n', out)"
  shows "let granted = (currentTerm n \<le> mTerm m \<and>
        (currentTerm n < mTerm m \<or> votedFor n = 0 \<or> votedFor n = mFrom m) \<and>
        log_end (raftLog n) \<le> LogPos (mLastLogTerm m) (mLastLogIndex m)) in
    out = [NewRequestVoteResp (nid n) (mFrom m) (max (currentTerm n) (mTerm m)) granted] \<and>
    currentTerm n' = max (currentTerm n) (mTerm m) \<and> raftLog n' = raftLog n \<and>
    votedFor n' = (if granted then mFrom m else if currentTerm n < mTerm m then 0 else votedFor n) \<and>
    nstate n' = (if currentTerm n < mTerm m then StateFollower else nstate n)"
  using assms by (auto simp: handleRequestVote_def Let_def isUpToDate_iff max_def split: if_splits)

text \<open>C11: Winning an election. A candidate that handles a vote response becomes leader exactly when it
  is in the same term and the members whose granted votes it has recorded, itself included, are a
  majority of the cluster; otherwise it stays what it was, or follows a newer term.\<close>

theorem handleRequestVoteResp_spec:
  assumes "distinct (nid n # peers n)" and "nstate n = StateCandidate"
    and "handleRequestVoteResp n m = Some (n', out)"
  shows "let N = set (nid n # peers n);
       votes = (\<lambda>v. if mGranted m \<and> v = mFrom m then True else mget (votesGranted n) False v) in
    (nstate n' = StateLeader \<longleftrightarrow> mTerm m = currentTerm n \<and> is_majority N {v \<in> N. votes v}) \<and>
    (nstate n' = StateFollower \<longleftrightarrow> currentTerm n < mTerm m) \<and>
    currentTerm n' = max (currentTerm n) (mTerm m)"
proof -
  let ?N = "set (nid n # peers n)"
  let ?n1 = "if mGranted m then n\<lparr>votesGranted := (votesGranted n)(mFrom m \<mapsto> True)\<rparr> else n"
  let ?votes = "\<lambda>v. if mGranted m \<and> v = mFrom m then True else mget (votesGranted n) False v"
  have "mget (votesGranted ?n1) False = ?votes" by (auto simp: mget_def)
  then have "countVotes ?n1 = card {v \<in> ?N. ?votes v}"
    using countVotes_card [of ?n1] assms(1) by simp
  moreover have "majority ?n1 = card ?N div 2 + 1"
    using majority_card [of ?n1] assms(1) by simp
  ultimately have maj: "majority ?n1 \<le> countVotes ?n1 \<longleftrightarrow> is_majority ?N {v \<in> ?N. ?votes v}"
    by (auto simp: is_majority_def)
  consider "currentTerm n < mTerm m" | "mTerm m < currentTerm n"
    | "mTerm m = currentTerm n" "majority ?n1 \<le> countVotes ?n1"
    | "mTerm m = currentTerm n" "\<not> majority ?n1 \<le> countVotes ?n1" by fastforce
  then show ?thesis
  proof cases
    case 2
    then have "\<not> currentTerm n < mTerm m" "mTerm m \<noteq> currentTerm n" by auto
    moreover from this have "n' = n" using assms(3) by (simp add: handleRequestVoteResp_def)
    ultimately show ?thesis using assms(2) by (simp add: Let_def max_def)
  next
    case 3
    then have "becomeLeader ?n1 = Some (n', out)"
      using assms(2,3) by (simp add: handleRequestVoteResp_def Let_def)
    from becomeLeader_facts(1) [OF this] 3 maj show ?thesis by (simp add: Let_def)
  next
    case 4
    then have "n' = ?n1" using assms(2,3) by (simp add: handleRequestVoteResp_def Let_def)
    then have "nstate n' = StateCandidate" "currentTerm n' = currentTerm n" using assms(2) by simp_all
    with 4 maj show ?thesis by (simp add: Let_def)
  qed (use assms(2,3) in \<open>auto simp: handleRequestVoteResp_def Let_def max_def\<close>)
qed

subsection \<open>Commitment\<close>

lemma replicated_card:
  assumes "distinct (nid n # peers n)"
  shows "replicatedOnMajority n k \<longleftrightarrow> card (set (nid n # peers n)) div 2 + 1 \<le>
    card {v \<in> set (nid n # peers n). v = nid n \<or> k \<le> mget (matchIndex n) 0 v}"
proof -
  let ?R = "{v \<in> set (peers n). k \<le> mget (matchIndex n) 0 v}"
  have "{v \<in> set (nid n # peers n). v = nid n \<or> k \<le> mget (matchIndex n) 0 v} = insert (nid n) ?R" by auto
  moreover have "card (insert (nid n) ?R) = 1 + card ?R" using assms by (subst card_insert_disjoint) auto
  moreover have "length (filter (\<lambda>p. k \<le> mget (matchIndex n) 0 p) (peers n)) = card ?R"
    using assms by (simp add: card_filter)
  ultimately show ?thesis by (simp add: replicatedOnMajority_def majority_card [OF assms])
qed

lemma commitAt_commits:
  assumes "unat j \<le> unat (fst (Last (raftLog n)))" and "commitIndex (raftLog n) < j"
  shows "commitIndex (raftLog (commitAt n j)) = j"
  using assms by (simp add: commitAt_def log_defs Let_def word_le_nat_alt word_less_nat_alt)

text \<open>C12: The commit rule. \<open>advanceCommit\<close> moves the commit index to the highest index that holds an
  entry of the leader's current term and that, by the recorded match indices, a majority of the
  cluster has reached; if there is none above the commit index it leaves the commit index alone. An
  entry of an older term is never committed on its own.\<close>

theorem advanceCommit_spec:
  assumes "log_ok (raftLog n)" and "distinct (nid n # peers n)"
  shows "let N = set (nid n # peers n); l = raftLog n;
       cand = (\<lambda>k. commitIndex l < k \<and> unat k < length (entries l) \<and>
         eTerm (entries l ! unat k) = currentTerm n \<and>
         card N div 2 + 1 \<le> card {v \<in> N. v = nid n \<or> k \<le> mget (matchIndex n) 0 v});
       c = commitIndex (raftLog (advanceCommit n)) in
    entries (raftLog (advanceCommit n)) = entries l \<and>
    (if \<exists>k. cand k then cand c \<and> (\<forall>k. cand k \<longrightarrow> k \<le> c) else c = commitIndex l)"
proof -
  let ?l = "raftLog n"
  have ix: "indexed (entries ?l)" using assms(1) by (simp add: log_ok_def)
  have last: "unat (fst (Last ?l)) < length (entries ?l)"
    using unat_Last [OF ix] indexedD(2) [OF ix] by simp
  have le: "k \<le> fst (Last ?l) \<longleftrightarrow> unat k < length (entries ?l)" for k
    unfolding word_le_nat_alt unat_Last [OF ix] using indexedD(2) [OF ix] by linarith
  have com: "committable n k \<longleftrightarrow> unat k < length (entries ?l) \<and> eTerm (entries ?l ! unat k) = currentTerm n \<and>
      card (set (nid n # peers n)) div 2 + 1 \<le>
      card {v \<in> set (nid n # peers n). v = nid n \<or> k \<le> mget (matchIndex n) 0 v}" for k
    by (auto simp: committable_def replicated_card [OF assms(2)] log_defs)
  from advance_loop_spec [OF assms(1) last] show ?thesis
  proof (elim disjE exE conjE)
    fix j
    assume j: "CommitIndex ?l < j" "j \<le> fst (Last ?l)" "committable n j"
      "\<forall>k. j < k \<and> k \<le> fst (Last ?l) \<longrightarrow> \<not> committable n k" "advance_loop n (fst (Last ?l)) = commitAt n j"
    then have "commitIndex (raftLog (advanceCommit n)) = j"
      using commitAt_commits [of j n] by (simp add: advanceCommit_def log_defs word_le_nat_alt)
    moreover have "k \<le> j" if "committable n k" for k
      using that j(4) com [of k] le [of k] by (meson not_le)
    ultimately show ?thesis unfolding Let_def com [symmetric] using j by (auto simp: log_defs)
  next
    assume "\<forall>k. CommitIndex ?l < k \<and> k \<le> fst (Last ?l) \<longrightarrow> \<not> committable n k" "advance_loop n (fst (Last ?l)) = n"
    then show ?thesis
      unfolding Let_def com [symmetric] using com le by (auto simp: advanceCommit_def log_defs)
  qed
qed

subsection \<open>Client commands, crashes and restarts\<close>

text \<open>Proposals. A crashed node and a node that is not leader refuse a command and do not change.
  A leader appends one entry with the command, its current term and the next index, and changes
  nothing else that the protocol depends on.\<close>

theorem Propose_spec:
  assumes "log_ok (raftLog n)" and "Suc (length (entries (raftLog n))) < 2 ^ 63"
  shows "if crashed n then Propose n cmd = Some (Some ErrNodeCrashed, n)
    else if nstate n \<noteq> StateLeader then Propose n cmd = Some (Some ErrNotLeader, n)
    else \<exists>n'. Propose n cmd = Some (None, n') \<and> log_ok (raftLog n') \<and>
      entries (raftLog n') = entries (raftLog n) @
        [\<lparr>eTerm = currentTerm n, eIndex = of_nat (length (entries (raftLog n))), eCommand = cmd\<rparr>] \<and>
      currentTerm n' = currentTerm n \<and> votedFor n' = votedFor n \<and> nstate n' = StateLeader"
  using Propose_leader [OF assms(1) _ _ assms(2), of cmd] by (auto simp: Propose_def)

text \<open>C14: Recovery. A node that crashes and restarts is a follower that knows no leader, with the
  current term, the vote and the log entries it had when it crashed; the commit index, which is not
  persistent, starts again at 0.\<close>

theorem crash_restart:
  assumes "log_ok (raftLog n)" and "\<not> crashed n"
    and "\<forall>e \<in> set (entries (raftLog n)). length (eCommand e) < 2 ^ 63"
  shows "\<exists>n'. Restart (Crash n) = Some (None, n') \<and> \<not> crashed n' \<and> nstate n' = StateFollower \<and> leaderID n' = 0 \<and>
    currentTerm n' = currentTerm n \<and> votedFor n' = votedFor n \<and>
    raftLog n' = \<lparr>entries = entries (raftLog n), commitIndex = 0\<rparr>"
proof -
  have c: "raftLog (Crash n) = raftLog n" "crashed (Crash n)" "currentTerm (Crash n) = currentTerm n"
    "votedFor (Crash n) = votedFor n"
    using assms(2) by (simp_all add: Crash_def)
  with Restart_eq [of "Crash n"] assms show ?thesis by auto
qed

text \<open>What \<open>Persist\<close> writes is what \<open>Deserialize\<close> reads: the term, the vote and every entry of the
  log but the sentinel, whatever bytes follow.\<close>

theorem Persist_recovers:
  assumes "log_ok (raftLog n)" and "\<forall>e \<in> set (entries (raftLog n)). length (eCommand e) < 2 ^ 63"
  shows "\<exists>bs. Persist n = Some bs \<and>
    Deserialize (bs @ rest) = Inr \<lparr>psCurrentTerm = currentTerm n, psVotedFor = votedFor n,
      psEntries = tl (entries (raftLog n))\<rparr>"
  using AllEntries_eq [OF assms(1)] Deserialize_Serialize_append [OF persistable_node [OF assms]]
  by (auto simp: Persist_def drop_Suc)

subsection \<open>Terms\<close>

text \<open>Terms in messages. A node that handles a message of the protocol ends in the higher of its own
  and the message's term. A message of an older term changes nothing at all: requests are answered
  with a refusal that carries the node's term, responses are dropped.\<close>

theorem Step_term:
  assumes "\<not> crashed n" and "\<forall>k. mType m \<noteq> MsgOther k" and "Step n m = Some (n', out)"
  shows "currentTerm n' = max (currentTerm n) (mTerm m) \<and>
    (mTerm m < currentTerm n \<longrightarrow> n' = n \<and>
      out = (case mType m of
          MsgRequestVote \<Rightarrow> [NewRequestVoteResp (nid n) (mFrom m) (currentTerm n) False]
        | MsgAppendEntries \<Rightarrow> [NewAppendEntriesResp (nid n) (mFrom m) (currentTerm n) False 0]
        | _ \<Rightarrow> []))"
proof (cases "mTerm m < currentTerm n")
  case True
  then have "\<not> currentTerm n < mTerm m" "mTerm m \<noteq> currentTerm n" by auto
  with True assms show ?thesis
    by (cases "mType m") (auto simp: Step_def handleRequestVote_def handleRequestVoteResp_def
        handleAppendEntries_def handleAppendEntriesResp_def max_def)
next
  case False
  show ?thesis
  proof (cases "mType m")
    case MsgRequestVote
    with assms False show ?thesis by (auto simp: Step_def handleRequestVote_def Let_def max_def)
  next
    case MsgRequestVoteResp
    with assms False show ?thesis
      by (auto simp: Step_def handleRequestVoteResp_def Let_def max_def dest: becomeLeader_facts(1) split: if_splits)
  next
    case MsgAppendEntries
    with assms False show ?thesis
      by (auto simp: Step_def handleAppendEntries_def Let_def max_def split: if_splits option.splits prod.splits)
  next
    case MsgAppendEntriesResp
    with assms False show ?thesis by (auto simp: Step_def handleAppendEntriesResp_def max_def split: if_splits)
  qed (use assms in auto)
qed

subsection \<open>Appends\<close>

lemma merged_agrees:
  assumes "p \<le> length es"
  shows "p + length ns \<le> length (merged es p ns)" and "take p (merged es p ns) = take p es"
    and "i < length ns \<Longrightarrow> eTerm (merged es p ns ! (p + i)) = eTerm (ns ! i)"
proof -
  have "first_diff (merged es p ns) p ns = None" by (rule first_diff_merged [OF assms])
  then have all: "\<forall>k < length ns. p + k < length (merged es p ns) \<and> eTerm (merged es p ns ! (p + k)) = eTerm (ns ! k)"
    by (simp add: first_diff_None)
  then show "i < length ns \<Longrightarrow> eTerm (merged es p ns ! (p + i)) = eTerm (ns ! i)" by blast
  show "p + length ns \<le> length (merged es p ns)"
    using length_merged [OF assms, of ns] all assms
    by (cases "first_diff es p ns"; cases "length ns") (auto simp: merged_def)
  show "take p (merged es p ns) = take p es"
    using first_diff_bounds [of es p ns] first_diff_le [of es p ns] assms
    by (fastforce simp: merged_def min_def split: option.splits)
qed

text \<open>Each of these entries is one of the new ones, or was there with the same term.\<close>

lemma merged_source:
  assumes "p \<le> length es" and "i < length ns"
  shows "merged es p ns ! (p + i) = ns ! i \<or>
    p + i < length es \<and> merged es p ns ! (p + i) = es ! (p + i) \<and> eTerm (es ! (p + i)) = eTerm (ns ! i)"
proof (cases "first_diff es p ns")
  case None
  then have "\<forall>k < length ns. p + k < length es \<and> eTerm (es ! (p + k)) = eTerm (ns ! k)" by (simp add: first_diff_None)
  with None assms(2) show ?thesis by (simp add: merged_def)
next
  case (Some j)
  have j: "p \<le> j" "j \<le> length es" using first_diff_bounds [OF Some] first_diff_le [OF Some assms(1)] by auto
  show ?thesis
  proof (cases "p + i < j")
    case True
    with j Some have "merged es p ns ! (p + i) = es ! (p + i)" "p + i < length es" by (simp_all add: merged_def nth_append)
    with merged_agrees(3) [OF assms(1,2)] show ?thesis by metis
  next
    case False
    then have "(take j es @ drop (j - p) ns) ! (p + i) = ns ! i" using j assms(2) by (simp add: nth_append)
    with Some show ?thesis by (simp add: merged_def)
  qed
qed

text \<open>The commit index after following the leader's.\<close>

lemma ae_commit_index:
  assumes "log_ok (raftLog n)"
  shows "unat (commitIndex (raftLog (ae_commit n m))) =
    max (unat (commitIndex (raftLog n))) (min (unat (mLeaderCommit m)) (length (entries (raftLog n)) - 1))"
proof -
  let ?l = "raftLog n"
  have ix: "indexed (entries ?l)" and c: "unat (commitIndex ?l) < length (entries ?l)"
    using assms by (simp_all add: log_ok_def)
  note last = unat_Last [OF ix]
  have "CommitTo ?l i = (if i = commitIndex ?l then (None, ?l) else (None, ?l\<lparr>commitIndex := i\<rparr>))"
    if "i \<le> fst (Last ?l)" "commitIndex ?l \<le> i" for i
    using that by (auto simp: log_defs Let_def)
  moreover have "commitIndex ?l \<le> fst (Last ?l)" using last c by (simp add: word_le_nat_alt)
  ultimately show ?thesis
    using last c by (auto simp: ae_commit_def Let_def log_defs word_less_nat_alt word_le_nat_alt min_def max_def)
qed

text \<open>Whether the message's previous entry is there, and the two ways a current append can end.\<close>

lemma matches_prev:
  assumes "log_ok l" and "p < 2 ^ 63"
  shows "MatchesPrevLogTerm l (of_nat p) t \<longleftrightarrow> p = 0 \<or> p < length (entries l) \<and> eTerm (entries l ! p) = t"
proof -
  have "(of_nat p :: u64) = 0 \<longleftrightarrow> p = 0"
    unfolding word_unat_eq_iff by (simp only: unat_of_nat_len [OF assms(2)] unat_0)
  then show ?thesis using assms(2) by (simp add: rl.matches_iff [OF assms(1)])
qed

lemma handleAppendEntries_refuses:
  assumes "log_ok (raftLog n)" and "currentTerm n \<le> mTerm m"
    and "\<not> MatchesPrevLogTerm (raftLog n) (mPrevLogIndex m) (mPrevLogTerm m)"
  shows "handleAppendEntries n m = Some (ae_accept n m,
    [NewAppendEntriesResp (nid n) (mFrom m) (mTerm m) False (of_nat (length (entries (raftLog n)) - 1))])"
proof -
  have ct: "currentTerm (ae_accept n m) = mTerm m" using assms(2) by auto
  show ?thesis
    using assms(2,3) ct rl.last_of_eq [OF assms(1)] by (simp add: handleAppendEntries_def Let_def leD)
qed

lemma handleAppendEntries_stores:
  assumes ok: "log_ok (raftLog n)" and t: "currentTerm n \<le> mTerm m" and ns: "numbered (Suc p) (mEntries m)"
    and p: "Suc p \<le> length (entries (raftLog n))"
    and match: "MatchesPrevLogTerm (raftLog n) (mPrevLogIndex m) (mPrevLogTerm m)"
    and l': "l' = \<lparr>entries = merged (entries (raftLog n)) (Suc p) (mEntries m),
      commitIndex = merged_commit (raftLog n) (Suc p) (mEntries m)\<rparr>"
  shows "log_ok l'" and "handleAppendEntries n m = Some (ae_commit ((ae_accept n m)\<lparr>raftLog := l'\<rparr>) m,
    [NewAppendEntriesResp (nid n) (mFrom m) (mTerm m) True (of_nat (length (entries l') - 1))])"
proof -
  have ct: "currentTerm (ae_accept n m) = mTerm m" using t by auto
  have app: "Append (raftLog n) (mEntries m) = Some (None, l')" and ok': "log_ok l'"
    using Append_eq [OF ok ns _ p] log_ok_merged [OF ok ns _ p] by (simp_all add: l')
  show "log_ok l'" by (rule ok')
  show "handleAppendEntries n m = Some (ae_commit ((ae_accept n m)\<lparr>raftLog := l'\<rparr>) m,
      [NewAppendEntriesResp (nid n) (mFrom m) (mTerm m) True (of_nat (length (entries l') - 1))])"
    using match t ct app rl.last_of_eq [OF ok']
    by (cases "mEntries m = []") (auto simp: handleAppendEntries_def Let_def leD Append_def)
qed

text \<open>C9: Accepting entries. A node that handles an append of a current term follows its sender. It
  refuses, with its log unchanged, exactly when it does not hold the previous entry the message
  names. Otherwise its log agrees with its old log up to the previous entry and holds, term by term,
  the entries of the message after it, and stays well formed; and if the message agrees with what is
  committed, the commit index becomes the leader's, as far as the log reaches, unless it was higher
  already. Its answer names the last index of its whole log, whether or not the message reached that far.\<close>

theorem handleAppendEntries_spec:
  assumes ok: "log_ok (raftLog n)" and t: "currentTerm n \<le> mTerm m"
    and p: "mPrevLogIndex m = of_nat p" "p < 2 ^ 63" and ns: "numbered (Suc p) (mEntries m)"
  shows "\<exists>n'. let es = entries (raftLog n); es' = entries (raftLog n'); k = length (mEntries m);
       c = unat (commitIndex (raftLog n));
       succ = (p = 0 \<or> p < length es \<and> eTerm (es ! p) = mPrevLogTerm m) in
    handleAppendEntries n m =
      Some (n', [NewAppendEntriesResp (nid n) (mFrom m) (mTerm m) succ (of_nat (length es' - 1))]) \<and>
    nstate n' = StateFollower \<and> leaderID n' = mFrom m \<and> currentTerm n' = mTerm m \<and> log_ok (raftLog n') \<and>
    (if succ then Suc p + k \<le> length es' \<and> take (Suc p) es' = take (Suc p) es \<and>
       (\<forall>i < k. eTerm (es' ! (Suc p + i)) = eTerm (mEntries m ! i)) \<and>
       ((\<forall>i < k. Suc p + i \<le> c \<longrightarrow> eTerm (es ! (Suc p + i)) = eTerm (mEntries m ! i)) \<longrightarrow>
         unat (commitIndex (raftLog n')) = max c (min (unat (mLeaderCommit m)) (length es' - 1)))
     else raftLog n' = raftLog n)"
proof (cases "p = 0 \<or> p < length (entries (raftLog n)) \<and> eTerm (entries (raftLog n) ! p) = mPrevLogTerm m")
  case False
  then have f: "(p = 0 \<or> p < length (entries (raftLog n)) \<and> eTerm (entries (raftLog n) ! p) = mPrevLogTerm m) = False"
    by simp
  have "currentTerm (ae_accept n m) = mTerm m" using t by auto
  moreover have "handleAppendEntries n m = Some (ae_accept n m,
      [NewAppendEntriesResp (nid n) (mFrom m) (mTerm m) False (of_nat (length (entries (raftLog (ae_accept n m))) - 1))])"
    using handleAppendEntries_refuses [OF ok t] False matches_prev [OF ok p(2)] by (simp add: p(1))
  ultimately show ?thesis
    unfolding Let_def f if_False using ok by (intro exI [of _ "ae_accept n m"]) (simp del: ae_accept_simps(3))
next
  case True
  let ?l' = "\<lparr>entries = merged (entries (raftLog n)) (Suc p) (mEntries m),
    commitIndex = merged_commit (raftLog n) (Suc p) (mEntries m)\<rparr>"
  let ?n2 = "ae_commit ((ae_accept n m)\<lparr>raftLog := ?l'\<rparr>) m"
  have len: "Suc p \<le> length (entries (raftLog n))" using True ok by (auto simp: Suc_le_eq log_ok_def indexed_def)
  have match: "MatchesPrevLogTerm (raftLog n) (mPrevLogIndex m) (mPrevLogTerm m)"
    using True matches_prev [OF ok p(2)] by (simp add: p(1))
  note stores = handleAppendEntries_stores [OF ok t ns len match refl]
  have "log_ok (raftLog ?n2)" "unat (commitIndex (raftLog ?n2)) =
      max (unat (commitIndex ?l')) (min (unat (mLeaderCommit m)) (length (entries ?l') - 1))"
    using stores(1) ae_commit_ok [of "(ae_accept n m)\<lparr>raftLog := ?l'\<rparr>"]
      ae_commit_index [of "(ae_accept n m)\<lparr>raftLog := ?l'\<rparr>"] by simp_all
  moreover have "currentTerm ?n2 = mTerm m" "nstate ?n2 = StateFollower" "leaderID ?n2 = mFrom m"
    "entries (raftLog ?n2) = entries ?l'" using t by auto
  moreover note merged_agrees [OF len, where ns = "mEntries m"] committed_kept(1) [OF ok len, where ns = "mEntries m"]
  ultimately show ?thesis
    using True stores(2) by (intro exI [of _ ?n2]) (auto simp: Let_def)
qed

subsection \<open>Elections\<close>

text \<open>Several ticks in a row, with the messages they send.\<close>

fun Ticks :: "nat \<Rightarrow> node \<Rightarrow> (node \<times> message list) run" where
  "Ticks 0 n = Some (n, [])"
| "Ticks (Suc k) n = do { (n1, out1) \<leftarrow> Tick n; (n2, out2) \<leftarrow> Ticks k n1; Some (n2, out1 @ out2) }"

lemma Ticks_quiet:
  assumes "\<not> crashed n" and "nstate n \<noteq> StateLeader" and "electionElapsed n + int k < electionTimeout n"
  shows "Ticks k n = Some (n\<lparr>electionElapsed := electionElapsed n + int k\<rparr>, [])"
  using assms
proof (induction k arbitrary: n)
  case (Suc k)
  then have "Tick n = Some (n\<lparr>electionElapsed := electionElapsed n + 1\<rparr>, [])" by (simp add: Tick_other)
  with Suc show ?case by (simp add: add.commute)
qed simp

lemma Ticks_add: "Ticks (j + k) n = do { (n1, out1) \<leftarrow> Ticks j n; (n2, out2) \<leftarrow> Ticks k n1; Some (n2, out1 @ out2) }"
  by (induction j arbitrary: n) (auto split: bind_splits prod.splits)

text \<open>C16: Elections start on time. A follower or candidate that hears nothing sends nothing until its
  election timeout has elapsed, and with exactly that tick it starts an election: it moves to the
  next term as a candidate, votes for itself and asks every peer for its vote.\<close>

theorem election_timeout:
  assumes "\<not> crashed n" and "nstate n \<noteq> StateLeader" and "electionTimeout n = electionElapsed n + int (Suc d)"
  shows "Ticks d n = Some (n\<lparr>electionElapsed := electionElapsed n + int d\<rparr>, []) \<and>
    (\<exists>n'. Ticks (Suc d) n = Some (n', map (\<lambda>p. NewRequestVote (nid n) p (currentTerm n + 1)
          (fst (Last (raftLog n))) (snd (Last (raftLog n)))) (peers n)) \<and>
      nstate n' = StateCandidate \<and> currentTerm n' = currentTerm n + 1 \<and> votedFor n' = nid n \<and>
      raftLog n' = raftLog n \<and> electionElapsed n' = 0)"
proof -
  let ?n = "n\<lparr>electionElapsed := electionElapsed n + int d\<rparr>"
  let ?m = "n\<lparr>electionElapsed := electionElapsed n + int d + 1\<rparr>"
  have q: "Ticks d n = Some (?n, [])" using assms by (intro Ticks_quiet) auto
  have t: "Tick ?n = Some (startElection ?m)" using assms by (simp add: Tick_other)
  have "Ticks (Suc d) n = do { (n1, out1) \<leftarrow> Ticks d n; (n2, out2) \<leftarrow> Ticks 1 n1; Some (n2, out1 @ out2) }"
    using Ticks_add [of d 1 n] by simp
  then have "Ticks (Suc d) n = Some (startElection ?m)" by (simp add: q t split: prod.splits)
  moreover have "snd (startElection ?m) = map (\<lambda>p. NewRequestVote (nid n) p (currentTerm n + 1)
      (fst (Last (raftLog n))) (snd (Last (raftLog n)))) (peers n)"
    by (simp add: startElection_def Let_def split: prod.splits)
  moreover have "electionElapsed (fst (startElection ?m)) = 0" "raftLog (fst (startElection ?m)) = raftLog n"
    by (simp_all add: startElection_def resetElectionTimer_def addEvent_def Let_def split: prod.splits)
  ultimately show ?thesis
    using q startElection_simps [of ?m] by (intro conjI exI [of _ "fst (startElection ?m)"]) (auto simp: prod_eq_iff)
qed

text \<open>The election timeout is random within its bounds. If the generator's \<open>Intn\<close> keeps its contract,
  returning a number from 0 up to but excluding its argument, the timeout lies between the
  configured minimum and maximum.\<close>

theorem resetElectionTimer_range:
  assumes "\<forall>k N. 0 < N \<longrightarrow> 0 \<le> draws (nrng n) k N \<and> draws (nrng n) k N < N"
    and "electionTimeoutMin n \<le> electionTimeoutMax n"
  shows "electionTimeoutMin n \<le> electionTimeout (resetElectionTimer n) \<and>
    electionTimeout (resetElectionTimer n) \<le> electionTimeoutMax n \<and> electionElapsed (resetElectionTimer n) = 0"
proof -
  let ?N = "electionTimeoutMax n - electionTimeoutMin n + 1"
  have "0 < ?N" using assms(2) by simp
  with assms(1) have "0 \<le> draws (nrng n) (drawn (nrng n)) ?N \<and> draws (nrng n) (drawn (nrng n)) ?N < ?N" by blast
  with assms(2) show ?thesis by (simp add: resetElectionTimer_def Intn_def Let_def)
qed

subsection \<open>Witnesses\<close>

text \<open>Node 1 of a cluster of three: freshly started, as a candidate, and as a leader of term 2 whose
  log holds an entry of term 1 and one of term 2, both reported by node 3.\<close>

definition zero_rng :: rng where
  "zero_rng = \<lparr>draws = (\<lambda>_ _. 0), drawn = 0\<rparr>"

definition node1 :: node where
  "node1 = New 1 [2, 3] zero_rng"

definition cand1 :: node where
  "cand1 = node1\<lparr>currentTerm := 1, nstate := StateCandidate, votedFor := 1, votesGranted := [1 \<mapsto> True]\<rparr>"

definition log12 :: log where
  "log12 = \<lparr>entries = [dummy, \<lparr>eTerm = 1, eIndex = 1, eCommand = [65]\<rparr>, \<lparr>eTerm = 2, eIndex = 2, eCommand = [66]\<rparr>],
     commitIndex = 0\<rparr>"

definition leader1 :: node where
  "leader1 = node1\<lparr>currentTerm := 2, nstate := StateLeader, votedFor := 1, raftLog := log12,
     matchIndex := [2 \<mapsto> 0, 3 \<mapsto> 2]\<rparr>"

lemma log12_ok: "log_ok log12"
  by (simp add: log_ok_def indexed_def log12_def dummy_def less_Suc_eq all_conj_distrib)

lemma log12_small: "\<forall>e \<in> set (entries log12). length (eCommand e) < 2 ^ 63"
  by (simp add: log12_def dummy_def)

theorem handleRequestVote_spec_witness:
  "\<exists>n'. handleRequestVote node1 (NewRequestVote 2 1 1 0 0) = (n', [NewRequestVoteResp 1 2 1 True]) \<and> votedFor n' = 2"
proof -
  obtain n' out where h: "handleRequestVote node1 (NewRequestVote 2 1 1 0 0) = (n', out)" by fastforce
  have "log_end (raftLog node1) \<le> LogPos 0 0" by code_simp
  with handleRequestVote_spec [OF h] h show ?thesis
    by (simp add: Let_def msg_defs node1_def)
qed

theorem handleRequestVoteResp_spec_witness:
  "\<exists>n' out. handleRequestVoteResp cand1 (NewRequestVoteResp 2 1 1 True) = Some (n', out) \<and> nstate n' = StateLeader"
proof -
  have "\<not> Option.is_none (handleRequestVoteResp cand1 (NewRequestVoteResp 2 1 1 True))" by code_simp
  then obtain n' out where h: "handleRequestVoteResp cand1 (NewRequestVoteResp 2 1 1 True) = Some (n', out)"
    by (auto simp: Option.is_none_def)
  let ?m = "NewRequestVoteResp 2 1 1 True" and ?N = "set (nid cand1 # peers cand1)"
  have N: "?N = {1, 2, 3}" by (auto simp: cand1_def node1_def)
  have "{v \<in> ?N. if mGranted ?m \<and> v = mFrom ?m then True else mget (votesGranted cand1) False v} = {1, 2}"
    unfolding N by (auto simp: cand1_def mget_def msg_defs split: if_splits)
  then have "is_majority ?N {v \<in> ?N. if mGranted ?m \<and> v = mFrom ?m then True else mget (votesGranted cand1) False v}"
    unfolding N is_majority_def by simp
  moreover have "distinct (nid cand1 # peers cand1)" "nstate cand1 = StateCandidate" "mTerm ?m = currentTerm cand1"
    by (simp_all add: cand1_def node1_def msg_defs)
  ultimately have "nstate n' = StateLeader"
    using handleRequestVoteResp_spec [OF _ _ h] unfolding Let_def by blast
  with h show ?thesis by blast
qed

theorem advanceCommit_spec_witness:
  "commitIndex (raftLog leader1) = 0 \<and> commitIndex (raftLog (advanceCommit leader1)) = 2 \<and>
   entries (raftLog (advanceCommit leader1)) = entries log12"
proof -
  have "log_ok (raftLog leader1)" "distinct (nid leader1 # peers leader1)"
    using log12_ok by (simp_all add: leader1_def node1_def)
  from advanceCommit_spec [OF this] have "entries (raftLog (advanceCommit leader1)) = entries (raftLog leader1)"
    by (simp add: Let_def)
  moreover have "commitIndex (raftLog leader1) = 0" "commitIndex (raftLog (advanceCommit leader1)) = 2" by code_simp+
  ultimately show ?thesis by (simp add: leader1_def)
qed

theorem Propose_spec_witness:
  "\<exists>n'. Propose leader1 [67] = Some (None, n') \<and>
     entries (raftLog n') = entries log12 @ [\<lparr>eTerm = 2, eIndex = 3, eCommand = [67]\<rparr>]"
  using Propose_spec [of leader1 "[67]"] log12_ok
  by (auto simp: leader1_def node1_def log12_def New_def resetElectionTimer_def Let_def split: prod.splits)

theorem crash_restart_witness:
  "\<exists>n'. Restart (Crash leader1) = Some (None, n') \<and> currentTerm n' = 2 \<and> votedFor n' = 1 \<and>
     entries (raftLog n') = entries log12 \<and> nstate n' = StateFollower"
  using crash_restart [of leader1] log12_ok log12_small by (auto simp: leader1_def node1_def)

theorem Persist_recovers_witness:
  "\<exists>bs. Persist leader1 = Some bs \<and> Deserialize (bs @ [1, 2]) =
     Inr \<lparr>psCurrentTerm = 2, psVotedFor = 1, psEntries = tl (entries log12)\<rparr>"
  using Persist_recovers [of leader1 "[1, 2]"] log12_ok log12_small by (simp add: leader1_def)

theorem Step_term_witness:
  "\<exists>n' out. Step leader1 (NewRequestVote 3 1 7 0 0) = Some (n', out) \<and> currentTerm n' = 7"
proof -
  have "\<not> Option.is_none (Step leader1 (NewRequestVote 3 1 7 0 0))" by code_simp
  then obtain n' out where h: "Step leader1 (NewRequestVote 3 1 7 0 0) = Some (n', out)"
    by (auto simp: Option.is_none_def)
  from Step_term [OF _ _ h] h show ?thesis by (simp add: leader1_def node1_def msg_defs max_def)
qed

theorem handleAppendEntries_spec_witness:
  "\<exists>n'. handleAppendEntries node1 (NewAppendEntries 2 1 1 0 0 0 [\<lparr>eTerm = 1, eIndex = 1, eCommand = [65]\<rparr>]) =
     Some (n', [NewAppendEntriesResp 1 2 1 True (of_nat (length (entries (raftLog n')) - 1))]) \<and>
     eTerm (entries (raftLog n') ! 1) = 1"
  using handleAppendEntries_spec [of node1 "NewAppendEntries 2 1 1 0 0 0 [\<lparr>eTerm = 1, eIndex = 1, eCommand = [65]\<rparr>]" 0]
  by (auto simp: node1_def msg_defs numbered_def Let_def)

theorem election_timeout_witness:
  "\<exists>n'. Ticks 10 node1 = Some (n', [NewRequestVote 1 2 1 0 0, NewRequestVote 1 3 1 0 0]) \<and> nstate n' = StateCandidate"
proof -
  have "electionTimeout node1 = electionElapsed node1 + int (Suc 9)" by code_simp
  moreover have "Last (raftLog node1) = (0, 0)" by code_simp
  ultimately show ?thesis using election_timeout [of node1 9] by (auto simp: node1_def numeral_eq_Suc)
qed

theorem resetElectionTimer_range_witness:
  "10 \<le> electionTimeout (resetElectionTimer node1) \<and> electionTimeout (resetElectionTimer node1) \<le> 20"
  using resetElectionTimer_range [of node1]
  by (simp add: node1_def New_def zero_rng_def resetElectionTimer_def Intn_def Let_def)

end
