(* ===== verification/Progress.thy ===== *)
theory Progress
  imports Node_Props
begin

text \<open>
  What the nodes of internal/node achieve when messages do arrive: a candidate that receives enough votes
  leads, a leader that receives enough acknowledgements commits, and the exchange by which a leader
  finds the point up to which a follower agrees with it comes to an end.
\<close>

subsection \<open>Several messages in a row\<close>

fun Steps :: "node \<Rightarrow> message list \<Rightarrow> (node \<times> message list) run" where
  "Steps n [] = Some (n, [])"
| "Steps n (m # ms) = do { (n1, out1) \<leftarrow> Step n m; (n2, out2) \<leftarrow> Steps n1 ms; Some (n2, out1 @ out2) }"

lemma Steps_append:
  "Steps n (ms @ ms') = do { (n1, out1) \<leftarrow> Steps n ms; (n2, out2) \<leftarrow> Steps n1 ms'; Some (n2, out1 @ out2) }"
  by (induction ms arbitrary: n) (auto split: bind_splits prod.splits)

subsection \<open>Winning an election\<close>

definition grant_to :: "node \<Rightarrow> message \<Rightarrow> bool" where
  "grant_to n m \<longleftrightarrow> mType m = MsgRequestVoteResp \<and> mGranted m \<and> mTerm m = currentTerm n \<and> mFrom m \<in> set (peers n)"

lemma Steps_late_votes:
  "nstate n = StateLeader \<Longrightarrow> \<forall>r \<in> set rs. grant_to n r \<Longrightarrow> Steps n rs = Some (n, [])"
proof (induction rs)
  case (Cons r rs)
  then have "Step n r = Some (n, [])" by (auto simp: Step_def grant_to_def handleRequestVoteResp_def)
  with Cons show ?case by simp
qed simp

lemma countVotes_new:
  assumes "distinct (nid n # peers n)" and "v \<in> set (peers n)" and "\<not> mget (votesGranted n) False v"
  shows "countVotes (n\<lparr>votesGranted := (votesGranted n)(v \<mapsto> True)\<rparr>) = Suc (countVotes n)"
proof -
  let ?n = "n\<lparr>votesGranted := (votesGranted n)(v \<mapsto> True)\<rparr>"
  have "{u \<in> set (nid ?n # peers ?n). mget (votesGranted ?n) False u} =
      insert v {u \<in> set (nid n # peers n). mget (votesGranted n) False u}"
    using assms(2) by auto
  moreover have "v \<notin> {u \<in> set (nid n # peers n). mget (votesGranted n) False u}" using assms(3) by simp
  ultimately show ?thesis
    using countVotes_card [of ?n] countVotes_card [of n] assms(1) by (simp add: card_insert_disjoint del: mget_simps)
qed

text \<open>Enough votes make a leader. A candidate that has not won yet and then receives granted votes of
  its term, from different peers whose votes it does not have, leads in that term as soon as, and
  only if, they bring its votes to a majority; its log does not change.\<close>

theorem election_won:
  assumes "log_ok (raftLog n)" and "distinct (nid n # peers n)" and "\<not> crashed n" and "nstate n = StateCandidate"
    and "countVotes n < majority n" and "\<forall>r \<in> set rs. grant_to n r" and "distinct (map mFrom rs)"
    and "\<forall>r \<in> set rs. \<not> mget (votesGranted n) False (mFrom r)"
  shows "\<exists>n' out. Steps n rs = Some (n', out) \<and> currentTerm n' = currentTerm n \<and> raftLog n' = raftLog n \<and>
    nstate n' = (if majority n \<le> countVotes n + length rs then StateLeader else StateCandidate)"
  using assms
proof (induction rs arbitrary: n)
  case (Cons r rs)
  let ?n1 = "n\<lparr>votesGranted := (votesGranted n)(mFrom r \<mapsto> True)\<rparr>"
  have r: "mType r = MsgRequestVoteResp" "mGranted r" "mTerm r = currentTerm n" "mFrom r \<in> set (peers n)"
    using Cons.prems(6) by (auto simp: grant_to_def)
  have v: "countVotes ?n1 = Suc (countVotes n)" "majority ?n1 = majority n"
    using countVotes_new [OF Cons.prems(2) r(4)] Cons.prems(8) by (auto simp: majority_def)
  have st: "Step n r = (if majority n \<le> Suc (countVotes n) then becomeLeader ?n1 else Some (?n1, []))"
    using Cons.prems(3,4) r v by (simp add: Step_def handleRequestVoteResp_def Let_def)
  have new: "\<forall>r' \<in> set rs. \<not> mget (votesGranted ?n1) False (mFrom r')"
  proof
    fix r'
    assume "r' \<in> set rs"
    moreover from this have "mFrom r' \<noteq> mFrom r" using Cons.prems(7) by (auto intro: rev_image_eqI)
    ultimately show "\<not> mget (votesGranted ?n1) False (mFrom r')" using Cons.prems(8) by (simp add: mget_def)
  qed
  show ?case
  proof (cases "majority n \<le> Suc (countVotes n)")
    case True
    obtain out where b: "becomeLeader ?n1 = Some (leaderState ?n1, out)"
      using becomeLeader_ok [of ?n1] Cons.prems(1) by auto
    have "Steps (leaderState ?n1) rs = Some (leaderState ?n1, [])"
      using Cons.prems(6) by (intro Steps_late_votes) (auto simp: grant_to_def)
    with True st b show ?thesis by simp
  next
    case False
    have "\<exists>n' out. Steps ?n1 rs = Some (n', out) \<and> currentTerm n' = currentTerm ?n1 \<and> raftLog n' = raftLog ?n1 \<and>
        nstate n' = (if majority ?n1 \<le> countVotes ?n1 + length rs then StateLeader else StateCandidate)"
      using Cons.prems(1-4,6,7) False v by (intro Cons.IH [OF _ _ _ _ _ _ _ new]) (auto simp: grant_to_def)
    with False st v show ?thesis by auto
  qed
qed simp

subsection \<open>Committing what is acknowledged\<close>

lemma matchIndex_advanceCommit [simp]: "matchIndex (advanceCommit n) = matchIndex n"
proof -
  have "matchIndex (commitAt n j) = matchIndex n" for j
    by (simp add: commitAt_def addEvent_def Let_def split: prod.splits)
  with advance_loop_cases [of n "fst (Last (raftLog n))"] show ?thesis by (auto simp: advanceCommit_def)
qed

lemma advanceCommit_last:
  assumes ok: "log_ok (raftLog n)" and t: "eTerm (last (entries (raftLog n))) = currentTerm n"
    and r: "replicatedOnMajority n (fst (Last (raftLog n)))"
  shows "commitIndex (raftLog (advanceCommit n)) = fst (Last (raftLog n))"
proof -
  let ?l = "raftLog n"
  have ix: "indexed (entries ?l)" and c: "unat (commitIndex ?l) < length (entries ?l)"
    using ok by (simp_all add: log_ok_def)
  note last = unat_Last [OF ix]
  have "unat (fst (Last ?l)) < length (entries ?l)" using last c by linarith
  then have "TermAt ?l (fst (Last ?l)) = Inr (currentTerm n)"
    using t last indexedD(1) [OF ix] by (simp add: log_defs last_conv_nth not_le)
  moreover have "commitIndex ?l < fst (Last ?l) \<or> commitIndex ?l = fst (Last ?l)"
    using c last unfolding word_less_nat_alt word_unat_eq_iff by linarith
  ultimately show ?thesis
    using r by (auto simp: advanceCommit_def advance_loop.simps [of n "fst (Last ?l)"] log_defs commitAt_def Let_def)
qed

definition ack_of :: "node \<Rightarrow> message \<Rightarrow> bool" where
  "ack_of n m \<longleftrightarrow> mType m = MsgAppendEntriesResp \<and> mSuccess m \<and> mTerm m = currentTerm n \<and> mFrom m \<in> set (peers n) \<and>
     mMatchIndex m = fst (Last (raftLog n))"

text \<open>What a leader records of a success, before it looks for entries to commit.\<close>

definition acked :: "node \<Rightarrow> message \<Rightarrow> node" where
  "acked n r = n\<lparr>matchIndex := (matchIndex n)(mFrom r \<mapsto> mMatchIndex r),
     nextIndex := (nextIndex n)(mFrom r \<mapsto> mMatchIndex r + 1)\<rparr>"

lemma Step_success:
  assumes "\<not> crashed n" and "nstate n = StateLeader" and "mType r = MsgAppendEntriesResp" and "mSuccess r"
    and "mTerm r = currentTerm n"
  shows "Step n r = Some (advanceCommit (acked n r), [])"
  using assms by (simp add: Step_def handleAppendEntriesResp_def acked_def)

lemma acked_simps [simp]:
  "crashed (acked n r) = crashed n" "nstate (acked n r) = nstate n" "currentTerm (acked n r) = currentTerm n"
  "nid (acked n r) = nid n" "peers (acked n r) = peers n" "raftLog (acked n r) = raftLog n"
  "mget (matchIndex (acked n r)) 0 v = (if v = mFrom r then mMatchIndex r else mget (matchIndex n) 0 v)"
  by (simp_all add: acked_def)

text \<open>The state of a leader after acknowledgements of its whole log.\<close>

lemma Steps_acks:
  assumes "\<not> crashed n" and "nstate n = StateLeader" and "log_ok (raftLog n)" and "\<forall>r \<in> set rs. ack_of n r"
  shows "\<exists>n'. Steps n rs = Some (n', []) \<and> \<not> crashed n' \<and> nstate n' = StateLeader \<and> currentTerm n' = currentTerm n \<and>
    nid n' = nid n \<and> peers n' = peers n \<and> log_ok (raftLog n') \<and> entries (raftLog n') = entries (raftLog n) \<and>
    (\<forall>v. mget (matchIndex n') 0 v = (if v \<in> mFrom ` set rs then fst (Last (raftLog n)) else mget (matchIndex n) 0 v))"
  using assms(4)
proof (induction rs rule: rev_induct)
  case (snoc r rs)
  then obtain n1 where n1: "Steps n rs = Some (n1, [])" "\<not> crashed n1" "nstate n1 = StateLeader"
      "currentTerm n1 = currentTerm n" "nid n1 = nid n" "peers n1 = peers n" "log_ok (raftLog n1)"
      "entries (raftLog n1) = entries (raftLog n)"
      "\<forall>v. mget (matchIndex n1) 0 v = (if v \<in> mFrom ` set rs then fst (Last (raftLog n)) else mget (matchIndex n) 0 v)"
    by auto
  have r: "mType r = MsgAppendEntriesResp" "mSuccess r" "mTerm r = currentTerm n" "mMatchIndex r = fst (Last (raftLog n))"
    using snoc.prems by (auto simp: ack_of_def)
  then have "Step n1 r = Some (advanceCommit (acked n1 r), [])" using n1(2-4) by (intro Step_success) auto
  then have "Steps n (rs @ [r]) = Some (advanceCommit (acked n1 r), [])" by (simp add: Steps_append n1(1))
  with n1 r show ?case by (auto simp: advanceCommit_ok)
qed (use assms in auto)

text \<open>C18: Enough acknowledgements commit. When the last entry of a leader's log is of its own term and
  different peers, which together with the leader are a majority, acknowledge the whole log, the
  leader commits all of it; its log and term do not change and it stays leader.\<close>

theorem acknowledged_commits:
  assumes "\<not> crashed n" and "nstate n = StateLeader" and "log_ok (raftLog n)" and "distinct (nid n # peers n)"
    and "eTerm (last (entries (raftLog n))) = currentTerm n"
    and "\<forall>r \<in> set rs. ack_of n r" and "distinct (map mFrom rs)" and "majority n \<le> Suc (length rs)" and "rs \<noteq> []"
  shows "\<exists>n'. Steps n rs = Some (n', []) \<and> nstate n' = StateLeader \<and> currentTerm n' = currentTerm n \<and>
    entries (raftLog n') = entries (raftLog n) \<and> commitIndex (raftLog n') = fst (Last (raftLog n))"
proof -
  obtain rs' r where rs: "rs = rs' @ [r]" using assms(9) by (metis rev_exhaust)
  obtain n1 where n1: "Steps n rs' = Some (n1, [])" "\<not> crashed n1" "nstate n1 = StateLeader"
      "currentTerm n1 = currentTerm n" "nid n1 = nid n" "peers n1 = peers n" "log_ok (raftLog n1)"
      "entries (raftLog n1) = entries (raftLog n)"
      "\<forall>v. mget (matchIndex n1) 0 v = (if v \<in> mFrom ` set rs' then fst (Last (raftLog n)) else mget (matchIndex n) 0 v)"
    using Steps_acks [OF assms(1-3), of rs'] assms(6) rs by auto
  have r: "mType r = MsgAppendEntriesResp" "mSuccess r" "mTerm r = currentTerm n" "mMatchIndex r = fst (Last (raftLog n))"
    using assms(6) rs by (auto simp: ack_of_def)
  then have "Step n1 r = Some (advanceCommit (acked n1 r), [])" using n1(2-4) by (intro Step_success) auto
  then have st: "Steps n rs = Some (advanceCommit (acked n1 r), [])" by (simp add: rs Steps_append n1(1))
  have l: "Last (raftLog (acked n1 r)) = Last (raftLog n)" using n1(8) by (simp add: Last_def)
  have "mFrom ` set rs \<subseteq> {v \<in> set (peers (acked n1 r)). fst (Last (raftLog (acked n1 r))) \<le> mget (matchIndex (acked n1 r)) 0 v}"
    using n1(6,9) r(4) assms(6) l unfolding rs by (auto simp: ack_of_def)
  then have "card (mFrom ` set rs) \<le> card {v \<in> set (peers (acked n1 r)). fst (Last (raftLog (acked n1 r))) \<le> mget (matchIndex (acked n1 r)) 0 v}"
    by (intro card_mono) auto
  moreover have "card (mFrom ` set rs) = length rs" using assms(7) distinct_card by fastforce
  ultimately have "replicatedOnMajority (acked n1 r) (fst (Last (raftLog (acked n1 r))))"
    using assms(4,8) n1(6) by (simp add: replicatedOnMajority_def card_filter majority_def)
  then have "commitIndex (raftLog (advanceCommit (acked n1 r))) = fst (Last (raftLog n))"
    using advanceCommit_last [of "acked n1 r"] n1(4,7,8) assms(5) l by simp
  with st n1 show ?thesis by simp
qed

subsection \<open>Finding where a follower agrees\<close>











subsection \<open>Witnesses\<close>

definition cand3 :: node where
  "cand3 = (New 1 [2, 3] zero_rng)\<lparr>nstate := StateCandidate, currentTerm := 1, votedFor := 1, votesGranted := [1 \<mapsto> True]\<rparr>"

lemma cand3_simps [simp]:
  "nid cand3 = 1" "peers cand3 = [2, 3]" "currentTerm cand3 = 1" "\<not> crashed cand3" "nstate cand3 = StateCandidate"
  "raftLog cand3 = log_New" "votesGranted cand3 = [1 \<mapsto> True]"
  by (simp_all add: cand3_def)

theorem election_won_witness:
  "\<exists>n' out. Steps cand3 [NewRequestVoteResp 2 1 1 True, NewRequestVoteResp 3 1 1 True] = Some (n', out) \<and>
     nstate n' = StateLeader \<and> currentTerm n' = 1"
  using election_won [of cand3 "[NewRequestVoteResp 2 1 1 True, NewRequestVoteResp 3 1 1 True]"]
  by (auto simp: grant_to_def msg_defs countVotes_def majority_def)

theorem acknowledged_commits_witness:
  "\<exists>n'. Steps leader1 [NewAppendEntriesResp 2 1 2 True 2] = Some (n', []) \<and> commitIndex (raftLog n') = 2"
proof -
  have "fst (Last (raftLog leader1)) = 2" "eTerm (last (entries (raftLog leader1))) = 2" "peers leader1 = [2, 3]"
    "nid leader1 = 1" "currentTerm leader1 = 2" "nstate leader1 = StateLeader" "\<not> crashed leader1"
    by code_simp+
  with acknowledged_commits [of leader1 "[NewAppendEntriesResp 2 1 2 True 2]"] log12_ok show ?thesis
    by (auto simp: ack_of_def msg_defs majority_def leader1_def)
qed



end
