(* ===== verification/Messages.thy ===== *)
theory Messages
  imports Node_Facts
begin

text \<open>
  The helpers on messages of internal/node/message.go and the names of the roles in node.go, with
  what the classification into requests and responses means for \<open>Step\<close>: a request is answered by
  one response to its sender, a response is never answered by a response.
\<close>

definition State_String :: "State \<Rightarrow> string" where
  "State_String s =
     (case s of StateFollower \<Rightarrow> ''follower'' | StateCandidate \<Rightarrow> ''candidate'' | StateLeader \<Rightarrow> ''leader'')"

definition Message_String :: "message \<Rightarrow> string" where
  "Message_String m =
     (case mType m of
        MsgRequestVote \<Rightarrow>
          ''[RequestVote from='' @ fmt_d (mFrom m) @ '' to='' @ fmt_d (mTo m) @ '' term='' @ fmt_d (mTerm m) @
          '' lastIdx='' @ fmt_d (mLastLogIndex m) @ '' lastTerm='' @ fmt_d (mLastLogTerm m) @ '']''
      | MsgRequestVoteResp \<Rightarrow>
          ''[RequestVoteResp from='' @ fmt_d (mFrom m) @ '' to='' @ fmt_d (mTo m) @ '' term='' @ fmt_d (mTerm m) @
          '' granted='' @ fmt_v (mGranted m) @ '']''
      | MsgAppendEntries \<Rightarrow>
          ''[AppendEntries from='' @ fmt_d (mFrom m) @ '' to='' @ fmt_d (mTo m) @ '' term='' @ fmt_d (mTerm m) @
          '' prevIdx='' @ fmt_d (mPrevLogIndex m) @ '' entries='' @ dec_nat (length (mEntries m)) @
          '' commit='' @ fmt_d (mLeaderCommit m) @ '']''
      | MsgAppendEntriesResp \<Rightarrow>
          ''[AppendEntriesResp from='' @ fmt_d (mFrom m) @ '' to='' @ fmt_d (mTo m) @ '' term='' @ fmt_d (mTerm m) @
          '' success='' @ fmt_v (mSuccess m) @ '' match='' @ fmt_d (mMatchIndex m) @ '']''
      | MsgOther t \<Rightarrow>
          ''[Message type='' @ fmt_int t @ '' from='' @ fmt_d (mFrom m) @ '' to='' @ fmt_d (mTo m) @ '']'')"

definition IsRequest :: "message \<Rightarrow> bool" where
  "IsRequest m \<longleftrightarrow> mType m = MsgRequestVote \<or> mType m = MsgAppendEntries"

definition IsResponse :: "message \<Rightarrow> bool" where
  "IsResponse m \<longleftrightarrow> mType m = MsgRequestVoteResp \<or> mType m = MsgAppendEntriesResp"

definition IsHeartbeat :: "message \<Rightarrow> bool" where
  "IsHeartbeat m \<longleftrightarrow> mType m = MsgAppendEntries \<and> mEntries m = []"

lemma handleAppendEntries_reply:
  assumes "handleAppendEntries n m = Some (n', out)"
  shows "\<exists>ok i. out = [NewAppendEntriesResp (nid n) (mFrom m) (currentTerm n') ok i]"
  using assms unfolding handleAppendEntries_def Let_def
  by (clarsimp split: if_splits option.splits prod.splits) blast+

lemma handleRequestVote_reply:
  "\<exists>g. snd (handleRequestVote n m) = [NewRequestVoteResp (nid n) (mFrom m) (currentTerm (fst (handleRequestVote n m))) g]"
  by (auto simp: handleRequestVote_def Let_def)

lemma handleRequestVoteResp_sends:
  assumes "log_ok (raftLog n)" and "handleRequestVoteResp n m = Some (n', out)"
  shows "\<forall>r \<in> set out. ae_from n' r"
proof (cases "out = []")
  case False
  let ?n1 = "if mGranted m then n\<lparr>votesGranted := (votesGranted n)(mFrom m \<mapsto> True)\<rparr> else n"
  have "becomeLeader ?n1 = Some (n', out)"
    using assms(2) False by (auto simp: handleRequestVoteResp_def Let_def split: if_splits)
  with becomeLeader_ok [of ?n1] assms(1) show ?thesis by auto
qed simp

text \<open>C40: Requests and responses. A node that is up answers every request with exactly one message, a
  response of the matching kind to the request's sender that carries the node's term after the step;
  a response, or a message of an unknown type, makes it send nothing but append requests, and those
  only when it has just become leader; a crashed node sends nothing.\<close>

theorem Step_replies:
  assumes ok: "log_ok (raftLog n)" and step: "Step n m = Some (n', out)"
  shows "if crashed n then n' = n \<and> out = []
    else if IsRequest m then
      \<exists>r. out = [r] \<and> IsResponse r \<and> (mType r = MsgRequestVoteResp \<longleftrightarrow> mType m = MsgRequestVote) \<and>
        mFrom r = nid n \<and> mTo r = mFrom m \<and> mTerm r = currentTerm n'
    else (\<forall>r \<in> set out. IsRequest r \<and> mType r = MsgAppendEntries \<and> mFrom r = nid n' \<and> mTerm r = currentTerm n') \<and>
      (out \<noteq> [] \<longrightarrow> IsResponse m \<and> nstate n \<noteq> StateLeader \<and> nstate n' = StateLeader)"
proof (cases "crashed n")
  case True
  with step show ?thesis by (simp add: Step_def)
next
  case up: False
  show ?thesis
  proof (cases "mType m")
    case MsgRequestVote
    then have "handleRequestVote n m = (n', out)" using up step by (simp add: Step_def)
    then show ?thesis using handleRequestVote_reply [of n m] up MsgRequestVote
      by (auto simp: IsRequest_def IsResponse_def msg_defs)
  next
    case MsgAppendEntries
    then have "handleAppendEntries n m = Some (n', out)" using up step by (simp add: Step_def)
    from handleAppendEntries_reply [OF this] show ?thesis using up MsgAppendEntries
      by (auto simp: IsRequest_def IsResponse_def msg_defs)
  next
    case MsgRequestVoteResp
    then have h: "handleRequestVoteResp n m = Some (n', out)" using up step by (simp add: Step_def)
    have "\<forall>r \<in> set out. ae_from n' r" by (rule handleRequestVoteResp_sends [OF ok h])
    moreover have "out \<noteq> [] \<longrightarrow> nstate n \<noteq> StateLeader \<and> nstate n' = StateLeader"
      using h by (auto simp: handleRequestVoteResp_def Let_def split: if_splits dest!: becomeLeader_facts(1))
    ultimately show ?thesis using up MsgRequestVoteResp by (auto simp: IsRequest_def IsResponse_def ae_from_def)
  next
    case MsgAppendEntriesResp
    then have "out = []" using up step by (auto simp: Step_def handleAppendEntriesResp_def split: if_splits)
    then show ?thesis using up MsgAppendEntriesResp by (simp add: IsRequest_def)
  next
    case (MsgOther t)
    then have "out = []" using up step by (simp add: Step_def)
    then show ?thesis using up MsgOther by (simp add: IsRequest_def)
  qed
qed

text \<open>Heartbeats. The append a leader builds for a peer is a heartbeat exactly when the peer's next index
  lies beyond the end of the leader's log; otherwise it carries the whole rest of the log.\<close>

theorem heartbeat_iff:
  assumes ok: "log_ok (raftLog n)" and p: "p \<in> set (peers n)" and i: "0 < mget (nextIndex n) 0 p"
  shows "\<exists>m. appendEntriesFor n p = Some m \<and>
    (IsHeartbeat m \<longleftrightarrow> fst (Last (raftLog n)) < mget (nextIndex n) 0 p) \<and>
    mEntries m = drop (unat (mget (nextIndex n) 0 p)) (entries (raftLog n))"
proof -
  let ?l = "raftLog n" and ?ni = "mget (nextIndex n) 0 p"
  have ix: "indexed (entries ?l)" using ok by (simp add: log_ok_def)
  obtain m where m: "appendEntriesFor n p = Some m" "ae_from n m" using appendEntriesFor_eq [OF ok p] by blast
  have "0 < unat ?ni" using i by (simp add: word_less_nat_alt)
  then have "mEntries m = drop (unat ?ni) (entries ?l)"
    using m(1) appendEntriesFor_msg [OF ix, of p] by (auto simp: rest_of_def le_Last_iff [OF ix] msg_defs max_def)
  moreover have "fst (Last ?l) < ?ni \<longleftrightarrow> \<not> ?ni \<le> fst (Last ?l)" by auto
  ultimately show ?thesis using m le_Last_iff [OF ix, of ?ni] by (auto simp: IsHeartbeat_def ae_from_def)
qed

subsection \<open>Witnesses\<close>

definition leader9 :: node where
  "leader9 = (New 1 [2] \<lparr>draws = (\<lambda>_ _. 0), drawn = 0\<rparr>)\<lparr>nstate := StateLeader, nextIndex := [2 \<mapsto> 1]\<rparr>"

theorem Step_replies_witness:
  "\<exists>n' r. Step leader9 (NewRequestVote 2 1 4 0 0) = Some (n', [r]) \<and> IsResponse r \<and> mTo r = 2"
proof -
  have ok: "log_ok (raftLog leader9)" by (simp add: leader9_def)
  obtain n' out where s: "Step leader9 (NewRequestVote 2 1 4 0 0) = Some (n', out)"
    by (cases "handleRequestVote leader9 (NewRequestVote 2 1 4 0 0)") (simp add: Step_def leader9_def msg_defs)
  from Step_replies [OF ok s] s show ?thesis by (auto simp: leader9_def IsRequest_def msg_defs)
qed

theorem heartbeat_iff_witness: "\<exists>m. appendEntriesFor leader9 2 = Some m \<and> IsHeartbeat m"
proof -
  have "log_ok (raftLog leader9)" "2 \<in> set (peers leader9)" "mget (nextIndex leader9) 0 2 = 1"
    "fst (Last (raftLog leader9)) = 0"
    by (simp_all add: leader9_def, simp add: log_New_def Last_def dummy_def)
  with heartbeat_iff [of leader9 2] show ?thesis by auto
qed

end
