(* ===== verification/Peers.thy ===== *)
theory Peers
  imports Node_Facts
begin

text \<open>
  internal/node/peers.go and internal/node/timer.go: the replication tracker and the logical timer.
  The tracker's map is an association list with distinct keys, its iteration order the order of the
  list; every operation that iterates over it sorts what it collects. The theorems show that
  \<open>QuorumMatch\<close> is the highest index a majority has reached, that this is the rule by which a leader
  commits, and when a timer fires.
\<close>

subsection \<open>The tracker\<close>

record peer_state =
  psID :: u64
  psNextIndex :: u64
  psMatchIndex :: u64

type_synonym peer_tracker = "(u64 \<times> peer_state) list"

definition NewPeerTracker :: "u64 list \<Rightarrow> u64 \<Rightarrow> peer_tracker" where
  "NewPeerTracker ids lastIndex =
     foldl (\<lambda>pt i. AList.update i \<lparr>psID = i, psNextIndex = lastIndex + 1, psMatchIndex = 0\<rparr> pt) [] ids"

definition pt_Get :: "peer_tracker \<Rightarrow> u64 \<Rightarrow> peer_state option" where
  "pt_Get pt i = map_of pt i"

definition UpdateMatch :: "peer_tracker \<Rightarrow> u64 \<Rightarrow> u64 \<Rightarrow> peer_tracker" where
  "UpdateMatch pt i matchIdx =
     (case map_of pt i of
        None \<Rightarrow> pt
      | Some p \<Rightarrow>
          let p1 = p\<lparr>psMatchIndex := matchIdx\<rparr>;
              p2 = (if matchIdx + 1 > psNextIndex p1 then p1\<lparr>psNextIndex := matchIdx + 1\<rparr> else p1)
          in AList.update i p2 pt)"

definition DecrementNext :: "peer_tracker \<Rightarrow> u64 \<Rightarrow> peer_tracker" where
  "DecrementNext pt i =
     (case map_of pt i of
        None \<Rightarrow> pt
      | Some p \<Rightarrow>
          if psNextIndex p > 1 then AList.update i (p\<lparr>psNextIndex := psNextIndex p - 1\<rparr>) pt else pt)"

definition MatchIndexes :: "peer_tracker \<Rightarrow> u64 list" where
  "MatchIndexes pt = sort (map (\<lambda>(i, p). psMatchIndex p) pt)"

text \<open>\<open>quorumIdx\<close> of the source is computed and not used.\<close>

definition QuorumMatch :: "peer_tracker \<Rightarrow> u64 \<Rightarrow> u64 run" where
  "QuorumMatch pt leaderMatch =
     (let matches = sort (MatchIndexes pt @ [leaderMatch]);
          n = length matches
      in go_index matches (n - n div 2 - 1))"

definition pt_IDs :: "peer_tracker \<Rightarrow> u64 list" where
  "pt_IDs pt = sort (map fst pt)"

definition pt_Len :: "peer_tracker \<Rightarrow> nat" where
  "pt_Len pt = length pt"

subsection \<open>Order statistics\<close>

lemma sorted_nth_count:
  fixes xs :: "'a::linorder list"
  assumes "sorted xs" and "k < length xs"
  shows "w \<le> xs ! k \<longleftrightarrow> length xs - k \<le> length (filter (\<lambda>x. w \<le> x) xs)"
proof
  assume w: "w \<le> xs ! k"
  have "w \<le> x" if x: "x \<in> set (drop k xs)" for x
  proof -
    obtain i where "x = xs ! (k + i)" "k + i < length xs" using x by (auto simp: in_set_conv_nth)
    with w sorted_nth_mono [OF assms(1), of k "k + i"] show ?thesis by simp
  qed
  then have "filter (\<lambda>x. w \<le> x) (drop k xs) = drop k xs" by (simp add: filter_id_conv)
  then have "length (drop k xs) \<le> length (filter (\<lambda>x. w \<le> x) (take k xs @ drop k xs))"
    by (simp only: filter_append length_append)
  then show "length xs - k \<le> length (filter (\<lambda>x. w \<le> x) xs)" by simp
next
  assume len: "length xs - k \<le> length (filter (\<lambda>x. w \<le> x) xs)"
  show "w \<le> xs ! k"
  proof (rule ccontr)
    assume "\<not> w \<le> xs ! k"
    then have "\<not> w \<le> x" if x: "x \<in> set (take (Suc k) xs)" for x
      using x assms sorted_nth_mono [OF assms(1), of _ k] by (auto simp: in_set_conv_nth less_Suc_eq_le) (meson order_trans)
    then have "filter (\<lambda>x. w \<le> x) (take (Suc k) xs) = []" by (simp add: filter_empty_conv)
    then have "length (filter (\<lambda>x. w \<le> x) (take (Suc k) xs @ drop (Suc k) xs)) \<le> length xs - Suc k"
      by (simp only: filter_append length_append) (simp add: le_trans [OF length_filter_le])
    with len assms(2) show False by simp
  qed
qed

lemma length_filter_sort: "length (filter P (sort xs)) = length (filter P xs)"
  by (metis mset_filter mset_sort size_mset)

text \<open>The number of members, the leader included, whose match index is at least \<open>w\<close>.\<close>

definition reached :: "peer_tracker \<Rightarrow> u64 \<Rightarrow> u64 \<Rightarrow> nat" where
  "reached pt leaderMatch w =
     (if w \<le> leaderMatch then 1 else 0) + length (filter (\<lambda>(i, p). w \<le> psMatchIndex p) pt)"

lemma QuorumMatch_le:
  "\<exists>v. QuorumMatch pt lm = Some v \<and> (\<forall>w. w \<le> v \<longleftrightarrow> Suc (length pt) div 2 + 1 \<le> reached pt lm w)"
proof -
  let ?ms = "sort (MatchIndexes pt @ [lm])" and ?n = "Suc (length pt)"
  have len: "length ?ms = ?n" by (simp add: MatchIndexes_def)
  have k: "?n - ?n div 2 - 1 < ?n" by simp
  have "length (filter (\<lambda>x. w \<le> x) ?ms) = reached pt lm w" for w
    by (simp add: length_filter_sort MatchIndexes_def reached_def filter_map comp_def case_prod_unfold)
  moreover have "?n - (?n - ?n div 2 - 1) = ?n div 2 + 1" by linarith
  ultimately have "w \<le> ?ms ! (?n - ?n div 2 - 1) \<longleftrightarrow> ?n div 2 + 1 \<le> reached pt lm w" for w
    using sorted_nth_count [of ?ms "?n - ?n div 2 - 1" w] k by (simp only: len sorted_sort simp_thms)
  with k len show ?thesis by (simp add: QuorumMatch_def Let_def)
qed

text \<open>The quorum match. \<open>QuorumMatch\<close> never indexes out of range, and returns the highest index that a
  majority of the cluster, the leader included, has reached: a majority has reached it, and no
  majority has reached a higher one.\<close>

theorem QuorumMatch_spec:
  "\<exists>v. QuorumMatch pt lm = Some v \<and> Suc (length pt) div 2 + 1 \<le> reached pt lm v \<and>
     (\<forall>w. v < w \<longrightarrow> reached pt lm w < Suc (length pt) div 2 + 1)"
  using QuorumMatch_le [of pt lm] by (metis leD not_le order_refl)

text \<open>C28: One commit rule. A leader's \<open>replicatedOnMajority\<close> and the tracker agree: when the tracker holds
  the leader's peers with the match indices the leader recorded, an index of the leader's log is
  replicated on a majority exactly when it is at most the quorum match.\<close>

theorem QuorumMatch_commit_rule:
  assumes "map fst pt = peers n" and "\<forall>(i, p) \<in> set pt. mget (matchIndex n) 0 i = psMatchIndex p"
    and "idx \<le> lastIndex"
  shows "\<exists>v. QuorumMatch pt lastIndex = Some v \<and> (replicatedOnMajority n idx \<longleftrightarrow> idx \<le> v)"
proof -
  obtain v where v: "QuorumMatch pt lastIndex = Some v"
      "\<forall>w. w \<le> v \<longleftrightarrow> Suc (length pt) div 2 + 1 \<le> reached pt lastIndex w"
    using QuorumMatch_le by blast
  have "length (peers n) = length pt" using assms(1) by (metis length_map)
  moreover have "length (filter (\<lambda>i. idx \<le> mget (matchIndex n) 0 i) (map fst pt)) =
      length (filter (\<lambda>(i, p). idx \<le> psMatchIndex p) pt)"
    using assms(2) by (auto simp: filter_map comp_def intro!: arg_cong [where f = length] filter_cong)
  ultimately have "replicatedOnMajority n idx \<longleftrightarrow> Suc (length pt) div 2 + 1 \<le> reached pt lastIndex idx"
    using assms(1,3) by (simp add: replicatedOnMajority_def majority_def Let_def reached_def)
  with v show ?thesis by blast
qed

subsection \<open>Bookkeeping\<close>

lemma NewPeerTracker_keys: "distinct (map fst (NewPeerTracker ids li)) \<and> set (map fst (NewPeerTracker ids li)) = set ids"
proof -
  have "distinct (map fst pt) \<Longrightarrow>
      distinct (map fst (foldl (\<lambda>pt i. AList.update i (f i) pt) pt ids)) \<and>
      set (map fst (foldl (\<lambda>pt i. AList.update i (f i) pt) pt ids)) = fst ` set pt \<union> set ids"
    for pt and f :: "u64 \<Rightarrow> peer_state"
    by (induction ids arbitrary: pt) (auto simp: distinct_update dom_update)
  from this [of "[]"] show ?thesis by (simp add: NewPeerTracker_def)
qed

text \<open>Tracking progress. A new tracker holds each peer once. Recording a match raises the next index
  just past it if it was lower and leaves every other peer alone; a rejection lowers the next index
  by one but never below 1; neither adds or removes a peer.\<close>

theorem peer_tracker_spec:
  "distinct (map fst (NewPeerTracker ids li)) \<and> set (map fst (NewPeerTracker ids li)) = set ids \<and>
   pt_Get (UpdateMatch pt i k) = (\<lambda>j. if j = i then map_option (\<lambda>p. p\<lparr>psMatchIndex := k,
     psNextIndex := max (psNextIndex p) (k + 1)\<rparr>) (pt_Get pt i) else pt_Get pt j) \<and>
   pt_Get (DecrementNext pt i) = (\<lambda>j. if j = i then map_option (\<lambda>p. p\<lparr>psNextIndex :=
     (if 1 < psNextIndex p then psNextIndex p - 1 else psNextIndex p)\<rparr>) (pt_Get pt i) else pt_Get pt j)"
  using NewPeerTracker_keys [of ids li]
  by (auto simp: UpdateMatch_def DecrementNext_def pt_Get_def fun_eq_iff update_conv' max_def Let_def
      split: option.splits)

subsection \<open>Timers\<close>

record timer =
  deadline :: int
  elapsed :: int
  active :: bool

definition NewTimer :: "int \<Rightarrow> timer" where
  "NewTimer d = \<lparr>deadline = d, elapsed = 0, active = True\<rparr>"

definition Timer_Tick :: "timer \<Rightarrow> bool \<times> timer" where
  "Timer_Tick t =
     (if \<not> active t then (False, t)
      else let t1 = t\<lparr>elapsed := elapsed t + 1\<rparr> in (elapsed t1 \<ge> deadline t1, t1))"

definition Timer_Reset :: "timer \<Rightarrow> int \<Rightarrow> timer" where
  "Timer_Reset t d = t\<lparr>deadline := d, elapsed := 0, active := True\<rparr>"

definition Timer_Stop :: "timer \<Rightarrow> timer" where
  "Timer_Stop t = t\<lparr>active := False\<rparr>"

definition Timer_IsActive :: "timer \<Rightarrow> bool" where [simp]:
  "Timer_IsActive t = active t"

definition Timer_Elapsed :: "timer \<Rightarrow> int" where [simp]:
  "Timer_Elapsed t = elapsed t"

definition Timer_Remaining :: "timer \<Rightarrow> int" where
  "Timer_Remaining t = (let r = deadline t - elapsed t in if r < 0 then 0 else r)"

definition Timer_Fired :: "timer \<Rightarrow> bool" where
  "Timer_Fired t \<longleftrightarrow> active t \<and> elapsed t \<ge> deadline t"

text \<open>Timers. A tick of a stopped timer does nothing. A tick of a running timer takes one off the
  remaining time, down to 0, and reports that it fired exactly when none is left; from then on the
  timer counts as fired until it is reset or stopped.\<close>

theorem Timer_Tick_spec:
  "case Timer_Tick t of (fired, t') \<Rightarrow>
     (if active t then Timer_Remaining t' = max 0 (Timer_Remaining t - 1) \<and>
        (fired \<longleftrightarrow> Timer_Remaining t' = 0) \<and> (fired \<longleftrightarrow> Timer_Fired t') \<and> active t'
      else \<not> fired \<and> t' = t \<and> \<not> Timer_Fired t)"
  by (auto simp: Timer_Tick_def Timer_Remaining_def Timer_Fired_def Let_def)

subsection \<open>Witnesses\<close>

theorem QuorumMatch_commit_rule_witness:
  "\<exists>v. QuorumMatch [(2, \<lparr>psID = 2, psNextIndex = 6, psMatchIndex = 5\<rparr>), (3, \<lparr>psID = 3, psNextIndex = 1, psMatchIndex = 0\<rparr>)] 7 = Some v \<and>
     (replicatedOnMajority ((New 1 [2, 3] \<lparr>draws = (\<lambda>_ _. 0), drawn = 0\<rparr>)\<lparr>matchIndex := [2 \<mapsto> 5, 3 \<mapsto> 0]\<rparr>) 4 \<longleftrightarrow> 4 \<le> v)"
  by (rule QuorumMatch_commit_rule) (auto simp: mget_def)

end
