(* ===== verification/Membership.thy ===== *)
theory Membership
  imports Quorum
begin

text \<open>
  internal/membership/membership.go: cluster configurations and their quorums. A configuration is a
  sorted list of peer identifiers. The theorems show that adding and removing a peer do what they
  say, that two majorities of a configuration have a member in common, and that this still holds for
  a majority before and a majority after one peer is added or removed.
\<close>

record config =
  Peers :: "u64 list"

definition NewConfig :: "u64 list \<Rightarrow> config" where
  "NewConfig ps = \<lparr>Peers = sort ps\<rparr>"

definition Contains :: "config \<Rightarrow> u64 \<Rightarrow> bool" where
  "Contains c i \<longleftrightarrow> list_ex (\<lambda>p. p = i) (Peers c)"

definition cfg_Size :: "config \<Rightarrow> nat" where
  "cfg_Size c = length (Peers c)"

definition Quorum :: "config \<Rightarrow> nat" where
  "Quorum c = length (Peers c) div 2 + 1"

definition OtherPeers :: "config \<Rightarrow> u64 \<Rightarrow> u64 list" where
  "OtherPeers c i = filter (\<lambda>p. p \<noteq> i) (Peers c)"

definition AddPeer :: "config \<Rightarrow> u64 \<Rightarrow> config" where
  "AddPeer c i = (if Contains c i then c else NewConfig (Peers c @ [i]))"

definition RemovePeer :: "config \<Rightarrow> u64 \<Rightarrow> config" where
  "RemovePeer c i = NewConfig (filter (\<lambda>p. p \<noteq> i) (Peers c))"

definition cfg_Equal :: "config \<Rightarrow> config \<Rightarrow> bool" where
  "cfg_Equal c other \<longleftrightarrow>
     length (Peers c) = length (Peers other) \<and>
     list_all (\<lambda>i. Peers c ! i = Peers other ! i) [0..<length (Peers c)]"

definition IsMajority :: "config \<Rightarrow> nat \<Rightarrow> bool" where
  "IsMajority c k \<longleftrightarrow> k \<ge> Quorum c"

subsection \<open>Well-formed configurations\<close>

definition cfg_ok :: "config \<Rightarrow> bool" where
  "cfg_ok c \<longleftrightarrow> sorted (Peers c) \<and> distinct (Peers c)"

lemma Contains_iff: "Contains c i \<longleftrightarrow> i \<in> set (Peers c)"
  by (auto simp: Contains_def list_ex_iff)

lemma set_AddPeer: "set (Peers (AddPeer c i)) = insert i (set (Peers c))"
  by (auto simp: AddPeer_def NewConfig_def Contains_iff)

lemma set_RemovePeer: "set (Peers (RemovePeer c i)) = set (Peers c) - {i}"
  by (auto simp: RemovePeer_def NewConfig_def)

lemma cfg_ok_eqI: "cfg_ok c \<Longrightarrow> cfg_ok c' \<Longrightarrow> set (Peers c) = set (Peers c') \<Longrightarrow> c = c'"
  using sorted_distinct_set_unique [of "Peers c" "Peers c'"] by (auto simp: cfg_ok_def)

text \<open>Membership changes. Building, extending and shrinking a configuration keep it sorted and free
  of duplicates. \<open>AddPeer\<close> adds exactly the peer, \<open>RemovePeer\<close> removes exactly the peer and undoes
  \<open>AddPeer\<close> of a new one, adding a member changes nothing, and \<open>OtherPeers\<close> is everybody else.\<close>

theorem membership_change:
  assumes "cfg_ok c"
  shows "cfg_ok (AddPeer c i) \<and> cfg_ok (RemovePeer c i) \<and>
    (Contains (AddPeer c i) j \<longleftrightarrow> j = i \<or> Contains c j) \<and>
    (Contains (RemovePeer c i) j \<longleftrightarrow> j \<noteq> i \<and> Contains c j) \<and>
    (if Contains c i then AddPeer c i = c else RemovePeer (AddPeer c i) i = c) \<and>
    set (OtherPeers c i) = set (Peers c) - {i}"
proof -
  have ok: "cfg_ok (AddPeer d k)" "cfg_ok (RemovePeer d k)" if "cfg_ok d" for d k
    using that by (auto simp: cfg_ok_def AddPeer_def RemovePeer_def NewConfig_def Contains_iff)
  have "RemovePeer (AddPeer c i) i = c" if "\<not> Contains c i"
    using that by (intro cfg_ok_eqI ok assms) (simp add: set_RemovePeer set_AddPeer Contains_iff)
  moreover have "AddPeer c i = c" if "Contains c i" using that by (simp add: AddPeer_def)
  ultimately show ?thesis
    using ok [OF assms] by (auto simp: Contains_iff set_AddPeer set_RemovePeer OtherPeers_def)
qed

text \<open>Two configurations without duplicates are \<open>Equal\<close> exactly when they have the same members.\<close>

theorem cfg_Equal_iff:
  assumes "cfg_ok c" and "cfg_ok d"
  shows "cfg_Equal c d \<longleftrightarrow> (\<forall>i. Contains c i \<longleftrightarrow> Contains d i)"
proof -
  have "cfg_Equal c d \<longleftrightarrow> Peers c = Peers d"
    unfolding cfg_Equal_def list_all_iff by (auto intro: nth_equalityI)
  also have "\<dots> \<longleftrightarrow> set (Peers c) = set (Peers d)"
    using assms sorted_distinct_set_unique [of "Peers c" "Peers d"] unfolding cfg_ok_def by metis
  finally show ?thesis by (auto simp: Contains_iff)
qed

subsection \<open>Quorums\<close>

definition cfg_quorum :: "config \<Rightarrow> u64 set \<Rightarrow> bool" where
  "cfg_quorum c Q \<longleftrightarrow> Q \<subseteq> set (Peers c) \<and> IsMajority c (card Q)"

lemma cfg_quorum_majority: "cfg_ok c \<Longrightarrow> cfg_quorum c Q \<longleftrightarrow> is_majority (set (Peers c)) Q"
  by (auto simp: cfg_quorum_def is_majority_def IsMajority_def Quorum_def cfg_ok_def distinct_card)

interpretation cfgs: quorum_system "\<lambda>Q. cfg_ok c \<and> cfg_quorum c Q" for c
  by unfold_locales (use cfg_quorum_majority majorities.quorums_meet in blast)

text \<open>Quorums meet. Two sets of members that \<open>IsMajority\<close> accepts by their size have a member in
  common.\<close>

theorem quorums_intersect:
  assumes "cfg_ok c" and "Q \<subseteq> set (Peers c)" and "R \<subseteq> set (Peers c)"
    and "IsMajority c (card Q)" and "IsMajority c (card R)"
  shows "Q \<inter> R \<noteq> {}"
  using cfgs.quorums_meet [of c Q R] assms by (simp add: cfg_quorum_def)

text \<open>Quorums meet across a change of one member. A majority of a configuration and a majority of the
  configuration after adding a peer have a member in common, so one peer at a time can be added, or
  removed again, without two disjoint majorities.\<close>

theorem quorums_intersect_change:
  assumes "cfg_ok c" and "cfg_quorum c Q" and "cfg_quorum (AddPeer c i) R"
  shows "Q \<inter> R \<noteq> {}"
proof (cases "Contains c i")
  case True
  with assms show ?thesis
    using cfgs.quorums_meet [of c Q R] by (simp add: AddPeer_def)
next
  case False
  let ?n = "length (Peers c)" and ?U = "insert i (set (Peers c))"
  have n: "length (Peers (AddPeer c i)) = Suc ?n" using False by (simp add: AddPeer_def NewConfig_def)
  have card: "card ?U = Suc ?n"
    using assms(1) False by (simp add: cfg_ok_def Contains_iff distinct_card)
  have sub: "Q \<subseteq> ?U" "R \<subseteq> ?U" and size: "?n div 2 + 1 \<le> card Q" "Suc ?n div 2 + 1 \<le> card R"
    using assms(2,3) n by (auto simp: cfg_quorum_def IsMajority_def Quorum_def set_AddPeer)
  show ?thesis
  proof
    assume "Q \<inter> R = {}"
    then have "card Q + card R = card (Q \<union> R)"
      using sub finite_subset [of _ ?U] by (subst card_Un_disjoint) auto
    also have "\<dots> \<le> Suc ?n" using card_mono [of ?U "Q \<union> R"] sub card by simp
    finally show False using size by linarith
  qed
qed

subsection \<open>Witnesses\<close>

definition cfg3 :: config where
  "cfg3 = NewConfig [3, 1, 2]"

lemma cfg3_ok: "cfg_ok cfg3"
  by code_simp

theorem membership_change_witness:
  "cfg_ok (AddPeer cfg3 4) \<and> Contains (AddPeer cfg3 4) 4 \<and> RemovePeer (AddPeer cfg3 4) 4 = cfg3"
proof -
  have "\<not> Contains cfg3 4" by code_simp
  with membership_change [OF cfg3_ok, of 4 4] show ?thesis by simp
qed

theorem cfg_Equal_iff_witness:
  "cfg_Equal cfg3 cfg3 \<longleftrightarrow> (\<forall>i. Contains cfg3 i \<longleftrightarrow> Contains cfg3 i)"
  by (rule cfg_Equal_iff [OF cfg3_ok cfg3_ok])

theorem quorums_intersect_witness: "{1, 2} \<inter> {2, 3 :: u64} \<noteq> {}"
proof -
  have "set (Peers cfg3) = {1, 2, 3}" "IsMajority cfg3 2" by code_simp+
  then show ?thesis using quorums_intersect [OF cfg3_ok, of "{1, 2}" "{2, 3}"] by simp
qed

theorem quorums_intersect_change_witness: "{1, 2} \<inter> {2, 3, 4 :: u64} \<noteq> {}"
proof -
  have "set (Peers cfg3) = {1, 2, 3}" "set (Peers (AddPeer cfg3 4)) = {1, 2, 3, 4}"
    "IsMajority cfg3 2" "IsMajority (AddPeer cfg3 4) 3" by code_simp+
  then show ?thesis using quorums_intersect_change [OF cfg3_ok, of "{1, 2}" 4 "{2, 3, 4}"]
    by (simp add: cfg_quorum_def)
qed

end
