(* ===== verification/Floats.thy ===== *)
theory Floats
  imports Complex_Main "HOL-Library.Log_Nat"
begin

text \<open>
  Go's \<open>float64\<close>, as far as the statistics of the log use it: numbers that are 0 or between \<open>2 ^ - 1022\<close> and
  \<open>2 ^ 1024\<close>. A value is the rational number it stands for, and \<open>binary64\<close> rounds a rational to the nearest
  value with 53 significant bits, ties to even, as IEEE 754 asks of every operation. Rounding keeps the order
  and the integers up to \<open>2 ^ 53\<close>.
\<close>

definition pow2 :: "int \<Rightarrow> rat" where
  "pow2 k = (if 0 \<le> k then 2 ^ nat k else 1 / 2 ^ nat (- k))"

definition round_even :: "rat \<Rightarrow> int" where
  "round_even x =
     (let f = \<lfloor>x\<rfloor>; r = x - of_int f
      in if r < 1 / 2 then f else if r > 1 / 2 then f + 1 else if even f then f else f + 1)"

text \<open>The exponent of a positive number, from the lengths of its numerator and denominator.\<close>

definition expo :: "rat \<Rightarrow> int" where
  "expo x =
     (let (p, q) = quotient_of x; e = int (floorlog 2 (nat p)) - int (floorlog 2 (nat q))
      in if pow2 e \<le> x then e else e - 1)"

definition binary64 :: "rat \<Rightarrow> rat" where
  "binary64 x = (if x = 0 then 0 else let u = pow2 (expo x - 52) in of_int (round_even (x / u)) * u)"

subsection \<open>Rounding to integers\<close>

lemma round_even_of_int [simp]: "round_even (of_int z) = z"
  by (simp add: round_even_def)

lemma round_even_floor: "\<lfloor>x\<rfloor> \<le> round_even x \<and> round_even x \<le> \<lfloor>x\<rfloor> + 1"
  by (simp add: round_even_def Let_def)

lemma round_even_mono:
  assumes "x \<le> y"
  shows "round_even x \<le> round_even y"
proof (cases "\<lfloor>x\<rfloor> = \<lfloor>y\<rfloor>")
  case True
  with assms show ?thesis by (auto simp: round_even_def Let_def)
next
  case False
  with floor_mono [OF assms] have "\<lfloor>x\<rfloor> + 1 \<le> \<lfloor>y\<rfloor>" by simp
  with round_even_floor [of x] round_even_floor [of y] show ?thesis by linarith
qed

subsection \<open>Exponents\<close>

lemma pow2_powi: "pow2 k = 2 powi k"
  by (simp add: pow2_def power_int_def field_simps)

lemma pow2_pos [simp]: "0 < pow2 k"
  by (simp add: pow2_def)

lemma pow2_add: "pow2 (j + k) = pow2 j * pow2 k"
  by (simp add: pow2_powi power_int_add)

lemma pow2_nat: "pow2 (int n) = 2 ^ n"
  by (simp add: pow2_def)

lemma pow2_mono: "j \<le> k \<Longrightarrow> pow2 j \<le> pow2 k"
  by (simp add: pow2_powi power_int_increasing)

lemma floorlog_pow2:
  assumes "0 < n"
  shows "pow2 (int (floorlog 2 n) - 1) \<le> of_nat n" and "of_nat n < pow2 (int (floorlog 2 n))"
proof -
  have b: "2 ^ (floorlog 2 n - 1) \<le> n" "n < 2 ^ floorlog 2 n" using floorlog_bounds [of n 2] assms by simp_all
  have "0 < floorlog 2 n" using assms by (simp add: floorlog_eq_zero_iff neq0_conv [symmetric] del: neq0_conv)
  then have e: "pow2 (int (floorlog 2 n) - 1) = 2 ^ (floorlog 2 n - 1)"
    using pow2_nat [of "floorlog 2 n - 1"] by (simp add: of_nat_diff)
  have "(of_nat (2 ^ (floorlog 2 n - 1)) :: rat) \<le> of_nat n" "(of_nat n :: rat) < of_nat (2 ^ floorlog 2 n)"
    using b by (simp_all only: of_nat_le_iff of_nat_less_iff)
  then show "pow2 (int (floorlog 2 n) - 1) \<le> of_nat n" "of_nat n < pow2 (int (floorlog 2 n))"
    by (simp_all add: e pow2_nat)
qed

lemma expo_bounds:
  assumes "0 < x"
  shows "pow2 (expo x) \<le> x" and "x < pow2 (expo x + 1)"
proof -
  obtain p q where pq: "quotient_of x = (p, q)" by (cases "quotient_of x")
  then have q: "0 < q" and x: "x = of_int p / of_int q" using quotient_of_denom_pos quotient_of_div by blast+
  then have p: "0 < p" using assms by (simp add: zero_less_divide_iff)
  let ?a = "int (floorlog 2 (nat p))" and ?b = "int (floorlog 2 (nat q))"
  have P: "pow2 (?a - 1) \<le> of_int p" "of_int p < pow2 ?a" using floorlog_pow2 [of "nat p"] p by simp_all
  have Q: "pow2 (?b - 1) \<le> of_int q" "of_int q < pow2 ?b" using floorlog_pow2 [of "nat q"] q by simp_all
  have "of_int p < pow2 ?a" by (rule P)
  also have "pow2 ?a = pow2 (?a - ?b + 1) * pow2 (?b - 1)" by (simp add: pow2_add [symmetric])
  also have "\<dots> \<le> pow2 (?a - ?b + 1) * of_int q" using Q(1) by (simp add: less_imp_le)
  finally have up: "x < pow2 (?a - ?b + 1)" using q x by (simp add: pos_divide_less_eq)
  have "pow2 (?a - ?b - 1) * of_int q \<le> pow2 (?a - ?b - 1) * pow2 ?b" using Q(2) by (simp add: less_imp_le)
  also have "\<dots> = pow2 (?a - 1)" by (simp add: pow2_add [symmetric])
  also have "\<dots> \<le> of_int p" by (rule P)
  finally have lo: "pow2 (?a - ?b - 1) \<le> x" using q x by (simp add: pos_le_divide_eq)
  from up lo show "pow2 (expo x) \<le> x" "x < pow2 (expo x + 1)"
    by (auto simp: expo_def pq Let_def)
qed

subsection \<open>Rounding\<close>

lemma ulp: "pow2 e = 2 ^ 52 * pow2 (e - 52)" "pow2 (e + 1) = 2 ^ 53 * pow2 (e - 52)"
  using pow2_add [of 52 "e - 52"] pow2_add [of 53 "e - 52"] pow2_nat [of 52] pow2_nat [of 53]
  by (simp_all add: add.commute)

lemma significand_bounds:
  assumes "0 < x"
  shows "2 ^ 52 \<le> round_even (x / pow2 (expo x - 52))" and "round_even (x / pow2 (expo x - 52)) \<le> 2 ^ 53"
proof -
  let ?u = "pow2 (expo x - 52)"
  note ulp [of "expo x"]
  then have "of_int (2 ^ 52) \<le> x / ?u" "x / ?u \<le> of_int (2 ^ 53)"
    using expo_bounds [OF assms] by (simp_all add: pos_le_divide_eq pos_divide_le_eq)
  then show "2 ^ 52 \<le> round_even (x / ?u)" "round_even (x / ?u) \<le> 2 ^ 53"
    using round_even_mono round_even_of_int by metis+
qed

lemma binary64_between:
  assumes "0 < x"
  shows "pow2 (expo x) \<le> binary64 x" and "binary64 x \<le> pow2 (expo x + 1)"
proof -
  let ?u = "pow2 (expo x - 52)"
  have "of_int (2 ^ 52) \<le> (of_int (round_even (x / ?u)) :: rat)" "(of_int (round_even (x / ?u)) :: rat) \<le> of_int (2 ^ 53)"
    using significand_bounds [OF assms] by (simp_all only: of_int_le_iff)
  with assms show "pow2 (expo x) \<le> binary64 x" "binary64 x \<le> pow2 (expo x + 1)"
    by (simp_all add: binary64_def Let_def ulp [of "expo x"])
qed

lemma binary64_mono:
  assumes "0 \<le> x" and "x \<le> y"
  shows "binary64 x \<le> binary64 y"
proof (cases "x = 0")
  case True
  have "0 \<le> binary64 y" if "0 < y" using binary64_between(1) [OF that] pow2_pos [of "expo y"] by linarith
  with True assms show ?thesis by (cases "y = 0") (auto simp: binary64_def)
next
  case False
  with assms have xy: "0 < x" "0 < y" by auto
  consider "expo x = expo y" | "expo x + 1 \<le> expo y" | "expo y + 1 \<le> expo x" by linarith
  then show ?thesis
  proof cases
    case 1
    have "round_even (x / pow2 (expo y - 52)) \<le> round_even (y / pow2 (expo y - 52))"
      using assms(2) by (intro round_even_mono divide_right_mono) (auto simp: less_imp_le)
    with 1 xy show ?thesis by (simp add: binary64_def Let_def)
  next
    case 2
    have "binary64 x \<le> pow2 (expo x + 1)" by (rule binary64_between(2) [OF xy(1)])
    also have "\<dots> \<le> pow2 (expo y)" using 2 by (rule pow2_mono)
    also have "\<dots> \<le> binary64 y" by (rule binary64_between(1) [OF xy(2)])
    finally show ?thesis .
  next
    case 3
    from expo_bounds(2) [OF xy(2)] pow2_mono [OF 3] expo_bounds(1) [OF xy(1)] assms(2) show ?thesis by linarith
  qed
qed

lemma binary64_of_nat:
  assumes "n < 2 ^ 53"
  shows "binary64 (of_nat n) = of_nat n"
proof (cases "n = 0")
  case False
  then have n: "(0 :: rat) < of_nat n" by simp
  have "expo (of_nat n) < 53"
  proof (rule ccontr)
    assume "\<not> ?thesis"
    then have "pow2 53 \<le> pow2 (expo (of_nat n))" by (intro pow2_mono) simp
    with expo_bounds(1) [OF n] pow2_nat [of 53] have "(2 ^ 53 :: rat) \<le> of_nat n" by simp
    then have "of_nat (2 ^ 53) \<le> (of_nat n :: rat)" by simp
    with assms show False by (simp only: of_nat_le_iff)
  qed
  then obtain k where k: "52 - expo (of_nat n) = int k" using zero_le_imp_eq_int [of "52 - expo (of_nat n)"] by auto
  then have "pow2 (expo (of_nat n) - 52) * 2 ^ k = 1"
    using pow2_add [of "expo (of_nat n) - 52" "int k"] pow2_nat [of k] by (simp add: pow2_def)
  then have u: "pow2 (expo (of_nat n) - 52) = 1 / 2 ^ k" by (simp add: field_simps)
  have "of_nat n / pow2 (expo (of_nat n) - 52) = of_int (int n * 2 ^ k)" by (simp add: u)
  then have "round_even (of_nat n / pow2 (expo (of_nat n) - 52)) = int n * 2 ^ k" by (simp only: round_even_of_int)
  with False show ?thesis by (simp add: binary64_def Let_def u)
qed (simp add: binary64_def)

end
