(* ===== verification/Log_Extra.thy ===== *)
theory Log_Extra
  imports Log_Props Floats
begin

text \<open>
  The rest of internal/log: compaction (compact.go), iterators (iter.go), batches (batch.go) and
  statistics (stats.go). Compaction keeps a suffix of the log behind a sentinel that carries the
  compacted index, so an entry is no longer found at the position its index names. The operations of
  these files subtract the sentinel's index; those of log.go do not.
\<close>

subsection \<open>Compaction\<close>

definition go_int :: "u64 \<Rightarrow> int" where
  "go_int w = sint w"

definition Compact :: "log \<Rightarrow> u64 \<Rightarrow> (log_error err \<times> log) run" where
  "Compact l compactIndex =
     (if compactIndex > commitIndex l then Some (Some ErrIndexOutOfRange, l)
      else if compactIndex = 0 then Some (None, l)
      else do {
        e0 \<leftarrow> go_index (entries l) 0;
        let pos = go_int (compactIndex - eIndex e0);
        if pos \<le> 0 \<or> pos \<ge> int (length (entries l)) then Some (Some ErrIndexOutOfRange, l)
        else
          let e = entries l ! nat pos;
              sentinel = \<lparr>eTerm = eTerm e, eIndex = eIndex e, eCommand = []\<rparr>
          in Some (None, l\<lparr>entries := sentinel # drop (nat pos + 1) (entries l)\<rparr>)
      })"

definition CompactedIndex :: "log \<Rightarrow> u64" where
  "CompactedIndex l = (if length (entries l) = 0 then 0 else eIndex (entries l ! 0))"

definition CompactedTerm :: "log \<Rightarrow> u64" where
  "CompactedTerm l = (if length (entries l) = 0 then 0 else eTerm (entries l ! 0))"

text \<open>A negative position would make the allocation of the result panic.\<close>

definition EntrySince :: "log \<Rightarrow> u64 \<Rightarrow> entry list run" where
  "EntrySince l startIndex =
     do {
       e0 \<leftarrow> go_index (entries l) 0;
       let base = eIndex e0;
       let startIndex = (if startIndex \<le> base then base + 1 else startIndex);
       let pos = go_int (startIndex - base);
       if pos \<ge> int (length (entries l)) then Some []
       else if pos < 0 then None
       else Some (drop (nat pos) (entries l))
     }"

text \<open>A log whose positions are offset by the index of its sentinel. A log that was never compacted
  has offset 0.\<close>

definition offset_log :: "u64 \<Rightarrow> entry list \<Rightarrow> bool" where
  "offset_log base es \<longleftrightarrow> es \<noteq> [] \<and> unat base + length es < 2 ^ 63 \<and>
     (\<forall>k < length es. eIndex (es ! k) = base + of_nat k)"

lemma offset_log_0: "log_ok l \<Longrightarrow> offset_log 0 (entries l)"
  by (auto simp: log_ok_def indexed_def offset_log_def)

lemma go_int_of_nat: "k < 2 ^ 63 \<Longrightarrow> go_int (of_nat k) = int k"
  unfolding go_int_def signed_of_nat by (simp add: signed_take_bit_int_eq_self)

lemma go_int_small: "unat w < 2 ^ 63 \<Longrightarrow> go_int w = int (unat w)"
  using go_int_of_nat [of "unat w"] by simp

lemma offset_base: "offset_log base es \<Longrightarrow> eIndex (es ! 0) = base"
  by (auto simp: offset_log_def)

text \<open>What \<open>EntrySince\<close> returns on such a log.\<close>

lemma EntrySince_eq:
  assumes ok: "offset_log base (entries l)" and j: "base < j" "unat j < 2 ^ 63"
  shows "EntrySince l j = Some (drop (unat j - unat base) (entries l))"
proof -
  have sub: "unat (j - base) = unat j - unat base" using j(1) by (simp add: unat_sub)
  then have "go_int (j - base) = int (unat j - unat base)" using j(2) by (subst go_int_small) auto
  then show ?thesis
    using ok j(1) offset_base [OF ok] by (auto simp: EntrySince_def offset_log_def Let_def not_le)
qed

text \<open>The log compaction leaves when position \<open>p\<close> becomes the sentinel.\<close>

definition compacted :: "nat \<Rightarrow> log \<Rightarrow> log" where
  "compacted p l = l\<lparr>entries := \<lparr>eTerm = eTerm (entries l ! p), eIndex = eIndex (entries l ! p), eCommand = []\<rparr> #
     drop (Suc p) (entries l)\<rparr>"

lemma Compact_eq:
  assumes ok: "offset_log base (entries l)" and i: "i = base + of_nat p" "0 < p" "p < length (entries l)"
    and c: "i \<le> commitIndex l"
  shows "Compact l i = Some (None, compacted p l)"
proof -
  have ne: "entries l \<noteq> []" and len: "unat base + length (entries l) < 2 ^ 63"
    using ok by (auto simp: offset_log_def)
  have go: "go_int (i - base) = int p" using len i by (simp add: go_int_of_nat)
  have "unat base + p < 2 ^ 64" using len i(3) by simp
  then have "unat i = unat base + p" using i(1) by (simp add: unat_word_ariths unat_of_nat)
  then have "i \<noteq> 0" using i(2) by auto
  then show ?thesis
    using c ne go i offset_base [OF ok] by (simp add: Compact_def compacted_def Let_def not_less)
qed

text \<open>C39: Compaction keeps the rest of the log. Compacting a log up to an index that is committed and
  that it still holds succeeds; the compacted index becomes the log's base, the commit index stays,
  and the entries after it are exactly those \<open>EntrySince\<close> returned before.\<close>

theorem Compact_keeps:
  assumes "offset_log base (entries l)" and "base < i" and "i \<le> commitIndex l"
    and "unat i < unat base + length (entries l)" and "i < j" and "unat j < 2 ^ 63"
  shows "\<exists>l'. Compact l i = Some (None, l') \<and> offset_log i (entries l') \<and> CompactedIndex l' = i \<and>
    commitIndex l' = commitIndex l \<and> EntrySince l' j = EntrySince l j"
proof -
  define p where "p = unat i - unat base"
  have bi: "unat base < unat i" using assms(2) by (simp add: word_less_nat_alt)
  have p: "0 < p" "p < length (entries l)" "unat i = unat base + p" using bi assms(4) by (auto simp: p_def)
  from arg_cong [OF p(3), of "of_nat :: nat \<Rightarrow> u64"] have i: "i = base + of_nat p" by simp
  have ix: "eIndex (entries l ! k) = base + of_nat k" if "k < length (entries l)" for k
    using assms(1) that by (simp add: offset_log_def)
  have "unat base + length (entries l) < 2 ^ 63" using assms(1) by (simp add: offset_log_def)
  then have ok': "offset_log i (entries (compacted p l))"
    using p ix by (auto simp: offset_log_def compacted_def i nth_Cons' algebra_simps)
  have "unat i < unat j" using assms(5) by (simp add: word_less_nat_alt)
  then have "drop (unat j - unat i) (entries (compacted p l)) = drop (unat j - unat base) (entries l)"
    using p(3) by (simp add: compacted_def drop_Cons' Suc_diff_Suc)
  then have "EntrySince (compacted p l) j = EntrySince l j"
    using EntrySince_eq [OF ok' assms(5,6)] EntrySince_eq [OF assms(1) _ assms(6)] assms(2,5)
    by (simp add: order.strict_trans)
  moreover have "CompactedIndex (compacted p l) = i" "commitIndex (compacted p l) = commitIndex l"
    using ix [OF p(2)] by (simp_all add: CompactedIndex_def compacted_def i)
  ultimately show ?thesis using Compact_eq [OF assms(1) i p(1,2) assms(3)] ok' by blast
qed

text \<open>Compaction moves the entries under the reads of log.go. After compacting a well-formed log up
  to index \<open>i\<close>, \<open>At k\<close> returns the entry that had index \<open>i + k\<close>: positions are no longer indices, and the
  reads by index, and the replication built on them, return other entries or none.\<close>

theorem Compact_shifts_At:
  assumes "log_ok l" and "0 < i" and "i \<le> commitIndex l" and "0 < k"
    and "unat i + k < length (entries l)"
  shows "\<exists>l'. Compact l i = Some (None, l') \<and> At l' (of_nat k) = At l (i + of_nat k) \<and>
    At l' (of_nat k) \<noteq> At l (of_nat k)"
proof -
  have ix: "indexed (entries l)" using assms(1) by (simp add: log_ok_def)
  have len: "length (entries l) < 2 ^ 63" using indexedD(4) [OF ix] .
  have i: "0 < unat i" using assms(2) by (simp add: word_less_nat_alt)
  have c: "Compact l i = Some (None, compacted (unat i) l)"
    using Compact_eq [OF offset_log_0 [OF assms(1)], of i "unat i"] i assms(3,5) by simp
  have k: "unat (of_nat k :: u64) = k" using len assms(5) by simp
  have ik: "i + of_nat k = of_nat (unat i + k)" by simp
  then have uik: "unat (i + of_nat k) = unat i + k" using len assms(5) by (simp only: unat_of_nat_len)
  have at: "At (compacted (unat i) l) (of_nat k) = Inr (entries l ! (unat i + k))"
    using assms(4,5) k by (simp add: log_defs compacted_def nth_Cons')
  have "eIndex (entries l ! (unat i + k)) \<noteq> eIndex (entries l ! k)"
    using unat_index [OF ix assms(5)] unat_index [OF ix, of k] assms(5) i by auto
  then have "At l (of_nat k) \<noteq> Inr (entries l ! (unat i + k))" using k assms(5) by (auto simp: log_defs)
  moreover have "At l (i + of_nat k) = Inr (entries l ! (unat i + k))" using assms(5) uik by (simp add: log_defs)
  ultimately show ?thesis using c at by auto
qed

subsection \<open>Iterators\<close>

text \<open>An iterator refers to its log: the operations take the log as it is when they run.\<close>

record iterator =
  ipos :: int

definition Iter :: iterator where
  "Iter = \<lparr>ipos = 1\<rparr>"

definition Iter_Valid :: "log \<Rightarrow> iterator \<Rightarrow> bool" where
  "Iter_Valid l it \<longleftrightarrow> ipos it < int (length (entries l))"

definition Iter_Next :: "iterator \<Rightarrow> iterator" where
  "Iter_Next it = it\<lparr>ipos := ipos it + 1\<rparr>"

definition Iter_Entry :: "log \<Rightarrow> iterator \<Rightarrow> entry run" where
  "Iter_Entry l it =
     (if \<not> Iter_Valid l it then Some \<lparr>eTerm = 0, eIndex = 0, eCommand = []\<rparr>
      else if ipos it < 0 then None else Some (entries l ! nat (ipos it)))"

definition Iter_Index :: "log \<Rightarrow> iterator \<Rightarrow> u64 run" where
  "Iter_Index l it =
     (if \<not> Iter_Valid l it then Some 0
      else if ipos it < 0 then None else Some (eIndex (entries l ! nat (ipos it))))"

definition Iter_Rewind :: "iterator \<Rightarrow> iterator" where
  "Iter_Rewind it = it\<lparr>ipos := 1\<rparr>"

definition Iter_Seek :: "log \<Rightarrow> iterator \<Rightarrow> u64 \<Rightarrow> iterator run" where
  "Iter_Seek l it index =
     do {
       e0 \<leftarrow> go_index (entries l) 0;
       let it1 = it\<lparr>ipos := go_int (index - eIndex e0)\<rparr>;
       Some (if ipos it1 < 1 then it1\<lparr>ipos := 1\<rparr> else it1)
     }"

definition Iter_Count :: "log \<Rightarrow> int" where
  "Iter_Count l = (let n = int (length (entries l)) - 1 in if n < 0 then 0 else n)"

text \<open>The loop a client runs: the entries from the iterator's position while it is valid.\<close>

function iterate :: "log \<Rightarrow> iterator \<Rightarrow> entry list run" where
  "iterate l it =
     (if Iter_Valid l it then
        do { e \<leftarrow> Iter_Entry l it; es \<leftarrow> iterate l (Iter_Next it); Some (e # es) }
      else Some [])"
  by pat_completeness auto
termination
  by (relation "measure (\<lambda>(l, it). nat (int (length (entries l)) - ipos it))")
    (auto simp: Iter_Valid_def Iter_Next_def)

declare iterate.simps [simp del]

lemma iterate_eq: "0 \<le> ipos it \<Longrightarrow> iterate l it = Some (drop (nat (ipos it)) (entries l))"
proof (induction l it rule: iterate.induct)
  case (1 l it)
  show ?case
  proof (cases "Iter_Valid l it")
    case True
    then have "nat (ipos it) < length (entries l)" using 1(2) by (auto simp: Iter_Valid_def)
    then have "drop (nat (ipos it)) (entries l) = entries l ! nat (ipos it) # drop (nat (ipos it + 1)) (entries l)"
      using 1(2) by (simp add: Cons_nth_drop_Suc nat_add_distrib)
    moreover have e: "Iter_Entry l it = Some (entries l ! nat (ipos it))" using True 1(2) by (simp add: Iter_Entry_def)
    moreover have "iterate l (Iter_Next it) = Some (drop (nat (ipos it + 1)) (entries l))"
      using 1(1) [OF True e] 1(2) by (simp add: Iter_Next_def)
    ultimately show ?thesis using True by (simp add: iterate.simps [of l it])
  next
    case False
    then show ?thesis by (simp add: iterate.simps [of l it] Iter_Valid_def)
  qed
qed

text \<open>Iteration. A loop over an iterator terminates and visits exactly the real entries of the log, in
  order, and as many as \<open>Count\<close> says. After \<open>Seek\<close> to an index the log holds, the loop visits exactly
  the entries \<open>EntrySince\<close> returns.\<close>

theorem iterate_visits:
  assumes "offset_log base (entries l)" and "base < i" and "unat i < 2 ^ 63"
  shows "iterate l Iter = Some (tl (entries l)) \<and> Iter_Count l = int (length (tl (entries l))) \<and>
    (\<exists>it'. Iter_Seek l it i = Some it' \<and> iterate l it' = EntrySince l i)"
proof -
  have ne: "entries l \<noteq> []" using assms(1) by (simp add: offset_log_def)
  have sub: "unat (i - base) = unat i - unat base" using assms(2) by (simp add: unat_sub)
  have pos: "0 < unat i - unat base" using assms(2) by (simp add: word_less_nat_alt)
  from sub have go: "go_int (i - base) = int (unat i - unat base)" using assms(3) by (subst go_int_small) auto
  define k where "k = unat i - unat base"
  have "Iter_Seek l it i = Some (it\<lparr>ipos := int k\<rparr>)"
    using ne go pos offset_base [OF assms(1)] by (simp add: Iter_Seek_def Let_def flip: k_def)
  moreover have "iterate l (it\<lparr>ipos := int k\<rparr>) = EntrySince l i"
    using EntrySince_eq [OF assms] by (simp add: iterate_eq flip: k_def)
  moreover have "iterate l Iter = Some (tl (entries l))" "Iter_Count l = int (length (tl (entries l)))"
    using ne by (simp_all add: iterate_eq Iter_def Iter_Count_def drop_Suc Let_def of_nat_diff Suc_leI)
  ultimately show ?thesis by blast
qed

subsection \<open>Batches\<close>

record batch =
  bentries :: "entry list"

definition NewBatch :: batch where
  "NewBatch = \<lparr>bentries = []\<rparr>"

definition Batch_Add :: "batch \<Rightarrow> entry \<Rightarrow> batch" where
  "Batch_Add b e = b\<lparr>bentries := bentries b @ [e]\<rparr>"

definition Batch_Len :: "batch \<Rightarrow> nat" where
  "Batch_Len b = length (bentries b)"

definition Batch_Entries :: "batch \<Rightarrow> entry list" where
  "Batch_Entries b = bentries b"

definition Batch_Apply :: "batch \<Rightarrow> log \<Rightarrow> (log_error err \<times> log) run" where
  "Batch_Apply b l = (if length (bentries b) = 0 then Some (None, l) else Append l (bentries b))"

definition Batch_Reset :: "batch \<Rightarrow> batch" where
  "Batch_Reset b = b\<lparr>bentries := []\<rparr>"

definition Batch_TotalBytes :: "batch \<Rightarrow> nat" where
  "Batch_TotalBytes b = foldl (\<lambda>total e. total + length (eCommand e)) 0 (bentries b)"

text \<open>Appending the entries one at a time, stopping at the first error.\<close>

fun append_each :: "log \<Rightarrow> entry list \<Rightarrow> (log_error err \<times> log) run" where
  "append_each l [] = Some (None, l)"
| "append_each l (e # es) =
     (case Append l [e] of
        Some (None, l') \<Rightarrow> append_each l' es
      | r \<Rightarrow> r)"

lemma Append_Cons:
  assumes ok: "log_ok l" and ns: "numbered p (n # ns)" and p: "0 < p" "p \<le> length (entries l)"
  shows "\<exists>l1. Append l [n] = Some (None, l1) \<and> log_ok l1 \<and> Suc p \<le> length (entries l1) \<and>
    Append l1 ns = Append l (n # ns)"
proof -
  define l1 where "l1 = \<lparr>entries = merged (entries l) p [n], commitIndex = merged_commit l p [n]\<rparr>"
  have n1: "numbered p [n]" and n2: "numbered (Suc p) ns" using ns by (auto simp: numbered_Cons numbered_def)
  have a1: "Append l [n] = Some (None, l1)" and ok1: "log_ok l1"
    using Append_eq [OF ok n1 p] log_ok_merged [OF ok n1 p] by (simp_all add: l1_def)
  have len: "Suc p \<le> length (entries l1)" using p(2) by (auto simp: l1_def merged_def)
  have same: "merged (entries l1) (Suc p) ns = merged (entries l) p (n # ns) \<and>
      merged_commit l1 (Suc p) ns = merged_commit l p (n # ns)"
  proof (cases "p < length (entries l) \<and> eTerm (entries l ! p) = eTerm n")
    case True
    then have "l1 = l" by (cases l) (simp add: l1_def merged_def merged_commit_def)
    with True show ?thesis by (simp add: merged_step merged_commit_def)
  next
    case False
    then have e1: "entries l1 = take p (entries l) @ [n]" by (simp add: l1_def merged_diff)
    then have l1p: "length (entries l1) = Suc p" using p(2) by simp
    have "merged (entries l1) (Suc p) ns = entries l1 @ ns" "merged_commit l1 (Suc p) ns = commitIndex l1"
      using l1p by (cases ns; simp add: merged_def merged_commit_def)+
    with False e1 show ?thesis by (auto simp: merged_diff l1_def merged_commit_def)
  qed
  then have "Append l1 ns = Append l (n # ns)"
    using Append_eq [OF ok1 n2 _ len] Append_eq [OF ok ns p] by simp
  with a1 ok1 len show ?thesis by blast
qed

lemma append_each_eq:
  "log_ok l \<Longrightarrow> numbered p ns \<Longrightarrow> 0 < p \<Longrightarrow> p \<le> length (entries l) \<Longrightarrow> append_each l ns = Append l ns"
proof (induction ns arbitrary: l p)
  case (Cons n ns)
  from Append_Cons [OF Cons.prems] obtain l1 where l1: "Append l [n] = Some (None, l1)" "log_ok l1"
      "Suc p \<le> length (entries l1)" "Append l1 ns = Append l (n # ns)" by blast
  moreover have "numbered (Suc p) ns" using Cons.prems(2) by (simp add: numbered_Cons)
  ultimately show ?case using Cons.IH [of l1 "Suc p"] by simp
qed (simp add: Append_def)

text \<open>Batching changes nothing but the number of calls: applying a batch of consecutively numbered
  entries leaves the log exactly as appending them one at a time does, conflicts included.\<close>

theorem Batch_Apply_each:
  assumes "log_ok l" and "numbered p (bentries b)" and "0 < p" and "p \<le> length (entries l)"
  shows "Batch_Apply b l = append_each l (bentries b)"
  using append_each_eq [OF assms] by (simp add: Batch_Apply_def Append_def)

subsection \<open>Statistics\<close>

record stats =
  stEntryCount :: int
  stCommitIndex :: u64
  stLastIndex :: u64
  stLastTerm :: u64
  stTotalBytes :: nat

definition go_tail :: "'a list \<Rightarrow> 'a list run" where
  "go_tail xs = (if xs = [] then None else Some (tl xs))"

definition ComputeStats :: "log \<Rightarrow> stats run" where
  "ComputeStats l =
     do {
       es \<leftarrow> go_tail (entries l);
       let (lastIdx, lastTerm) = Last l;
       Some \<lparr>stEntryCount = int (length (entries l)) - 1, stCommitIndex = commitIndex l, stLastIndex = lastIdx,
         stLastTerm = lastTerm, stTotalBytes = foldl (\<lambda>total e. total + length (eCommand e)) 0 es\<rparr>
     }"

definition TermDistribution :: "log \<Rightarrow> (u64 \<rightharpoonup> int) run" where
  "TermDistribution l =
     do {
       es \<leftarrow> go_tail (entries l);
       Some (foldl (\<lambda>dist e. dist(eTerm e \<mapsto> mget dist 0 (eTerm e) + 1)) Map.empty es)
     }"

text \<open>The two conversions and the division round, in this order.\<close>

definition AverageEntrySize :: "log \<Rightarrow> rat run" where
  "AverageEntrySize l =
     (let n = int (length (entries l)) - 1 in
      if n = 0 then Some 0
      else do {
        es \<leftarrow> go_tail (entries l);
        let total = foldl (\<lambda>total e. total + length (eCommand e)) 0 es;
        Some (binary64 (binary64 (of_nat total) / binary64 (of_int n)))
      })"

lemma foldl_count:
  "mget (foldl (\<lambda>dist e. dist(eTerm e \<mapsto> mget dist 0 (eTerm e) + 1)) d es) 0 t =
     mget d 0 t + int (length (filter (\<lambda>e. eTerm e = t) es))"
  by (induction es arbitrary: d) (auto simp: mget_def)

lemma foldl_bytes: "foldl (\<lambda>total e. total + length (eCommand e)) k es = k + sum_list (map (length \<circ> eCommand) es)"
  by (induction es arbitrary: k) auto

text \<open>Statistics. On a well-formed log the statistics are defined and right: the number of real
  entries, the commit index, the last entry's index and term, the sum of all command lengths, and for
  each term the number of real entries of that term.\<close>

theorem ComputeStats_spec:
  assumes "log_ok l"
  shows "\<exists>st dist. ComputeStats l = Some st \<and> TermDistribution l = Some dist \<and>
    stEntryCount st = int (length (tl (entries l))) \<and> stCommitIndex st = commitIndex l \<and>
    stLastIndex st = eIndex (last (entries l)) \<and> stLastTerm st = eTerm (last (entries l)) \<and>
    stTotalBytes st = sum_list (map (length \<circ> eCommand) (tl (entries l))) \<and>
    (\<forall>t. mget dist 0 t = int (length (filter (\<lambda>e. eTerm e = t) (tl (entries l)))))"
proof -
  have ix: "indexed (entries l)" using assms by (simp add: log_ok_def)
  have ne: "entries l \<noteq> []" using indexedD(1) [OF ix] .
  then have "eIndex (last (entries l)) = of_nat (length (entries l) - 1)"
    using indexedD(5) [OF ix] by (simp add: last_conv_nth)
  with ne show ?thesis
    by (simp add: ComputeStats_def TermDistribution_def go_tail_def Last_eq [OF ix] foldl_bytes foldl_count
        mget_def [of Map.empty] of_nat_diff Suc_leI)
qed

lemma sum_list_between:
  "\<forall>x \<in> set xs. lo \<le> f x \<and> f x \<le> hi \<Longrightarrow> length xs * lo \<le> sum_list (map f xs) \<and> sum_list (map f xs) \<le> length xs * (hi :: nat)"
  by (induction xs) auto

text \<open>Averages. With fewer than \<open>2 ^ 53\<close> entries and bytes, the average lies between any bounds of the sizes of
  the commands, rounding included, and is exact when it is a whole number; the average of no entries
  is 0.\<close>

theorem AverageEntrySize_between:
  assumes "log_ok l" and "length (entries l) < 2 ^ 53" and "sum_list (map (length \<circ> eCommand) (tl (entries l))) < 2 ^ 53"
    and "\<forall>e \<in> set (tl (entries l)). lo \<le> length (eCommand e) \<and> length (eCommand e) \<le> hi" and "hi < 2 ^ 53" and "lo \<le> hi"
  shows "\<exists>a. AverageEntrySize l = Some a \<and>
    (if tl (entries l) = [] then a = 0
     else of_nat lo \<le> a \<and> a \<le> of_nat hi \<and>
       (\<forall>k. sum_list (map (length \<circ> eCommand) (tl (entries l))) = length (tl (entries l)) * k \<longrightarrow> a = of_nat k))"
proof -
  obtain d es where l: "entries l = d # es" using assms(1) indexedD(1) [of "entries l"] by (cases "entries l") (auto simp: log_ok_def)
  let ?n = "length es" and ?s = "sum_list (map (length \<circ> eCommand) es)"
  let ?q = "of_nat ?s / of_nat ?n :: rat"
  show ?thesis
  proof (cases "es = []")
    case True
    with l show ?thesis by (simp add: AverageEntrySize_def)
  next
    case False
    have "binary64 (of_nat ?s) = of_nat ?s" "binary64 (of_nat ?n) = of_nat ?n"
      using assms(2,3) l by (simp_all add: binary64_of_nat)
    then have a: "AverageEntrySize l = Some (binary64 ?q)"
      using False l by (simp add: AverageEntrySize_def go_tail_def foldl_bytes)
    have n: "(0 :: rat) < of_nat ?n" using False by simp
    have "of_nat (?n * lo) \<le> (of_nat ?s :: rat)" "(of_nat ?s :: rat) \<le> of_nat (?n * hi)"
      using sum_list_between [of es lo "length \<circ> eCommand" hi] assms(4) l by (simp_all only: of_nat_le_iff) simp_all
    then have q: "of_nat lo \<le> ?q" "?q \<le> of_nat hi" using n by (simp_all add: field_simps)
    have "binary64 (of_nat lo) \<le> binary64 ?q" "binary64 ?q \<le> binary64 (of_nat hi)"
      using q by (auto intro!: binary64_mono)
    moreover have "binary64 (of_nat lo) = of_nat lo" "binary64 (of_nat hi) = of_nat hi"
      using assms(5,6) by (simp_all add: binary64_of_nat)
    moreover have "binary64 ?q = of_nat k" if "?s = ?n * k" for k
    proof -
      have "k \<le> ?s" using that False by (cases ?n) auto
      moreover have "?q = of_nat k" using that n by simp
      ultimately show ?thesis using assms(3) l by (simp add: binary64_of_nat)
    qed
    ultimately show ?thesis using a False l by simp
  qed
qed

subsection \<open>Witnesses\<close>

theorem Compact_keeps_witness:
  "\<exists>l'. Compact log2 1 = Some (None, l') \<and> EntrySince l' 2 = EntrySince log2 2 \<and> CompactedIndex l' = 1"
  using Compact_keeps [OF offset_log_0 [OF log2_ok], of 1 2] by (auto simp: log2_def)

theorem Compact_shifts_At_witness:
  "\<exists>l'. Compact log2 1 = Some (None, l') \<and> At l' 1 = At log2 2 \<and> At l' 1 \<noteq> At log2 1"
proof -
  have "commitIndex log2 = 1" "length (entries log2) = 3" by (simp_all add: log2_def)
  with Compact_shifts_At [OF log2_ok, of 1 1] show ?thesis by simp
qed

theorem iterate_visits_witness:
  "iterate log2 Iter = Some (tl (entries log2)) \<and> (\<exists>it'. Iter_Seek log2 Iter 2 = Some it' \<and> iterate log2 it' = EntrySince log2 2)"
  using iterate_visits [OF offset_log_0 [OF log2_ok], of 2 Iter] by simp

theorem Batch_Apply_each_witness: "Batch_Apply \<lparr>bentries = ns2\<rparr> log2 = append_each log2 ns2"
  using Batch_Apply_each [OF log2_ok, of 1 "\<lparr>bentries = ns2\<rparr>"] ns2_numbered log2_len by simp

theorem ComputeStats_spec_witness:
  "\<exists>st. ComputeStats log2 = Some st \<and> stEntryCount st = 2 \<and> stTotalBytes st = 2 \<and> stLastIndex st = 2"
  using ComputeStats_spec [OF log2_ok] by (auto simp: log2_def dummy_def)

theorem AverageEntrySize_between_witness: "\<exists>a. AverageEntrySize log2 = Some a \<and> 0 \<le> a \<and> a \<le> 2"
proof -
  have "entries log2 \<noteq> []" "tl (entries log2) \<noteq> []" "length (entries log2) < 2 ^ 53"
    "sum_list (map (length \<circ> eCommand) (tl (entries log2))) < 2 ^ 53"
    "\<forall>e \<in> set (tl (entries log2)). 0 \<le> length (eCommand e) \<and> length (eCommand e) \<le> 2"
    by (simp_all add: log2_def dummy_def)
  with AverageEntrySize_between [OF log2_ok, of 0 2] show ?thesis by auto
qed

end
