(* ===== verification/Sinks.thy ===== *)
theory Sinks
  imports Bytes
begin

text \<open>
  Writing. The packages codec, persist and snapshot write through an \<open>io.Writer\<close> and return at the
  first error, leaving what was written so far. A writing action takes the state of the writer to an
  error or success and a new state. The interface \<open>byte_sink\<close> is the contract of \<open>io.Writer\<close>: a
  write that succeeds appends all of its bytes, a write that fails, with a fault of the writer, appends
  only a part of them. What
  a whole sequence of writes leaves behind is derived once, in the locale; the files of a disk
  satisfy it.
\<close>

subsection \<open>Actions\<close>

type_synonym ('w, 'x) io_act = "'w \<Rightarrow> 'x err \<times> 'w"

text \<open>Go's \<open>if err := a; err != nil { return err }\<close>, followed by \<open>b\<close>.\<close>

definition then_do :: "('w, 'x) io_act \<Rightarrow> ('w, 'x) io_act \<Rightarrow> ('w, 'x) io_act" where
  "then_do a b w = (case a w of (Some e, w') \<Rightarrow> (Some e, w') | (None, w') \<Rightarrow> b w')"

definition done_ok :: "('w, 'x) io_act" where
  "done_ok w = (None, w)"

text \<open>A \<open>for\<close> loop over \<open>xs\<close> that returns at the first error.\<close>

fun for_each :: "('a \<Rightarrow> ('w, 'x) io_act) \<Rightarrow> 'a list \<Rightarrow> ('w, 'x) io_act" where
  "for_each f [] = done_ok"
| "for_each f (x # xs) = then_do (f x) (for_each f xs)"

subsection \<open>The interface of a writer\<close>

locale byte_sink =
  fixes put :: "byte list \<Rightarrow> ('w, 'x) io_act"
    and content :: "'w \<Rightarrow> byte list"
    and kept :: "'w \<Rightarrow> 'w \<Rightarrow> bool"
    and fault :: "'x \<Rightarrow> bool"
  assumes kept_refl: "kept w w"
    and kept_trans: "kept w w1 \<Longrightarrow> kept w1 w2 \<Longrightarrow> kept w w2"
    and put_kept: "put bs w = (r, w') \<Longrightarrow> kept w w'"
    and put_ok: "put bs w = (None, w') \<Longrightarrow> content w' = content w @ bs"
    and put_fail: "put bs w = (Some e, w') \<Longrightarrow> fault e \<and> (\<exists>k < length bs. content w' = content w @ take k bs)"
begin

text \<open>An action that writes \<open>bs\<close>: all of it, or, with an error of the writer, a proper prefix.\<close>

definition writes :: "('w, 'x) io_act \<Rightarrow> byte list \<Rightarrow> bool" where
  "writes a bs \<longleftrightarrow> (\<forall>w. kept w (snd (a w)) \<and>
     (case a w of
        (None, w') \<Rightarrow> content w' = content w @ bs
      | (Some e, w') \<Rightarrow> fault e \<and> (\<exists>k < length bs. content w' = content w @ take k bs)))"

lemma writesD:
  assumes "writes a bs"
  shows "a w = (None, w') \<Longrightarrow> content w' = content w @ bs"
    and "a w = (Some e, w') \<Longrightarrow> fault e \<and> (\<exists>k < length bs. content w' = content w @ take k bs)"
    and "a w = (r, w') \<Longrightarrow> kept w w'"
  using assms unfolding writes_def by (fastforce dest: spec [of _ w])+

lemma writes_put: "writes (put bs) bs"
  unfolding writes_def by (auto intro: put_ok put_kept dest: put_fail split: prod.splits option.splits)

lemma writes_done: "writes done_ok []"
  by (simp add: writes_def done_ok_def kept_refl)

lemma writes_then:
  assumes "writes a xs" and "writes b ys"
  shows "writes (then_do a b) (xs @ ys)"
  unfolding writes_def
proof
  fix w
  obtain r w1 where a: "a w = (r, w1)" by fastforce
  note k1 = writesD(3) [OF assms(1) a]
  show "kept w (snd (then_do a b w)) \<and> (case then_do a b w of
      (None, w') \<Rightarrow> content w' = content w @ xs @ ys
    | (Some e, w') \<Rightarrow> fault e \<and> (\<exists>k < length (xs @ ys). content w' = content w @ take k (xs @ ys)))"
  proof (cases r)
    case (Some e)
    with writesD(2) [OF assms(1)] a obtain k where "fault e" "k < length xs" "content w1 = content w @ take k xs" by blast
    with a Some k1 show ?thesis by (auto simp: then_do_def intro!: exI [of _ k])
  next
    case None
    then have w1: "content w1 = content w @ xs" using writesD(1) [OF assms(1)] a by blast
    obtain r2 w2 where b: "b w1 = (r2, w2)" by fastforce
    note k2 = kept_trans [OF k1 writesD(3) [OF assms(2) b]]
    show ?thesis
    proof (cases r2)
      case None
      with writesD(1) [OF assms(2)] b a w1 k2 \<open>r = None\<close> show ?thesis by (simp add: then_do_def)
    next
      case (Some e)
      with writesD(2) [OF assms(2)] b obtain k where "fault e" "k < length ys" "content w2 = content w1 @ take k ys" by blast
      with a b Some w1 k2 \<open>r = None\<close> show ?thesis
        by (auto simp: then_do_def intro!: exI [of _ "length xs + k"])
    qed
  qed
qed

lemma writes_each: "(\<And>x. x \<in> set xs \<Longrightarrow> writes (f x) (enc x)) \<Longrightarrow> writes (for_each f xs) (concat (map enc xs))"
proof (induction xs)
  case Nil
  then show ?case by (simp add: writes_done)
next
  case (Cons x xs)
  then show ?case using writes_then [of "f x" "enc x" "for_each f xs"] by simp
qed

end

subsection \<open>Files\<close>

text \<open>
  A disk: its files by path, the bytes it still has room for, and whether \<open>Sync\<close> succeeds.
  \<open>os.Create\<close> makes the file empty; a \<open>Write\<close> that does not fit writes what fits and fails.
\<close>

record disk =
  files :: "string \<rightharpoonup> byte list"
  room :: nat
  writable :: bool
  openable :: bool
  syncs :: bool

datatype os_error = NotExist | PermissionDenied | NoSpace | SyncFailed

definition os_Create :: "string \<Rightarrow> (disk, os_error) io_act" where
  "os_Create path d =
     (if writable d then (None, d\<lparr>files := (files d)(path \<mapsto> [])\<rparr>) else (Some PermissionDenied, d))"

definition file_Write :: "string \<Rightarrow> byte list \<Rightarrow> (disk, os_error) io_act" where
  "file_Write path bs d =
     (let k = min (length bs) (room d);
          d' = d\<lparr>files := (files d)(path \<mapsto> mget (files d) [] path @ take k bs), room := room d - k\<rparr>
      in if k < length bs then (Some NoSpace, d') else (None, d'))"

definition file_Sync :: "(disk, os_error) io_act" where
  "file_Sync d = (if syncs d then (None, d) else (Some SyncFailed, d))"

definition file_content :: "string \<Rightarrow> disk \<Rightarrow> byte list" where
  "file_content path d = mget (files d) [] path"

text \<open>Writing to a file leaves the other files alone, and does not remove it.\<close>

definition file_kept :: "string \<Rightarrow> disk \<Rightarrow> disk \<Rightarrow> bool" where
  "file_kept path d d' \<longleftrightarrow> openable d' = openable d \<and> (\<forall>p. p \<noteq> path \<longrightarrow> files d' p = files d p) \<and>
     (files d path \<noteq> None \<longrightarrow> files d' path \<noteq> None)"

interpretation fs: byte_sink "file_Write path" "file_content path" "file_kept path" "\<lambda>e. e = NoSpace" for path
  by unfold_locales (auto simp: file_Write_def file_content_def file_kept_def mget_def Let_def split: if_splits)

text \<open>\<open>os.Open\<close>, with the bytes the file holds.\<close>

definition os_Open :: "string \<Rightarrow> disk \<Rightarrow> os_error + byte list" where
  "os_Open path d =
     (case files d path of
        None \<Rightarrow> Inl NotExist
      | Some bs \<Rightarrow> if openable d then Inr bs else Inl PermissionDenied)"

text \<open>
  Creating a file, writing to it and syncing it, as the packages persist and snapshot do. A failed
  creation leaves the disk alone, a failed write leaves a proper prefix, and after a failed sync
  everything has been written.
\<close>

definition save_file :: "string \<Rightarrow> (disk, os_error) io_act \<Rightarrow> (disk, os_error) io_act" where
  "save_file path body = then_do (os_Create path) (then_do body file_Sync)"

lemma save_file_cases:
  assumes "fs.writes path body bs" and "save_file path body d = (r, d')"
  shows "r = Some PermissionDenied \<and> d' = d \<or>
    r = Some NoSpace \<and> (\<exists>k < length bs. os_Open path d' = (if openable d then Inr (take k bs) else Inl PermissionDenied)) \<or>
    (r = None \<or> r = Some SyncFailed) \<and> os_Open path d' = (if openable d then Inr bs else Inl PermissionDenied)"
proof (cases "writable d")
  case False
  with assms(2) show ?thesis by (auto simp: save_file_def then_do_def os_Create_def)
next
  case True
  let ?d = "d\<lparr>files := (files d)(path \<mapsto> [])\<rparr>"
  have e: "file_content path ?d = []" by (simp add: file_content_def mget_def)
  obtain r1 d1 where b: "body ?d = (r1, d1)" by fastforce
  have "file_kept path ?d d1" by (rule fs.writesD(3) [OF assms(1) b])
  then have op: "os_Open path d1 = (if openable d then Inr (file_content path d1) else Inl PermissionDenied)"
    by (auto simp: file_kept_def os_Open_def file_content_def mget_def split: option.splits)
  show ?thesis
  proof (cases r1)
    case (Some x)
    with fs.writesD(2) [OF assms(1)] b e obtain k where "x = NoSpace" "k < length bs" "file_content path d1 = take k bs" by fastforce
    with assms(2) True b op Some show ?thesis
      by (auto simp: save_file_def then_do_def os_Create_def)
  next
    case None
    with fs.writesD(1) [OF assms(1)] b e have "file_content path d1 = bs" by simp
    with assms(2) True b op None show ?thesis
      by (auto simp: save_file_def then_do_def os_Create_def file_Sync_def split: if_splits)
  qed
qed

end
