(* ===== verification/Codec.thy ===== *)
theory Codec
  imports Sinks Raft_Log
begin

text \<open>
  internal/codec/codec.go: the binary form of log entries and of counted sequences of them. Writers
  are actions over any \<open>io.Writer\<close> (the argument \<open>put\<close>); readers return the rest of the input. The
  theorems show that the two agree exactly within the limits the readers impose, and that the
  writers do not impose them.
\<close>

datatype codec_error = CodecIO io_error | ErrFormat

definition WriteEntry :: "(byte list \<Rightarrow> ('w, 'x) io_act) \<Rightarrow> entry \<Rightarrow> ('w, 'x) io_act" where
  "WriteEntry put e =
     then_do (put (writeU64 (eTerm e)))
       (then_do (put (writeU64 (eIndex e)))
         (then_do (put (writeU32 (of_nat (length (eCommand e)))))
           (if length (eCommand e) > 0 then put (eCommand e) else done_ok)))"

definition ReadEntry :: "byte list \<Rightarrow> codec_error + (entry \<times> byte list)" where
  "ReadEntry r =
     try_read (readU64 r) CodecIO (\<lambda>tm r1.
     try_read (readU64 r1) CodecIO (\<lambda>index r2.
     try_read (readU32 r2) CodecIO (\<lambda>cmdLen r3.
       if cmdLen > push_bit 24 1 then Inl ErrFormat
       else if cmdLen > 0 then
         try_read (read_full (unat cmdLen) r3) CodecIO (\<lambda>cmd r4.
           Inr (\<lparr>eTerm = tm, eIndex = index, eCommand = cmd\<rparr>, r4))
       else Inr (\<lparr>eTerm = tm, eIndex = index, eCommand = []\<rparr>, r3))))"

definition WriteEntries :: "(byte list \<Rightarrow> ('w, 'x) io_act) \<Rightarrow> entry list \<Rightarrow> ('w, 'x) io_act" where
  "WriteEntries put es =
     then_do (put (writeU32 (of_nat (length es)))) (for_each (WriteEntry put) es)"

definition ReadEntries :: "byte list \<Rightarrow> codec_error + (entry list \<times> byte list)" where
  "ReadEntries r =
     try_read (readU32 r) CodecIO (\<lambda>n r1.
       if n > push_bit 20 1 then Inl ErrFormat else read_n ReadEntry (unat n) r1)"

subsection \<open>The format\<close>

definition entry_bytes :: "entry \<Rightarrow> byte list" where
  "entry_bytes e = writeU64 (eTerm e) @ writeU64 (eIndex e) @ writeU32 (of_nat (length (eCommand e))) @ eCommand e"

definition entries_bytes :: "entry list \<Rightarrow> byte list" where
  "entries_bytes es = writeU32 (of_nat (length es)) @ concat (map entry_bytes es)"

context byte_sink
begin

lemma writes_WriteEntry: "writes (WriteEntry put e) (entry_bytes e)"
proof -
  have "writes (if length (eCommand e) > 0 then put (eCommand e) else done_ok) (eCommand e)"
    using writes_put writes_done by (cases "eCommand e") auto
  then show ?thesis
    unfolding WriteEntry_def entry_bytes_def by (intro writes_then writes_put)
qed

lemma writes_WriteEntries: "writes (WriteEntries put es) (entries_bytes es)"
  unfolding WriteEntries_def entries_bytes_def
  by (intro writes_then writes_put writes_each writes_WriteEntry)

end

lemma limit24: "push_bit 24 1 = (2 ^ 24 :: 32 word)" and limit20: "push_bit 20 1 = (2 ^ 20 :: 32 word)"
  by (simp_all add: push_bit_eq_mult)

lemma u32_limit:
  assumes "k \<le> 2 ^ 24"
  shows "unat (of_nat k :: u32) = k" and "\<not> (of_nat k :: u32) > 2 ^ 24"
proof -
  have "k < 2 ^ 32" using assms by (rule le_less_trans) simp
  then show u: "unat (of_nat k :: u32) = k" by (simp add: unat_of_nat)
  then show "\<not> (of_nat k :: u32) > 2 ^ 24" using assms by (simp add: word_less_nat_alt)
qed

interpretation entry_be: byte_codec entry_bytes ReadEntry "\<lambda>e. length (eCommand e) \<le> 2 ^ 24"
proof unfold_locales
  fix e :: entry and rest
  assume "length (eCommand e) \<le> 2 ^ 24"
  note u = u32_limit [OF this]
  have "(of_nat (length (eCommand e)) :: u32) > 0 \<longleftrightarrow> eCommand e \<noteq> []"
    using u(1) by (simp add: word_less_nat_alt)
  then show "ReadEntry (entry_bytes e @ rest) = Inr (e, rest)"
    using u by (cases e) (simp add: ReadEntry_def entry_bytes_def limit24 u64_be.dec_enc u32_be.dec_enc)
next
  fix bs rest and e :: entry
  assume "ReadEntry bs = Inr (e, rest)"
  then obtain tm ix len r1 r2 r3 where r: "readU64 bs = Inr (tm, r1)" "readU64 r1 = Inr (ix, r2)" "readU32 r2 = Inr (len, r3)"
      and body: "(if len > push_bit 24 1 then Inl ErrFormat
       else if len > 0 then try_read (read_full (unat len) r3) CodecIO (\<lambda>cmd r4.
         Inr (\<lparr>eTerm = tm, eIndex = ix, eCommand = cmd\<rparr>, r4))
       else Inr (\<lparr>eTerm = tm, eIndex = ix, eCommand = []\<rparr>, r3)) = Inr (e, rest)"
    unfolding ReadEntry_def try_read_Inr by blast
  from body have len: "\<not> len > 2 ^ 24"
      and e: "len > 0 \<and> (\<exists>cmd. read_full (unat len) r3 = Inr (cmd, rest) \<and> e = \<lparr>eTerm = tm, eIndex = ix, eCommand = cmd\<rparr>) \<or>
        len = 0 \<and> e = \<lparr>eTerm = tm, eIndex = ix, eCommand = []\<rparr> \<and> rest = r3"
    by (auto simp: limit24 try_read_Inr word_gt_0 split: if_splits)
  from r have bs: "bs = writeU64 tm @ writeU64 ix @ writeU32 len @ r3"
    using u64_be.enc_dec u32_be.enc_dec by simp
  have "unat len \<le> 2 ^ 24" using len by (simp add: word_less_nat_alt)
  with e show "length (eCommand e) \<le> 2 ^ 24 \<and> bs = entry_bytes e @ rest"
    by (auto simp: bs entry_bytes_def dest!: read_full_InrD)
qed

definition readable :: "entry list \<Rightarrow> bool" where
  "readable es \<longleftrightarrow> length es \<le> 2 ^ 20 \<and> (\<forall>e \<in> set es. length (eCommand e) \<le> 2 ^ 24)"

interpretation entries_be: byte_codec entries_bytes ReadEntries readable
proof unfold_locales
  fix es :: "entry list" and rest
  assume es: "readable es"
  then have n: "unat (of_nat (length es) :: u32) = length es"
    using u32_limit(1) [of "length es"] by (simp add: readable_def)
  with es have "\<not> (of_nat (length es) :: u32) > 2 ^ 20" by (simp add: word_less_nat_alt readable_def)
  with n entry_be.read_n_enc [of es rest] es show "ReadEntries (entries_bytes es @ rest) = Inr (es, rest)"
    by (simp add: ReadEntries_def entries_bytes_def limit20 u32_be.dec_enc readable_def)
next
  fix bs rest and es :: "entry list"
  assume "ReadEntries bs = Inr (es, rest)"
  then obtain n r1 where n: "readU32 bs = Inr (n, r1)" "\<not> n > 2 ^ 20" "read_n ReadEntry (unat n) r1 = Inr (es, rest)"
    by (auto simp: ReadEntries_def limit20 try_read_Inr split: if_splits)
  moreover have "unat n \<le> 2 ^ 20" using n(2) by (simp add: word_less_nat_alt)
  ultimately show "readable es \<and> bs = entries_bytes es @ rest"
    using entry_be.enc_read_n [OF n(3)] u32_be.enc_dec [OF n(1)] by (auto simp: readable_def entries_bytes_def)
qed

subsection \<open>Round trips\<close>

text \<open>C30: What \<open>WriteEntries\<close> writes, \<open>ReadEntries\<close> reads. On any writer that keeps the contract of
  \<open>io.Writer\<close>, here a file of a disk, a \<open>WriteEntries\<close> that reports no error has appended bytes from
  which \<open>ReadEntries\<close> recovers exactly the entries, and stops where they end, provided the entries
  are within the limits of the reader.\<close>

theorem WriteEntries_ReadEntries:
  assumes "readable es" and "WriteEntries (file_Write path) es d = (None, d')"
  shows "\<exists>bs. file_content path d' = file_content path d @ bs \<and> ReadEntries (bs @ rest) = Inr (es, rest)"
  using fs.writesD(1) [OF fs.writes_WriteEntries assms(2)] entries_be.dec_enc [OF assms(1)] by blast

text \<open>\<open>ReadEntries\<close> accepts nothing but the encoding. It returns entries exactly when the input starts
  with their encoding and they are within the limits, so two different inputs never decode to the
  same entries and the same rest.\<close>

theorem ReadEntries_iff:
  "ReadEntries bs = Inr (es, rest) \<longleftrightarrow>
     length es \<le> 2 ^ 20 \<and> (\<forall>e \<in> set es. length (eCommand e) \<le> 2 ^ 24) \<and>
     bs = writeU32 (of_nat (length es)) @
       concat (map (\<lambda>e. writeU64 (eTerm e) @ writeU64 (eIndex e) @ writeU32 (of_nat (length (eCommand e))) @ eCommand e) es) @ rest"
  using entries_be.dec_enc [of es rest] entries_be.enc_dec [of bs es rest]
  by (auto simp: readable_def entries_bytes_def entry_bytes_def [abs_def])

text \<open>The writer does not check what the reader refuses. An entry whose command is longer than 16 MiB,
  and shorter than 4 GiB, is written without an error when the writer has room, and what was written
  cannot be read back.\<close>

theorem WriteEntry_unreadable:
  assumes "2 ^ 24 < length (eCommand e)" and "length (eCommand e) < 2 ^ 32"
    and "length (eCommand e) + 20 \<le> room d"
  shows "\<exists>d' bs. WriteEntry (file_Write path) e d = (None, d') \<and>
    file_content path d' = file_content path d @ bs \<and> ReadEntry bs = Inl ErrFormat"
proof -
  have "eCommand e \<noteq> []" using assms(1) by auto
  then obtain d' where d': "WriteEntry (file_Write path) e d = (None, d')"
    using assms(1,3) by (auto simp: WriteEntry_def then_do_def file_Write_def Let_def)
  have "unat (of_nat (length (eCommand e)) :: u32) = length (eCommand e)"
    using assms(2) by (simp add: unat_of_nat)
  with assms(1) have "(of_nat (length (eCommand e)) :: u32) > 2 ^ 24" by (simp add: word_less_nat_alt)
  then have "ReadEntry (entry_bytes e @ []) = Inl ErrFormat"
    by (simp add: ReadEntry_def entry_bytes_def limit24 u64_be.dec_enc u32_be.dec_enc)
  with d' fs.writesD(1) [OF fs.writes_WriteEntry d'] show ?thesis by auto
qed

subsection \<open>Witnesses\<close>

definition empty_disk :: "nat \<Rightarrow> disk" where
  "empty_disk n = \<lparr>files = Map.empty, room = n, writable = True, openable = True, syncs = True\<rparr>"

definition cmd1 :: "entry list" where
  "cmd1 = [\<lparr>eTerm = 1, eIndex = 1, eCommand = [65]\<rparr>]"

theorem WriteEntries_ReadEntries_witness:
  "\<exists>d' bs. WriteEntries (file_Write ''f'') cmd1 (empty_disk 100) = (None, d') \<and>
     file_content ''f'' d' = file_content ''f'' (empty_disk 100) @ bs \<and> ReadEntries (bs @ [9]) = Inr (cmd1, [9])"
proof -
  have "fst (WriteEntries (file_Write ''f'') cmd1 (empty_disk 100)) = None" by code_simp
  then obtain d' where d': "WriteEntries (file_Write ''f'') cmd1 (empty_disk 100) = (None, d')"
    by (metis prod.collapse)
  have "readable cmd1" by (simp add: readable_def cmd1_def)
  from WriteEntries_ReadEntries [OF this d', of "[9]"] d' show ?thesis by blast
qed

theorem WriteEntry_unreadable_witness:
  "\<exists>d' bs. WriteEntry (file_Write ''f'') \<lparr>eTerm = 1, eIndex = 1, eCommand = replicate 16777217 0\<rparr> (empty_disk 16777300) =
     (None, d') \<and> file_content ''f'' d' = file_content ''f'' (empty_disk 16777300) @ bs \<and> ReadEntry bs = Inl ErrFormat"
  by (rule WriteEntry_unreadable) (simp_all add: empty_disk_def)

end
