(* ===== verification/Persist.thy ===== *)
theory Persist
  imports Codec
begin

text \<open>
  internal/persist/persist.go: the state file of a node. \<open>Save\<close> creates the file in place and writes
  the magic, the term, the vote and the entries; \<open>Load\<close> reads it back. The theorems show that a
  successful \<open>Save\<close> is recovered exactly, and what every way in which \<open>Save\<close> can fail leaves behind.
  After a failed \<open>Sync\<close> the disk of the model holds what was written: this is an assumption about the operating system
  as a later \<open>Load\<close> sees it, not about what a crash of the machine would leave.
\<close>

record saved_state =
  svCurrentTerm :: u64
  svVotedFor :: u64
  svEntries :: "entry list"

datatype persist_corrupt = ReadMagic io_error | BadMagic | AbsurdEntryCount | AbsurdCommandLength

datatype persist_error = ErrCorrupt persist_corrupt | PersistIO io_error | PersistOS os_error

definition persist_magic :: "byte list" where
  "persist_magic = [82, 70, 83, 49]"

definition writeUint64 :: "u64 \<Rightarrow> byte list" where
  "writeUint64 v = be_bytes 8 v"

definition readUint64 :: "byte list \<Rightarrow> io_error + (u64 \<times> byte list)" where
  "readUint64 r = try_read (read_full 8 r) id (\<lambda>buf r1. Inr (be_word buf, r1))"

definition writeEntry :: "(byte list \<Rightarrow> ('w, 'x) io_act) \<Rightarrow> entry \<Rightarrow> ('w, 'x) io_act" where
  "writeEntry put e =
     then_do (put (writeUint64 (eTerm e)))
       (then_do (put (writeUint64 (eIndex e)))
         (then_do (put (writeUint64 (of_nat (length (eCommand e)))))
           (if length (eCommand e) > 0 then put (eCommand e) else done_ok)))"

definition readEntry :: "byte list \<Rightarrow> persist_error + (entry \<times> byte list)" where
  "readEntry r =
     try_read (readUint64 r) PersistIO (\<lambda>tm r1.
     try_read (readUint64 r1) PersistIO (\<lambda>index r2.
     try_read (readUint64 r2) PersistIO (\<lambda>cmdLen r3.
       if cmdLen > push_bit 24 1 then Inl (ErrCorrupt AbsurdCommandLength)
       else if cmdLen > 0 then
         try_read (read_full (unat cmdLen) r3) PersistIO (\<lambda>cmd r4.
           Inr (\<lparr>eTerm = tm, eIndex = index, eCommand = cmd\<rparr>, r4))
       else Inr (\<lparr>eTerm = tm, eIndex = index, eCommand = []\<rparr>, r3))))"

text \<open>What \<open>Save\<close> writes after creating the file, and \<open>Save\<close>.\<close>

definition save_body :: "(byte list \<Rightarrow> ('w, 'x) io_act) \<Rightarrow> saved_state \<Rightarrow> ('w, 'x) io_act" where
  "save_body put s =
     then_do (put persist_magic)
       (then_do (put (writeUint64 (svCurrentTerm s)))
         (then_do (put (writeUint64 (svVotedFor s)))
           (then_do (put (writeUint64 (of_nat (length (svEntries s)))))
             (for_each (writeEntry put) (svEntries s)))))"

definition persist_Save :: "string \<Rightarrow> saved_state \<Rightarrow> (disk, os_error) io_act" where
  "persist_Save path s = save_file path (save_body (file_Write path) s)"

text \<open>What \<open>Load\<close> does with the bytes of the file, and \<open>Load\<close>.\<close>

definition load_body :: "byte list \<Rightarrow> persist_error + (saved_state \<times> byte list)" where
  "load_body f =
     try_read (read_full 4 f) (\<lambda>e. ErrCorrupt (ReadMagic e)) (\<lambda>m f1.
     if m \<noteq> persist_magic then Inl (ErrCorrupt BadMagic)
     else
       try_read (readUint64 f1) PersistIO (\<lambda>tm f2.
       try_read (readUint64 f2) PersistIO (\<lambda>votedFor f3.
       try_read (readUint64 f3) PersistIO (\<lambda>n f4.
         if n > push_bit 24 1 then Inl (ErrCorrupt AbsurdEntryCount)
         else try_read (read_n readEntry (unat n) f4) id (\<lambda>es f5.
           Inr (\<lparr>svCurrentTerm = tm, svVotedFor = votedFor, svEntries = es\<rparr>, f5))))))"

definition persist_Load :: "string \<Rightarrow> disk \<Rightarrow> persist_error + saved_state" where
  "persist_Load path d =
     (case os_Open path d of
        Inl NotExist \<Rightarrow> Inr \<lparr>svCurrentTerm = 0, svVotedFor = 0, svEntries = []\<rparr>
      | Inl e \<Rightarrow> Inl (PersistOS e)
      | Inr f \<Rightarrow> try_read (load_body f) id (\<lambda>s _. Inr s))"

definition persist_Exists :: "string \<Rightarrow> disk \<Rightarrow> bool" where
  "persist_Exists path d \<longleftrightarrow> files d path \<noteq> None"

subsection \<open>The format\<close>

definition pentry_bytes :: "entry \<Rightarrow> byte list" where
  "pentry_bytes e =
     writeUint64 (eTerm e) @ writeUint64 (eIndex e) @ writeUint64 (of_nat (length (eCommand e))) @ eCommand e"

definition state_bytes :: "saved_state \<Rightarrow> byte list" where
  "state_bytes s = persist_magic @ writeUint64 (svCurrentTerm s) @ writeUint64 (svVotedFor s) @
     writeUint64 (of_nat (length (svEntries s))) @ concat (map pentry_bytes (svEntries s))"

definition savable :: "saved_state \<Rightarrow> bool" where
  "savable s \<longleftrightarrow> length (svEntries s) \<le> 2 ^ 24 \<and> (\<forall>e \<in> set (svEntries s). length (eCommand e) \<le> 2 ^ 24)"

lemma writeUint64_eq [simp]: "writeUint64 = writeU64"
  by (simp add: fun_eq_iff writeUint64_def writeU64_def)

lemma readUint64_eq [simp]: "readUint64 = readU64"
  by (auto simp: fun_eq_iff readUint64_def readU64_def try_read_def split: sum.splits)

context byte_sink
begin

lemma writes_writeEntry: "writes (writeEntry put e) (pentry_bytes e)"
proof -
  have "writes (if length (eCommand e) > 0 then put (eCommand e) else done_ok) (eCommand e)"
    using writes_put writes_done by (cases "eCommand e") auto
  then show ?thesis
    unfolding writeEntry_def pentry_bytes_def by (intro writes_then writes_put)
qed

lemma writes_save_body: "writes (save_body put s) (state_bytes s)"
  unfolding save_body_def state_bytes_def
  by (intro writes_then writes_put writes_each writes_writeEntry)

end

lemma limit24_64: "push_bit 24 1 = (2 ^ 24 :: u64)"
  by (simp add: push_bit_eq_mult)

lemma u64_limit:
  assumes "k \<le> 2 ^ 24"
  shows "unat (of_nat k :: u64) = k" and "\<not> (of_nat k :: u64) > 2 ^ 24"
proof -
  have "k < 2 ^ 64" using assms by (rule le_less_trans) simp
  then show u: "unat (of_nat k :: u64) = k" by (simp add: unat_of_nat)
  then show "\<not> (of_nat k :: u64) > 2 ^ 24" using assms by (simp add: word_less_nat_alt)
qed

interpretation pentry: byte_codec pentry_bytes readEntry "\<lambda>e. length (eCommand e) \<le> 2 ^ 24"
proof unfold_locales
  fix e :: entry and rest
  assume "length (eCommand e) \<le> 2 ^ 24"
  note u = u64_limit [OF this]
  have "(of_nat (length (eCommand e)) :: u64) > 0 \<longleftrightarrow> eCommand e \<noteq> []"
    using u(1) by (simp add: word_less_nat_alt)
  then show "readEntry (pentry_bytes e @ rest) = Inr (e, rest)"
    using u by (cases e) (simp add: readEntry_def pentry_bytes_def limit24_64 u64_be.dec_enc)
next
  fix bs rest and e :: entry
  assume "readEntry bs = Inr (e, rest)"
  then obtain tm ix len r1 r2 r3 where r: "readU64 bs = Inr (tm, r1)" "readU64 r1 = Inr (ix, r2)" "readU64 r2 = Inr (len, r3)"
      and body: "(if len > push_bit 24 1 then Inl (ErrCorrupt AbsurdCommandLength)
       else if len > 0 then try_read (read_full (unat len) r3) PersistIO (\<lambda>cmd r4.
         Inr (\<lparr>eTerm = tm, eIndex = ix, eCommand = cmd\<rparr>, r4))
       else Inr (\<lparr>eTerm = tm, eIndex = ix, eCommand = []\<rparr>, r3)) = Inr (e, rest)"
    unfolding readEntry_def try_read_Inr readUint64_eq by blast
  from body have len: "\<not> len > 2 ^ 24"
      and e: "len > 0 \<and> (\<exists>cmd. read_full (unat len) r3 = Inr (cmd, rest) \<and> e = \<lparr>eTerm = tm, eIndex = ix, eCommand = cmd\<rparr>) \<or>
        len = 0 \<and> e = \<lparr>eTerm = tm, eIndex = ix, eCommand = []\<rparr> \<and> rest = r3"
    by (auto simp: limit24_64 try_read_Inr word_gt_0 split: if_splits)
  from r have bs: "bs = writeU64 tm @ writeU64 ix @ writeU64 len @ r3"
    using u64_be.enc_dec by simp
  have "unat len \<le> 2 ^ 24" using len by (simp add: word_less_nat_alt)
  with e show "length (eCommand e) \<le> 2 ^ 24 \<and> bs = pentry_bytes e @ rest"
    by (auto simp: bs pentry_bytes_def dest!: read_full_InrD)
qed

interpretation state_file: byte_codec state_bytes load_body savable
proof unfold_locales
  fix s :: saved_state and rest
  assume s: "savable s"
  note u = u64_limit [of "length (svEntries s)"]
  have "read_full 4 (persist_magic @ r) = Inr (persist_magic, r)" for r
    by (rule read_full_append) (simp add: persist_magic_def)
  then show "load_body (state_bytes s @ rest) = Inr (s, rest)"
    using u pentry.read_n_enc [of "svEntries s" rest] s
    by (simp add: load_body_def state_bytes_def limit24_64 u64_be.dec_enc savable_def)
next
  fix bs rest and s :: saved_state
  assume "load_body bs = Inr (s, rest)"
  then obtain m f1 where m: "read_full 4 bs = Inr (m, f1)" and "(if m \<noteq> persist_magic then Inl (ErrCorrupt BadMagic) else
       try_read (readUint64 f1) PersistIO (\<lambda>tm f2.
       try_read (readUint64 f2) PersistIO (\<lambda>votedFor f3.
       try_read (readUint64 f3) PersistIO (\<lambda>n f4.
         if n > push_bit 24 1 then Inl (ErrCorrupt AbsurdEntryCount)
         else try_read (read_n readEntry (unat n) f4) id (\<lambda>es f5.
           Inr (\<lparr>svCurrentTerm = tm, svVotedFor = votedFor, svEntries = es\<rparr>, f5)))))) = Inr (s, rest)"
    unfolding load_body_def try_read_Inr by blast
  then obtain tm vf n f2 f3 f4 es where r: "m = persist_magic" "readU64 f1 = Inr (tm, f2)" "readU64 f2 = Inr (vf, f3)"
      "readU64 f3 = Inr (n, f4)" "\<not> n > 2 ^ 24" "read_n readEntry (unat n) f4 = Inr (es, rest)"
      "s = \<lparr>svCurrentTerm = tm, svVotedFor = vf, svEntries = es\<rparr>"
    by (auto simp: try_read_Inr limit24_64 split: if_splits)
  moreover have "bs = persist_magic @ writeU64 tm @ writeU64 vf @ writeU64 n @ f4"
    using read_full_InrD [OF m] r u64_be.enc_dec by simp
  moreover have "unat n \<le> 2 ^ 24" using r(5) by (simp add: word_less_nat_alt)
  ultimately show "savable s \<and> bs = state_bytes s @ rest"
    using pentry.enc_read_n [OF r(6)] by (auto simp: savable_def state_bytes_def)
qed

subsection \<open>Saving and loading\<close>

lemma persist_Load_Open: "os_Open path d = Inr f \<Longrightarrow> persist_Load path d = try_read (load_body f) id (\<lambda>s _. Inr s)"
  by (simp add: persist_Load_def)

lemma load_state_bytes: "savable s \<Longrightarrow> load_body (state_bytes s) = Inr (s, [])"
  using state_file.dec_enc [of s "[]"] by simp

text \<open>A successful \<open>Save\<close> is recovered exactly: \<open>Load\<close> returns the same term, vote and entries, within
  the limits \<open>Load\<close> imposes on the number of entries and the size of a command.\<close>

theorem persist_Save_Load:
  assumes "savable s" and "openable d" and "persist_Save path s d = (None, d')"
  shows "persist_Load path d' = Inr s"
  using save_file_cases [OF fs.writes_save_body assms(3) [unfolded persist_Save_def]] assms(2)
  by (auto simp: persist_Load_Open load_state_bytes [OF assms(1)])

text \<open>C29: What a failed \<open>Save\<close> leaves behind. If the file cannot be created the disk is unchanged. If the
  disk fills up, the file that was there before is gone and \<open>Load\<close> fails, because \<open>Save\<close> truncates
  the file in place before it writes. If only the final \<open>Sync\<close> fails, \<open>Load\<close> returns the new state.\<close>

theorem persist_Save_fails:
  assumes "savable s" and "openable d" and "persist_Save path s d = (Some e, d')"
  shows "e = PermissionDenied \<and> d' = d \<or> e = NoSpace \<and> (\<exists>x. persist_Load path d' = Inl x) \<or>
    e = SyncFailed \<and> persist_Load path d' = Inr s"
  using save_file_cases [OF fs.writes_save_body assms(3) [unfolded persist_Save_def]] assms(2)
    state_file.dec_truncated [OF assms(1)] load_state_bytes [OF assms(1)]
  by (fastforce simp: persist_Load_Open)

text \<open>\<open>Load\<close> of a state file returns a state exactly when the file starts with the encoding of a
  state within the limits; a missing file is the zero state.\<close>

theorem persist_Load_iff:
  assumes "openable d"
  shows "persist_Load path d = Inr s \<longleftrightarrow>
    (case files d path of
       None \<Rightarrow> s = \<lparr>svCurrentTerm = 0, svVotedFor = 0, svEntries = []\<rparr>
     | Some f \<Rightarrow> length (svEntries s) \<le> 2 ^ 24 \<and> (\<forall>e \<in> set (svEntries s). length (eCommand e) \<le> 2 ^ 24) \<and>
         prefix (persist_magic @ writeUint64 (svCurrentTerm s) @ writeUint64 (svVotedFor s) @
           writeUint64 (of_nat (length (svEntries s))) @
           concat (map (\<lambda>e. writeUint64 (eTerm e) @ writeUint64 (eIndex e) @
             writeUint64 (of_nat (length (eCommand e))) @ eCommand e) (svEntries s))) f)"
proof (cases "files d path")
  case (Some f)
  have "load_body f = Inr (s, r) \<longleftrightarrow> savable s \<and> f = state_bytes s @ r" for r
    using state_file.dec_enc [of s r] state_file.enc_dec [of f s r] by blast
  then have "persist_Load path d = Inr s \<longleftrightarrow> savable s \<and> prefix (state_bytes s) f"
    using Some assms by (auto simp: persist_Load_def os_Open_def try_read_Inr prefix_def)
  then show ?thesis
    using Some by (simp add: savable_def state_bytes_def pentry_bytes_def [abs_def])
qed (auto simp: persist_Load_def os_Open_def)

subsection \<open>Witnesses\<close>

lemmas save_run = persist_Save_def save_file_def save_body_def writeEntry_def then_do_def os_Create_def
  file_Write_def file_Sync_def Let_def empty_disk_def persist_magic_def

definition state1 :: saved_state where
  "state1 = \<lparr>svCurrentTerm = 5, svVotedFor = 2, svEntries = cmd1\<rparr>"

lemma savable1: "savable state1"
  by (simp add: savable_def state1_def cmd1_def)

theorem persist_Save_Load_witness:
  "\<exists>d'. persist_Save ''f'' state1 (empty_disk 100) = (None, d') \<and> persist_Load ''f'' d' = Inr state1"
proof -
  have "fst (persist_Save ''f'' state1 (empty_disk 100)) = None"
    by (simp add: save_run state1_def cmd1_def done_ok_def)
  then obtain d' where d': "persist_Save ''f'' state1 (empty_disk 100) = (None, d')" by (metis prod.collapse)
  with persist_Save_Load [OF savable1 _ d'] show ?thesis by (simp add: empty_disk_def)
qed

theorem persist_Save_fails_witness:
  "\<exists>d' x. persist_Save ''f'' state1 (empty_disk 10) = (Some NoSpace, d') \<and> persist_Load ''f'' d' = Inl x"
proof -
  have "fst (persist_Save ''f'' state1 (empty_disk 10)) = Some NoSpace"
    by (simp add: save_run state1_def cmd1_def)
  then obtain d' where d': "persist_Save ''f'' state1 (empty_disk 10) = (Some NoSpace, d')" by (metis prod.collapse)
  with persist_Save_fails [OF savable1 _ d'] show ?thesis by (simp add: empty_disk_def)
qed

theorem persist_Load_iff_witness:
  "persist_Load ''f'' (empty_disk 10) = Inr \<lparr>svCurrentTerm = 0, svVotedFor = 0, svEntries = []\<rparr>"
  by (subst persist_Load_iff) (simp_all add: empty_disk_def)

end
