(* ===== verification/Snapshots.thy ===== *)
theory Snapshots
  imports Persist
begin

text \<open>
  internal/snapshot/snapshot.go: the snapshot file. Its reader allocates the slice of peers before it
  has read any of them, with the length the file states: \<open>make\<close> panics when that length is beyond
  what it can allocate, which depends on the platform and is the argument \<open>maxLen\<close> here. The theorems
  show that saved snapshots are recovered, and that a file of 28 bytes makes \<open>Load\<close> panic.
\<close>

record snapshot =
  snLastIndex :: u64
  snLastTerm :: u64
  snPeers :: "u64 list"
  snData :: "byte list"

datatype snapshot_corrupt = SnapMagic io_error | SnapBadMagic | AbsurdDataLength

datatype snapshot_error = SnapCorrupt snapshot_corrupt | SnapIO io_error | SnapOS os_error

definition snapshot_magic :: "byte list" where
  "snapshot_magic = [83, 78, 65, 80]"

definition snap_writeU64 :: "u64 \<Rightarrow> byte list" where
  "snap_writeU64 v = be_bytes 8 v"

definition snap_readU64 :: "byte list \<Rightarrow> io_error + (u64 \<times> byte list)" where
  "snap_readU64 r = try_read (read_full 8 r) id (\<lambda>buf r1. Inr (be_word buf, r1))"

definition snapshot_body :: "(byte list \<Rightarrow> ('w, 'x) io_act) \<Rightarrow> snapshot \<Rightarrow> ('w, 'x) io_act" where
  "snapshot_body put s =
     then_do (put snapshot_magic)
       (then_do (put (snap_writeU64 (snLastIndex s)))
         (then_do (put (snap_writeU64 (snLastTerm s)))
           (then_do (put (snap_writeU64 (of_nat (length (snPeers s)))))
             (then_do (for_each (\<lambda>p. put (snap_writeU64 p)) (snPeers s))
               (then_do (put (snap_writeU64 (of_nat (length (snData s)))))
                 (put (snData s)))))))"

definition snapshot_Save :: "string \<Rightarrow> snapshot \<Rightarrow> (disk, os_error) io_act" where
  "snapshot_Save path s = save_file path (snapshot_body (file_Write path) s)"

text \<open>The header up to the number of peers, and the rest of the file once the slice is allocated.\<close>

definition snapshot_header :: "byte list \<Rightarrow> snapshot_error + ((u64 \<times> u64 \<times> u64) \<times> byte list)" where
  "snapshot_header f =
     try_read (read_full 4 f) (\<lambda>e. SnapCorrupt (SnapMagic e)) (\<lambda>m f1.
     if m \<noteq> snapshot_magic then Inl (SnapCorrupt SnapBadMagic)
     else
       try_read (snap_readU64 f1) SnapIO (\<lambda>lastIndex f2.
       try_read (snap_readU64 f2) SnapIO (\<lambda>lastTerm f3.
       try_read (snap_readU64 f3) SnapIO (\<lambda>peerCount f4. Inr ((lastIndex, lastTerm, peerCount), f4)))))"

definition snapshot_rest :: "nat \<Rightarrow> byte list \<Rightarrow> snapshot_error + ((u64 list \<times> byte list) \<times> byte list)" where
  "snapshot_rest n f4 =
     try_read (read_n snap_readU64 n f4) SnapIO (\<lambda>ps f5.
     try_read (snap_readU64 f5) SnapIO (\<lambda>dataLen f6.
       if dataLen > push_bit 30 1 then Inl (SnapCorrupt AbsurdDataLength)
       else try_read (read_full (unat dataLen) f6) SnapIO (\<lambda>data f7. Inr ((ps, data), f7))))"

definition snapshot_load :: "nat \<Rightarrow> byte list \<Rightarrow> (snapshot_error + snapshot) run" where
  "snapshot_load maxLen f =
     (case snapshot_header f of
        Inl e \<Rightarrow> Some (Inl e)
      | Inr ((lastIndex, lastTerm, peerCount), f4) \<Rightarrow>
          if unat peerCount > maxLen then None
          else Some (try_read (snapshot_rest (unat peerCount) f4) id (\<lambda>(ps, data) _.
            Inr \<lparr>snLastIndex = lastIndex, snLastTerm = lastTerm, snPeers = ps, snData = data\<rparr>)))"

text \<open>\<open>Load\<close> returns no snapshot, and no error, when there is no file.\<close>

definition snapshot_Load :: "nat \<Rightarrow> string \<Rightarrow> disk \<Rightarrow> (snapshot_error + snapshot option) run" where
  "snapshot_Load maxLen path d =
     (case os_Open path d of
        Inl NotExist \<Rightarrow> Some (Inr None)
      | Inl e \<Rightarrow> Some (Inl (SnapOS e))
      | Inr f \<Rightarrow> map_option (\<lambda>r. case r of Inl e \<Rightarrow> Inl e | Inr s \<Rightarrow> Inr (Some s)) (snapshot_load maxLen f))"

subsection \<open>The format\<close>

text \<open>The package has its own copies of the codec's integers.\<close>

lemma snap_u64: "snap_writeU64 = writeU64" "snap_readU64 = readU64"
  by (auto simp: fun_eq_iff snap_writeU64_def writeU64_def snap_readU64_def readU64_def try_read_def
      split: sum.splits prod.splits)

lemmas snapshot_defs = snapshot_body_def [unfolded snap_u64] snapshot_header_def [unfolded snap_u64]
  snapshot_rest_def [unfolded snap_u64]

definition header_bytes :: "u64 \<times> u64 \<times> u64 \<Rightarrow> byte list" where
  "header_bytes h = snapshot_magic @ writeU64 (fst h) @ writeU64 (fst (snd h)) @ writeU64 (snd (snd h))"

definition rest_bytes :: "u64 list \<times> byte list \<Rightarrow> byte list" where
  "rest_bytes r = concat (map writeU64 (fst r)) @ writeU64 (of_nat (length (snd r))) @ snd r"

definition snapshot_bytes :: "snapshot \<Rightarrow> byte list" where
  "snapshot_bytes s =
     header_bytes (snLastIndex s, snLastTerm s, of_nat (length (snPeers s))) @ rest_bytes (snPeers s, snData s)"

definition snapshot_ok :: "nat \<Rightarrow> snapshot \<Rightarrow> bool" where
  "snapshot_ok maxLen s \<longleftrightarrow>
     length (snPeers s) \<le> maxLen \<and> length (snPeers s) < 2 ^ 64 \<and> length (snData s) \<le> 2 ^ 30"

context byte_sink
begin

lemma writes_snapshot_body: "writes (snapshot_body put s) (snapshot_bytes s)"
  unfolding snapshot_defs(1) snapshot_bytes_def header_bytes_def rest_bytes_def fst_conv snd_conv append_assoc
  by (intro writes_then writes_put writes_each)

end

interpretation snap_header: byte_codec header_bytes snapshot_header "\<lambda>_. True"
proof unfold_locales
  fix h :: "u64 \<times> u64 \<times> u64" and rest
  have "read_full 4 (snapshot_magic @ r) = Inr (snapshot_magic, r)" for r
    by (rule read_full_append) (simp add: snapshot_magic_def)
  then show "snapshot_header (header_bytes h @ rest) = Inr (h, rest)"
    by (simp add: snapshot_defs(2) header_bytes_def u64_be.dec_enc)
next
  fix bs rest and h :: "u64 \<times> u64 \<times> u64"
  assume "snapshot_header bs = Inr (h, rest)"
  then obtain m f1 where m: "read_full 4 bs = Inr (m, f1)" and "(if m \<noteq> snapshot_magic then Inl (SnapCorrupt SnapBadMagic)
     else
       try_read (readU64 f1) SnapIO (\<lambda>lastIndex f2.
       try_read (readU64 f2) SnapIO (\<lambda>lastTerm f3.
       try_read (readU64 f3) SnapIO (\<lambda>peerCount f4. Inr ((lastIndex, lastTerm, peerCount), f4))))) = Inr (h, rest)"
    unfolding snapshot_defs(2) try_read_Inr by blast
  then show "True \<and> bs = header_bytes h @ rest"
    using read_full_InrD [OF m] u64_be.enc_dec by (auto simp: try_read_Inr header_bytes_def split: if_splits)
qed

lemma limit30: "push_bit 30 1 = (2 ^ 30 :: u64)"
  by (simp add: push_bit_eq_mult)

lemma data_limit:
  assumes "k \<le> 2 ^ 30"
  shows "unat (of_nat k :: u64) = k" and "\<not> (of_nat k :: u64) > 2 ^ 30"
proof -
  have "k < 2 ^ 64" using assms by (rule le_less_trans) simp
  then show u: "unat (of_nat k :: u64) = k" by (simp add: unat_of_nat)
  then show "\<not> (of_nat k :: u64) > 2 ^ 30" using assms by (simp add: word_less_nat_alt)
qed

interpretation snap_rest: byte_codec rest_bytes "snapshot_rest n"
    "\<lambda>r. length (fst r) = n \<and> length (snd r) \<le> 2 ^ 30" for n
proof unfold_locales
  fix r :: "u64 list \<times> byte list" and rest
  assume r: "length (fst r) = n \<and> length (snd r) \<le> 2 ^ 30"
  have "read_n readU64 n (concat (map writeU64 (fst r)) @ tail) = Inr (fst r, tail)" for tail
    using u64_be.read_n_enc [of "fst r" tail] r by simp
  with r data_limit [of "length (snd r)"] show "snapshot_rest n (rest_bytes r @ rest) = Inr (r, rest)"
    by (simp add: snapshot_defs(3) rest_bytes_def u64_be.dec_enc limit30)
next
  fix bs rest and r :: "u64 list \<times> byte list"
  assume "snapshot_rest n bs = Inr (r, rest)"
  then obtain ps f5 len f6 data where f: "read_n readU64 n bs = Inr (ps, f5)" "readU64 f5 = Inr (len, f6)"
      "\<not> len > 2 ^ 30" "read_full (unat len) f6 = Inr (data, rest)" "r = (ps, data)"
    unfolding snapshot_defs(3) try_read_Inr limit30 by (auto simp: try_read_Inr split: if_splits)
  moreover have "unat len \<le> 2 ^ 30" using f(3) by (simp add: word_less_nat_alt)
  ultimately show "(length (fst r) = n \<and> length (snd r) \<le> 2 ^ 30) \<and> bs = rest_bytes r @ rest"
    using u64_be.enc_read_n [OF f(1)] u64_be.enc_dec [OF f(2)] read_full_InrD [OF f(4)] by (simp add: rest_bytes_def)
qed

lemma snapshot_load_bytes: "snapshot_ok maxLen s \<Longrightarrow> snapshot_load maxLen (snapshot_bytes s @ tail) = Some (Inr s)"
  by (cases s) (simp add: snapshot_load_def snapshot_bytes_def snap_header.dec_enc snap_rest.dec_enc
      snapshot_ok_def unat_of_nat64)

subsection \<open>Saving and loading\<close>

text \<open>C31: Snapshots round trip. After a successful \<open>Save\<close> of a snapshot with at most 1 GiB of data and
  a peer list the reader can allocate, \<open>Load\<close> returns it unchanged: position, peers and data.\<close>

theorem snapshot_Save_Load:
  assumes "snapshot_ok maxLen s" and "openable d" and "snapshot_Save path s d = (None, d')"
  shows "snapshot_Load maxLen path d' = Some (Inr (Some s))"
  using save_file_cases [OF fs.writes_snapshot_body assms(3) [unfolded snapshot_Save_def]] assms(2)
    snapshot_load_bytes [OF assms(1), of "[]"]
  by (auto simp: snapshot_Load_def)

text \<open>C32: A 28-byte file makes \<open>Load\<close> panic. Unlike the data length, the number of peers is not checked
  before the slice for them is allocated: whatever the platform can allocate, short of the largest
  64-bit number, there is a file of 28 bytes whose loading panics instead of returning an error.\<close>

theorem snapshot_Load_panics:
  assumes "maxLen < 2 ^ 64 - 1" and "openable d" and "files d path = Some (header_bytes (i, t, - 1))"
  shows "snapshot_Load maxLen path d = None \<and> length (header_bytes (i, t, - 1)) = 28"
proof -
  have "unat (- 1 :: u64) = 2 ^ 64 - 1" by (simp add: unsigned_minus_1_eq_mask mask_eq_exp_minus_1)
  then have "snapshot_load maxLen (header_bytes (i, t, - 1) @ []) = None"
    using assms(1) by (simp only: snapshot_load_def snap_header.dec_enc) simp
  with assms(2,3) show ?thesis by (simp add: snapshot_Load_def os_Open_def header_bytes_def snapshot_magic_def)
qed

subsection \<open>Witnesses\<close>

definition snap1 :: snapshot where
  "snap1 = \<lparr>snLastIndex = 100, snLastTerm = 5, snPeers = [1, 2, 3], snData = [7, 8]\<rparr>"

theorem snapshot_Save_Load_witness:
  "\<exists>d'. snapshot_Save ''f'' snap1 (empty_disk 100) = (None, d') \<and> snapshot_Load 1000 ''f'' d' = Some (Inr (Some snap1))"
proof -
  have "fst (snapshot_Save ''f'' snap1 (empty_disk 100)) = None"
    by (simp add: save_run snapshot_Save_def snapshot_defs(1) snap1_def done_ok_def snapshot_magic_def)
  then obtain d' where d': "snapshot_Save ''f'' snap1 (empty_disk 100) = (None, d')" by (metis prod.collapse)
  moreover have "snapshot_ok 1000 snap1" by (simp add: snapshot_ok_def snap1_def)
  ultimately show ?thesis using snapshot_Save_Load [OF _ _ d'] by (simp add: empty_disk_def)
qed

theorem snapshot_Load_panics_witness:
  "snapshot_Load (2 ^ 48) ''f'' ((empty_disk 0)\<lparr>files := [''f'' \<mapsto> header_bytes (1, 1, - 1)]\<rparr>) = None"
  using snapshot_Load_panics [of "2 ^ 48" "(empty_disk 0)\<lparr>files := [''f'' \<mapsto> header_bytes (1, 1, - 1)]\<rparr>" "''f''" 1 1]
  by (simp add: empty_disk_def)

end
