(* ===== verification/Gostrings.thy ===== *)
theory Gostrings
  imports Bytes
begin

text \<open>
  Go strings and what the sources use of the packages strings and strconv: \<open>SplitN\<close>, \<open>TrimSpace\<close>, \<open>Fields\<close>
  and \<open>ParseInt\<close>. A Go string is a list of bytes. The lemmas say how printed numbers and plain words
  are split and read back.
\<close>

type_synonym gostring = "byte list"

definition bytes_of :: "string \<Rightarrow> gostring" where
  "bytes_of s = map of_char s"

subsection \<open>The packages strings and strconv\<close>

text \<open>\<open>strings.SplitN(s, " ", n)\<close> for positive \<open>n\<close>.\<close>

fun SplitN :: "gostring \<Rightarrow> nat \<Rightarrow> gostring list" where
  "SplitN s 0 = []"
| "SplitN s (Suc 0) = [s]"
| "SplitN s (Suc (Suc n)) =
     (if 32 \<in> set s
      then takeWhile (\<lambda>b. b \<noteq> 32) s # SplitN (tl (dropWhile (\<lambda>b. b \<noteq> 32) s)) (Suc n)
      else [s])"

text \<open>
  The UTF-8 encodings of the white space of \<open>unicode.IsSpace\<close>. Each starts with a byte that never
  continues another encoding, so scanning byte by byte finds the same places as scanning rune by
  rune, in valid and in invalid strings.
\<close>

definition spaces :: "gostring list" where
  "spaces = [[9], [10], [11], [12], [13], [32], [194, 133], [194, 160], [225, 154, 128],
     [226, 128, 128], [226, 128, 129], [226, 128, 130], [226, 128, 131], [226, 128, 132],
     [226, 128, 133], [226, 128, 134], [226, 128, 135], [226, 128, 136], [226, 128, 137],
     [226, 128, 138], [226, 128, 168], [226, 128, 169], [226, 128, 175], [226, 129, 159],
     [227, 128, 128]]"

definition space_len :: "gostring \<Rightarrow> nat" where
  "space_len s = (case find (\<lambda>sp. prefix sp s) spaces of None \<Rightarrow> 0 | Some sp \<Rightarrow> length sp)"

definition last_space_len :: "gostring \<Rightarrow> nat" where
  "last_space_len s = (case find (\<lambda>sp. suffix sp s) spaces of None \<Rightarrow> 0 | Some sp \<Rightarrow> length sp)"

lemma space_len_le: "space_len s \<le> length s"
  by (auto simp: space_len_def find_Some_iff split: option.splits dest: nth_mem intro: prefix_length_le)

lemma last_space_len_le: "last_space_len s \<le> length s"
  by (auto simp: last_space_len_def find_Some_iff split: option.splits intro: suffix_length_le)

lemma diff_len_less: "0 < k \<Longrightarrow> k \<le> n \<Longrightarrow> n - k < (n :: nat)"
  by simp

function trim_left :: "gostring \<Rightarrow> gostring" where
  "trim_left s = (if space_len s > 0 then trim_left (drop (space_len s) s) else s)"
  by pat_completeness auto
termination
  by (relation "measure length") (auto intro: diff_len_less space_len_le)

function trim_right :: "gostring \<Rightarrow> gostring" where
  "trim_right s = (if last_space_len s > 0 then trim_right (take (length s - last_space_len s) s) else s)"
  by pat_completeness auto
termination
  by (relation "measure length") (auto intro: diff_len_less last_space_len_le)

declare trim_left.simps [simp del] trim_right.simps [simp del]

definition TrimSpace :: "gostring \<Rightarrow> gostring" where
  "TrimSpace s = trim_right (trim_left s)"

text \<open>\<open>strings.Fields\<close>, with the field read so far.\<close>

function fields_from :: "gostring \<Rightarrow> gostring \<Rightarrow> gostring list" where
  "fields_from cur [] = (if cur = [] then [] else [cur])"
| "fields_from cur (b # bs) =
     (if space_len (b # bs) > 0
      then (if cur = [] then [] else [cur]) @ fields_from [] (drop (space_len (b # bs)) (b # bs))
      else fields_from (cur @ [b]) bs)"
  by pat_completeness auto
termination
  by (relation "measure (\<lambda>(_, s). length s)") auto

declare fields_from.simps(2) [simp del]

definition Fields :: "gostring \<Rightarrow> gostring list" where
  "Fields s = fields_from [] s"

text \<open>\<open>strconv.ParseInt(s, 10, 64)\<close>: digits are read from the left, and an overflow of the unsigned
  accumulator is reported before later characters are looked at.\<close>

datatype num_error = ErrSyntax | ErrRange

fun parse_digits :: "nat \<Rightarrow> gostring \<Rightarrow> num_error + nat" where
  "parse_digits n [] = Inr n"
| "parse_digits n (b # bs) =
     (if 48 \<le> b \<and> b \<le> 57 then
        let n1 = n * 10 + (unat b - 48)
        in if n1 \<ge> 2 ^ 64 then Inl ErrRange else parse_digits n1 bs
      else Inl ErrSyntax)"

definition parse_uint :: "gostring \<Rightarrow> num_error + nat" where
  "parse_uint s = (if s = [] then Inl ErrSyntax else parse_digits 0 s)"

definition ParseInt :: "gostring \<Rightarrow> num_error + int" where
  "ParseInt s =
     (if s = [] then Inl ErrSyntax
      else
        let neg = (hd s = 45);
            digits = (if hd s = 43 \<or> hd s = 45 then tl s else s)
        in case parse_uint digits of
             Inl e \<Rightarrow> Inl e
           | Inr un \<Rightarrow>
               if \<not> neg \<and> un \<ge> 2 ^ 63 then Inl ErrRange
               else if neg \<and> un > 2 ^ 63 then Inl ErrRange
               else Inr (if neg then - int un else int un))"

subsection \<open>Splitting\<close>

lemma SplitN_field: "32 \<notin> set k \<Longrightarrow> SplitN (k @ 32 # r) (Suc (Suc n)) = k # SplitN r (Suc n)"
proof -
  assume "32 \<notin> set k"
  then have "takeWhile (\<lambda>b. b \<noteq> 32) (k @ 32 # r) = k" "dropWhile (\<lambda>b. b \<noteq> 32) (k @ 32 # r) = 32 # r"
    by (induction k) auto
  then show ?thesis by simp
qed

lemma SplitN_set: "32 \<notin> set k \<Longrightarrow> SplitN (bytes_of ''set '' @ k @ 32 # v) 3 = [bytes_of ''set'', k, v]"
  using SplitN_field [of "bytes_of ''set''" "k @ 32 # v" 1] SplitN_field [of k v 0]
  by (simp add: bytes_of_def numeral_3_eq_3)

lemma SplitN_delete: "32 \<notin> set k \<Longrightarrow> SplitN (bytes_of ''delete '' @ k) 3 = [bytes_of ''delete'', k]"
  using SplitN_field [of "bytes_of ''delete''" k 1] by (simp add: bytes_of_def numeral_3_eq_3)

subsection \<open>Numbers and words\<close>

lemma of_char_digit: "d < 10 \<Longrightarrow> (of_char (char_of (48 + d)) :: byte) = of_nat (48 + d)"
proof -
  assume "d < 10"
  then have "of_char (char_of (48 + d)) = (48 + d :: nat)" by simp
  then show ?thesis by (metis of_nat_of_char)
qed

lemma digit_bounds: "d < 10 \<Longrightarrow> (48 :: byte) \<le> of_nat (48 + d) \<and> of_nat (48 + d) \<le> (57 :: byte) \<and> unat (of_nat (48 + d) :: byte) = 48 + d"
proof -
  assume "d < 10"
  then have "unat (of_nat (48 + d) :: byte) = 48 + d" by (subst unat_of_nat) simp
  with \<open>d < 10\<close> show ?thesis by (simp add: word_le_nat_alt)
qed

lemma bytes_of_append: "bytes_of (a @ b) = bytes_of a @ bytes_of b"
  by (simp add: bytes_of_def)

lemma parse_digits_dec:
  "parse_digits 0 (bytes_of (dec_nat m) @ rest) = (if m < 2 ^ 64 then parse_digits m rest else Inl ErrRange)"
proof (induction m arbitrary: rest rule: dec_nat.induct)
  case (1 m)
  have digit: "parse_digits q (of_char (char_of (48 + r)) # rest) = (if m < 2 ^ 64 then parse_digits m rest else Inl ErrRange)"
    if "m = q * 10 + r" "r < 10" for q r :: nat
    using that digit_bounds [OF that(2)] by (simp only: parse_digits.simps of_char_digit) (simp add: Let_def)
  show ?case
  proof (cases "m < 10")
    case True
    then show ?thesis using digit [of 0 m] by (simp add: dec_nat.simps [of m] bytes_of_def)
  next
    case False
    have "m = (m div 10) * 10 + m mod 10" "m mod 10 < 10" by simp_all
    note digit [OF this]
    moreover have "\<not> m < 2 ^ 64" if "\<not> m div 10 < 2 ^ 64" using that div_le_dividend [of m 10] by linarith
    ultimately show ?thesis
      using False 1(1) [OF False, of "of_char (char_of (48 + m mod 10)) # rest"]
      by (simp add: dec_nat.simps [of m] bytes_of_append) (simp add: bytes_of_def)
  qed
qed

lemma dec_nat_digits: "b \<in> set (bytes_of (dec_nat m)) \<Longrightarrow> 48 \<le> b \<and> b \<le> 57"
proof (induction m rule: dec_nat.induct)
  case (1 m)
  have "of_char (char_of (48 + r)) = b \<Longrightarrow> r < 10 \<Longrightarrow> 48 \<le> b \<and> b \<le> 57" for r :: nat
    using digit_bounds [of r] by (simp add: of_char_digit)
  with 1 show ?case
    by (cases "m < 10") (auto simp: dec_nat.simps [of m] bytes_of_def)
qed

lemma dec_nat_nonempty: "bytes_of (dec_nat m) \<noteq> []"
  by (simp add: dec_nat.simps [of m] bytes_of_def)

lemma parse_uint_dec: "parse_uint (bytes_of (dec_nat m)) = (if m < 2 ^ 64 then Inr m else Inl ErrRange)"
  using parse_digits_dec [of m "[]"] dec_nat_nonempty [of m] by (simp add: parse_uint_def)

lemma fmt_int_cases:
  "bytes_of (fmt_int n) = (if n < 0 then 45 # bytes_of (dec_nat (nat (- n))) else bytes_of (dec_nat (nat n)))"
  by (simp add: fmt_int_def bytes_of_def)

lemma hd_dec_nat: "hd (bytes_of (dec_nat m)) \<noteq> 43 \<and> hd (bytes_of (dec_nat m)) \<noteq> 45"
  using dec_nat_digits [OF hd_in_set [OF dec_nat_nonempty [of m]]] by (auto simp: word_le_nat_alt)

text \<open>\<open>ParseInt\<close> reads back every 64-bit number from its decimal form, and refuses the decimal
  form of every other number as out of range.\<close>

lemma ParseInt_fmt_int:
  "ParseInt (bytes_of (fmt_int n)) = (if - (2 ^ 63) \<le> n \<and> n < 2 ^ 63 then Inr n else Inl ErrRange)"
  using hd_dec_nat [of "nat n"] dec_nat_nonempty [of "nat n"]
  by (cases "n < 0") (auto simp: ParseInt_def fmt_int_cases parse_uint_dec Let_def)

text \<open>Visible ASCII characters are not white space, at either end.\<close>

definition plain :: "byte \<Rightarrow> bool" where
  "plain b \<longleftrightarrow> 33 \<le> b \<and> b \<le> 126"

lemma space_len_plain: "plain b \<Longrightarrow> space_len (b # bs) = 0"
proof -
  assume "plain b"
  then have "\<forall>sp \<in> set spaces. \<not> prefix sp (b # bs)" by (auto simp: plain_def spaces_def word_le_nat_alt)
  then show ?thesis by (auto simp: space_len_def find_Some_iff split: option.splits dest: nth_mem)
qed

lemma last_space_len_plain: "plain b \<Longrightarrow> last_space_len (bs @ [b]) = 0"
proof -
  assume "plain b"
  then have "\<forall>sp \<in> set spaces. \<not> suffix sp (bs @ [b])"
    by (auto simp: plain_def spaces_def word_le_nat_alt suffix_def)
  then show ?thesis by (auto simp: last_space_len_def find_Some_iff split: option.splits dest: nth_mem)
qed

lemma TrimSpace_plain:
  assumes "plain (hd s)" and "plain (last s)" and "s \<noteq> []"
  shows "TrimSpace s = s"
proof -
  have "space_len s = 0" using assms space_len_plain [of "hd s" "tl s"] by simp
  moreover have "last_space_len s = 0" using assms last_space_len_plain [of "last s" "butlast s"] by simp
  ultimately show ?thesis by (simp add: TrimSpace_def trim_left.simps [of s] trim_right.simps [of s])
qed

lemma fields_plain: "\<forall>b \<in> set a. plain b \<Longrightarrow> fields_from cur (a @ r) = fields_from (cur @ a) r"
  by (induction a arbitrary: cur) (auto simp: fields_from.simps(2) space_len_plain)

lemma space_len_blank: "space_len (32 # r) = 1"
  by (simp add: space_len_def spaces_def)

lemma Fields_two:
  assumes "\<forall>b \<in> set a. plain b" and "\<forall>b \<in> set c. plain b" and "a \<noteq> []" and "c \<noteq> []"
  shows "Fields (a @ 32 # c) = [a, c]"
  using fields_plain [OF assms(1), of "[]" "32 # c"] fields_plain [OF assms(2), of "[]" "[]"] assms(3,4)
  by (simp add: Fields_def fields_from.simps(2) [of _ 32] space_len_blank)

lemma fmt_int_plain: "\<forall>b \<in> set (bytes_of (fmt_int n)). plain b"
proof -
  have "plain b" if "48 \<le> b \<and> b \<le> 57" for b using that by (simp add: plain_def word_le_nat_alt)
  moreover have "plain 45" by (simp add: plain_def)
  ultimately show ?thesis using dec_nat_digits by (auto simp: fmt_int_cases)
qed

lemma fmt_int_nonempty: "bytes_of (fmt_int n) \<noteq> []"
  using dec_nat_nonempty by (simp add: fmt_int_cases)

end
