(* ===== verification/Utf8.thy ===== *)
theory Utf8
  imports Gostrings
begin

text \<open>
  The part of the packages unicode/utf8 and unicode/utf16 that the JSON package rests on. Go strings need
  not be valid UTF-8; \<open>runes\<close> cuts a string into the encodings it holds and the single bytes that are part
  of none, the way a loop over \<open>utf8.DecodeRune\<close> does.
\<close>

subsection \<open>Encodings\<close>

definition within :: "byte \<Rightarrow> byte \<Rightarrow> byte \<Rightarrow> bool" where
  "within lo hi b \<longleftrightarrow> lo \<le> b \<and> b \<le> hi"

text \<open>The length of the encoding a string starts with, or 0 if there is none: \<open>DecodeRune\<close> then returns
  \<open>RuneError\<close> and the length 1. Overlong forms, surrogates and runes above \<open>U+10FFFF\<close> are no encodings.\<close>

definition rune_size :: "byte \<Rightarrow> nat" where
  "rune_size a =
     (if a < 128 then 1
      else if within 194 223 a then 2
      else if within 224 239 a then 3
      else if within 240 244 a then 4
      else 0)"

definition second_ok :: "byte \<Rightarrow> byte \<Rightarrow> bool" where
  "second_ok a =
     within (if a = 224 then 160 else if a = 240 then 144 else 128) (if a = 237 then 159 else if a = 244 then 143 else 191)"

definition rune_len :: "gostring \<Rightarrow> nat" where
  "rune_len s =
     (if s = [] then 0
      else
        let n = rune_size (hd s)
        in if length s < n then 0
           else if n < 2 then n
           else if second_ok (hd s) (s ! 1) \<and> list_all (within 128 191) (take (n - 2) (drop 2 s)) then n
           else 0)"

text \<open>\<open>utf8.EncodeRune\<close>; surrogates and numbers above \<open>U+10FFFF\<close> become \<open>U+FFFD\<close>.\<close>

definition rune_error :: gostring where
  "rune_error = [239, 191, 189]"

definition EncodeRune :: "nat \<Rightarrow> gostring" where
  "EncodeRune r =
     (if r < 128 then [of_nat r]
      else if r < 2048 then [of_nat (192 + r div 64), of_nat (128 + r mod 64)]
      else if r > 1114111 \<or> 55296 \<le> r \<and> r < 57344 then rune_error
      else if r < 65536 then [of_nat (224 + r div 4096), of_nat (128 + r div 64 mod 64), of_nat (128 + r mod 64)]
      else [of_nat (240 + r div 262144), of_nat (128 + r div 4096 mod 64), of_nat (128 + r div 64 mod 64), of_nat (128 + r mod 64)])"

text \<open>\<open>utf16.IsSurrogate\<close> and \<open>utf16.DecodeRune\<close>, which gives nothing when the two are not a pair.\<close>

definition IsSurrogate :: "nat \<Rightarrow> bool" where
  "IsSurrogate r \<longleftrightarrow> 55296 \<le> r \<and> r < 57344"

definition surrogate_pair :: "nat \<Rightarrow> nat \<Rightarrow> nat option" where
  "surrogate_pair r1 r2 =
     (if 55296 \<le> r1 \<and> r1 < 56320 \<and> 56320 \<le> r2 \<and> r2 < 57344
      then Some ((r1 - 55296) * 1024 + (r2 - 56320) + 65536) else None)"

lemma rune_len_le: "rune_len s \<le> length s"
  by (auto simp: rune_len_def Let_def)

text \<open>The pieces of a string: encodings, or \<open>None\<close> for a byte that is part of none.\<close>

function runes :: "gostring \<Rightarrow> gostring option list" where
  "runes [] = []"
| "runes (b # s) =
     (let n = rune_len (b # s)
      in if n = 0 then None # runes s else Some (take n (b # s)) # runes (drop n (b # s)))"
  by pat_completeness auto
termination
  by (relation "measure length") auto

declare runes.simps(2) [simp del]

definition utf8_ok :: "gostring \<Rightarrow> bool" where
  "utf8_ok s \<longleftrightarrow> None \<notin> set (runes s)"

text \<open>A string with every such byte replaced by \<open>U+FFFD\<close>.\<close>

definition rune_text :: "gostring option \<Rightarrow> gostring" where
  "rune_text p = (case p of None \<Rightarrow> rune_error | Some c \<Rightarrow> c)"

definition coerced :: "gostring \<Rightarrow> gostring" where
  "coerced s = concat (map rune_text (runes s))"

subsection \<open>Pieces\<close>

text \<open>A piece that is an encoding is one wherever it stands.\<close>

definition rune_ok :: "gostring \<Rightarrow> bool" where
  "rune_ok c \<longleftrightarrow> c \<noteq> [] \<and> rune_len c = length c"

lemma rune_len_take: "rune_len s = n \<Longrightarrow> 0 < n \<Longrightarrow> rune_len (take n s @ r) = n"
  by (cases s) (auto simp: rune_len_def Let_def nth_append drop_take split: if_splits)

lemma rune_ok_take: "0 < rune_len s \<Longrightarrow> rune_ok (take (rune_len s) s)"
  using rune_len_take [of s "rune_len s" "[]"] rune_len_le [of s] by (auto simp: rune_ok_def)

lemma rune_len_append: "rune_ok c \<Longrightarrow> rune_len (c @ r) = length c"
  using rune_len_take [of c "length c" r] by (simp add: rune_ok_def)

lemma runes_append:
  assumes "rune_ok c"
  shows "runes (c @ r) = Some c # runes r"
proof (cases c)
  case (Cons b s)
  then show ?thesis
    using rune_len_append [OF assms, of r] by (simp add: runes.simps(2) Let_def)
qed (use assms in \<open>simp add: rune_ok_def\<close>)

lemma runes_ok: "Some c \<in> set (runes s) \<Longrightarrow> rune_ok c"
proof (induction s rule: runes.induct)
  case (2 b s)
  then show ?case
    using rune_ok_take [of "b # s"] by (auto simp: runes.simps(2) [of b s] Let_def split: if_splits)
qed simp

lemma rune_ok_error: "rune_ok rune_error"
  by (simp add: rune_ok_def rune_error_def rune_len_def rune_size_def second_ok_def within_def)

lemma rune_ok_ascii: "b < 128 \<Longrightarrow> rune_ok [b]"
  by (simp add: rune_ok_def rune_len_def rune_size_def)

lemma rune_text_ok: "p \<in> set (runes s) \<Longrightarrow> rune_ok (rune_text p)"
  using runes_ok rune_ok_error by (cases p) (auto simp: rune_text_def)

lemma runes_concat: "\<forall>c \<in> set cs. rune_ok c \<Longrightarrow> runes (concat cs) = map Some cs"
  by (induction cs) (simp_all add: runes_append)

lemma utf8_ok_concat: "\<forall>c \<in> set cs. rune_ok c \<Longrightarrow> utf8_ok (concat cs)"
  by (auto simp: utf8_ok_def runes_concat)

text \<open>Coercing gives valid UTF-8 and keeps exactly the strings that are.\<close>

lemma coerced_ok: "utf8_ok (coerced s)"
  unfolding coerced_def by (rule utf8_ok_concat) (auto intro: rune_text_ok)

lemma coerced_id: "utf8_ok s \<Longrightarrow> coerced s = s"
proof (induction s rule: runes.induct)
  case (2 b s)
  let ?n = "rune_len (b # s)"
  have n: "?n \<noteq> 0" using "2.prems" by (cases "?n = 0") (auto simp: utf8_ok_def runes.simps(2) Let_def)
  then have "runes (b # s) = Some (take ?n (b # s)) # runes (drop ?n (b # s))" by (simp add: runes.simps(2) Let_def)
  moreover from this "2.prems" have "utf8_ok (drop ?n (b # s))" by (auto simp: utf8_ok_def)
  moreover from "2.IH"(2) [OF refl n this] have "coerced (drop ?n (b # s)) = drop ?n (b # s)" .
  ultimately show ?case by (simp only: coerced_def list.map concat.simps rune_text_def option.case append_take_drop_id)
qed (simp add: coerced_def)

lemma coerced_iff: "coerced s = s \<longleftrightarrow> utf8_ok s"
  using coerced_id coerced_ok by metis

lemma coerced_append: "rune_ok c \<Longrightarrow> coerced (c @ r) = c @ coerced r"
  by (simp add: coerced_def runes_append rune_text_def)

text \<open>An ASCII character is never inside an encoding, so strings can be cut there.\<close>

lemma rune_len_cut:
  assumes "b < 128" and "a \<noteq> []"
  shows "rune_len (a @ b # s) = rune_len a"
proof -
  let ?n = "rune_size (hd a)"
  have *: "\<not> within 128 191 b" "\<not> second_ok (hd a) b"
    using assms(1) by (auto simp: within_def second_ok_def word_le_nat_alt word_less_nat_alt split: if_splits)
  show ?thesis
  proof (cases "length a < ?n \<and> 2 \<le> ?n")
    case True
    have "\<not> (second_ok (hd a) ((a @ b # s) ! 1) \<and> list_all (within 128 191) (take (?n - 2) (drop 2 (a @ b # s))))"
    proof (cases "length a = 1")
      case False
      with assms(2) obtain k where "length a = Suc (Suc k)" by (cases a; cases "tl a") auto
      with True have "take (?n - 2) (drop 2 (a @ b # s)) = drop 2 a @ b # take (?n - length a - 1) s"
        by (auto simp: take_Cons' Suc_diff_le)
      with * show ?thesis by (auto simp: list_all_iff)
    qed (use * in \<open>simp add: nth_append\<close>)
    with True assms(2) show ?thesis by (auto simp: rune_len_def Let_def)
  next
    case False
    moreover have "0 < length a" using assms(2) by simp
    ultimately have "?n \<le> length a" by linarith
    with assms(2) show ?thesis by (auto simp: rune_len_def Let_def nth_append)
  qed
qed

lemma runes_cut: "b < 128 \<Longrightarrow> runes (a @ b # s) = runes a @ Some [b] # runes s"
proof (induction a rule: runes.induct)
  case 1
  then show ?case using runes_append [OF rune_ok_ascii, of b s] by simp
next
  case (2 c a)
  let ?n = "rune_len (c # a)"
  have n: "rune_len ((c # a) @ b # s) = ?n" by (rule rune_len_cut) (use 2 in simp_all)
  have "take ?n ((c # a) @ b # s) = take ?n (c # a)" "drop ?n ((c # a) @ b # s) = drop ?n (c # a) @ b # s"
    using rune_len_le [of "c # a"] by (simp_all del: append_Cons add: take_append drop_append)
  with 2 n show ?case by (cases "?n = 0") (auto simp: runes.simps(2) Let_def)
qed

lemma utf8_ok_cut: "b < 128 \<Longrightarrow> utf8_ok (a @ b # s) \<longleftrightarrow> utf8_ok a \<and> utf8_ok s"
  by (simp add: utf8_ok_def runes_cut)

text \<open>Every rune is encoded as an encoding.\<close>

lemma byte_of_nat: "k < 256 \<Longrightarrow> unat (of_nat k :: byte) = k"
  by (simp add: unat_of_nat)

lemma byte_of_nat_eq: "k < 256 \<Longrightarrow> of_nat k = (b :: byte) \<longleftrightarrow> k = unat b"
  by (auto simp: byte_of_nat word_unat_eq_iff)

lemmas rune_ok_defs = rune_ok_def rune_len_def rune_size_def second_ok_def within_def
  word_le_nat_alt word_less_nat_alt byte_of_nat byte_of_nat_eq

lemma rune_ok_2:
  assumes "194 \<le> a" "a \<le> 223" "128 \<le> b" "b \<le> 191"
  shows "rune_ok [of_nat a, of_nat b]"
  using assms by (simp add: rune_ok_defs)

lemma rune_ok_3:
  assumes "224 \<le> a" "a \<le> 239" "if a = 224 then 160 \<le> b else 128 \<le> b" "if a = 237 then b \<le> 159 else b \<le> 191"
    "128 \<le> c" "c \<le> 191"
  shows "rune_ok [of_nat a, of_nat b, of_nat c]"
proof -
  have "b < 256" using assms(4) by (auto split: if_splits)
  with assms show ?thesis by (simp add: rune_ok_defs split: if_splits)
qed

lemma rune_ok_4:
  assumes "240 \<le> a" "a \<le> 244" "if a = 240 then 144 \<le> b else 128 \<le> b" "if a = 244 then b \<le> 143 else b \<le> 191"
    "128 \<le> c" "c \<le> 191" "128 \<le> d" "d \<le> 191"
  shows "rune_ok [of_nat a, of_nat b, of_nat c, of_nat d]"
proof -
  have "b < 256" using assms(4) by (auto split: if_splits)
  with assms show ?thesis by (simp add: rune_ok_defs split: if_splits)
qed

lemma EncodeRune_ok: "rune_ok (EncodeRune r)"
proof -
  consider "r < 128" | "128 \<le> r" "r < 2048" | "2048 \<le> r" "r > 1114111 \<or> 55296 \<le> r \<and> r < 57344"
    | "2048 \<le> r" "r < 65536" "\<not> (55296 \<le> r \<and> r < 57344)" | "65536 \<le> r" "r \<le> 1114111" by linarith
  then show ?thesis
  proof cases
    case 1
    then show ?thesis by (simp add: EncodeRune_def rune_ok_ascii word_less_nat_alt byte_of_nat)
  next
    case 2
    then have "rune_ok [of_nat (192 + r div 64), of_nat (128 + r mod 64)]" by (intro rune_ok_2) linarith+
    with 2 show ?thesis by (simp add: EncodeRune_def)
  next
    case 3
    then show ?thesis by (simp add: EncodeRune_def rune_ok_error)
  next
    case 4
    have q: "r div 64 div 64 = r div 4096" by (simp add: div_mult2_eq [symmetric])
    have "r div 64 mod 64 \<le> 31" if "r div 4096 = 13"
    proof -
      from that have "r < 57344" by linarith
      with 4(3) have "r div 64 < 864" by linarith
      with that q show ?thesis using mult_div_mod_eq [of 64 "r div 64"] by linarith
    qed
    with 4 q have "rune_ok [of_nat (224 + r div 4096), of_nat (128 + r div 64 mod 64), of_nat (128 + r mod 64)]"
      by (intro rune_ok_3) (simp_all split: if_splits, linarith+)
    with 4 show ?thesis by (auto simp: EncodeRune_def)
  next
    case 5
    have "r div 64 div 64 = r div 4096" "r div 4096 div 64 = r div 262144" by (simp_all add: div_mult2_eq [symmetric])
    moreover have "r div 4096 mod 64 \<le> 15" if "r div 262144 = 4"
      using 5 that calculation(2) mult_div_mod_eq [of 64 "r div 4096"] by linarith
    ultimately have "rune_ok [of_nat (240 + r div 262144), of_nat (128 + r div 4096 mod 64), of_nat (128 + r div 64 mod 64),
        of_nat (128 + r mod 64)]"
      using 5 by (intro rune_ok_4) (simp_all split: if_splits, linarith+)
    with 5 show ?thesis by (simp add: EncodeRune_def)
  qed
qed

end
