(* ===== verification/Json.thy ===== *)
theory Json
  imports Utf8
begin

text \<open>
  What the sources use of the package encoding/json of Go 1.21, the release the build file names: encoding
  objects of strings and of integers, compactly and indented, and decoding. A text is cut into tokens; the
  grammar is the scanner of the package, a machine with a stack of open arrays and objects whose depth
  is limited to 10000. The errors of the package are not told apart.
\<close>

datatype json_error = InvalidJSON

subsection \<open>Encoding\<close>

text \<open>Lower-case hexadecimal digits, and the escapes of a rune. Without \<open>SetEscapeHTML(false)\<close> the
  characters \<open><\<close>, \<open>>\<close> and \<open>&\<close> are escaped as well.\<close>

definition hex_digit :: "nat \<Rightarrow> byte" where
  "hex_digit d = of_nat (if d < 10 then 48 + d else 87 + d)"

definition html_safe :: "byte \<Rightarrow> bool" where
  "html_safe b \<longleftrightarrow> 32 \<le> b \<and> b < 128 \<and> b \<notin> {34, 38, 60, 62, 92}"

definition quote_byte :: "byte \<Rightarrow> gostring" where
  "quote_byte b =
     (if html_safe b then [b]
      else if b = 92 \<or> b = 34 then [92, b]
      else if b = 10 then [92, 110]
      else if b = 13 then [92, 114]
      else if b = 9 then [92, 116]
      else [92, 117, 48, 48, hex_digit (unat b div 16), hex_digit (unat b mod 16)])"

definition quote_rune :: "gostring option \<Rightarrow> gostring" where
  "quote_rune p =
     (case p of
        None \<Rightarrow> 92 # bytes_of ''ufffd''
      | Some c \<Rightarrow>
          if hd c < 128 then quote_byte (hd c)
          else if c = [226, 128, 168] then 92 # bytes_of ''u2028''
          else if c = [226, 128, 169] then 92 # bytes_of ''u2029''
          else c)"

definition quote :: "gostring \<Rightarrow> gostring" where
  "quote s = 34 # concat (map quote_rune (runes s)) @ [34]"

text \<open>An object of members that are already encoded, with the white space before a member, before the closing
  brace and after a colon. The indented form of the package leaves an empty object as it is.\<close>

definition json_member :: "gostring \<Rightarrow> gostring \<Rightarrow> gostring \<times> gostring \<Rightarrow> gostring" where
  "json_member ws sep m = ws @ quote (fst m) @ 58 # sep @ snd m"

definition json_object :: "gostring \<Rightarrow> gostring \<Rightarrow> gostring \<Rightarrow> (gostring \<times> gostring) list \<Rightarrow> gostring" where
  "json_object ws close sep ms =
     (if ms = [] then [123, 125]
      else 123 # json_member ws sep (hd ms) @ concat (map (\<lambda>m. 44 # json_member ws sep m) (tl ms)) @ close @ [125])"

subsection \<open>Strings\<close>

definition hex_val :: "byte \<Rightarrow> nat option" where
  "hex_val b =
     (if within 48 57 b then Some (unat b - 48)
      else if within 97 102 b then Some (unat b - 87)
      else if within 65 70 b then Some (unat b - 55)
      else None)"

text \<open>Four hexadecimal digits, and an escape \<open>\uXXXX\<close>, as \<open>getu4\<close> reads them.\<close>

definition hex4 :: "gostring \<Rightarrow> (nat \<times> gostring) option" where
  "hex4 s =
     (case s of
        a # b # c # d # r \<Rightarrow>
          (case (hex_val a, hex_val b, hex_val c, hex_val d) of
             (Some x, Some y, Some z, Some w) \<Rightarrow> Some (((x * 16 + y) * 16 + z) * 16 + w, r)
           | _ \<Rightarrow> None)
      | _ \<Rightarrow> None)"

definition getu4 :: "gostring \<Rightarrow> (nat \<times> gostring) option" where
  "getu4 s = (if take 2 s = [92, 117] then hex4 (drop 2 s) else None)"

text \<open>What follows a backslash, with the text after it. Half a surrogate pair becomes \<open>U+FFFD\<close>.\<close>

definition escape :: "gostring \<Rightarrow> (gostring \<times> gostring) option" where
  "escape s =
     (case s of
        [] \<Rightarrow> None
      | e # r \<Rightarrow>
          if e \<in> {34, 92, 47} then Some ([e], r)
          else if e = 98 then Some ([8], r)
          else if e = 102 then Some ([12], r)
          else if e = 110 then Some ([10], r)
          else if e = 114 then Some ([13], r)
          else if e = 116 then Some ([9], r)
          else if e = 117 then
            (case hex4 r of
               None \<Rightarrow> None
             | Some (u, r1) \<Rightarrow>
                 if IsSurrogate u then
                   (case getu4 r1 of
                      None \<Rightarrow> Some (rune_error, r1)
                    | Some (u2, r2) \<Rightarrow>
                        (case surrogate_pair u u2 of
                           None \<Rightarrow> Some (rune_error, r1)
                         | Some p \<Rightarrow> Some (EncodeRune p, r2)))
                 else Some (EncodeRune u, r1))
          else None)"

lemma hex4_length: "hex4 s = Some (u, r) \<Longrightarrow> length r < length s"
  by (auto simp: hex4_def split: list.splits option.splits)

lemma getu4_length: "getu4 s = Some (u, r) \<Longrightarrow> length r < length s"
  using hex4_length [of "drop 2 s"] by (fastforce simp: getu4_def split: if_splits)

lemma escape_length: "escape s = Some (c, r) \<Longrightarrow> length r < length s"
  by (fastforce simp: escape_def dest: hex4_length getu4_length split: list.splits if_splits option.splits prod.splits)

definition prepend :: "'a list \<Rightarrow> ('a list \<times> 'b) option \<Rightarrow> ('a list \<times> 'b) option" where
  "prepend c = map_option (map_prod ((@) c) id)"

text \<open>The rest of a string literal, decoded, and the text after it. Control characters are refused, bytes
  that are not UTF-8 become \<open>U+FFFD\<close>.\<close>

function in_string :: "gostring \<Rightarrow> (gostring \<times> gostring) option" where
  "in_string [] = None"
| "in_string (b # s) =
     (if b = 34 then Some ([], s)
      else if b = 92 then (case escape s of None \<Rightarrow> None | Some (c, r) \<Rightarrow> prepend c (in_string r))
      else if b < 32 then None
      else let n = rune_len (b # s)
        in if n = 0 then prepend rune_error (in_string s)
           else prepend (take n (b # s)) (in_string (drop n (b # s))))"
  by pat_completeness auto
termination
  by (relation "measure length") (auto dest: escape_length)

declare in_string.simps(2) [simp del]

subsection \<open>Tokens\<close>

datatype token =
    LBrace | RBrace | LBrack | RBrack | Comma | Colon
  | TNull | TTrue | TFalse
  | TNum gostring
  | TStr gostring

definition is_digit :: "byte \<Rightarrow> bool" where
  "is_digit b \<longleftrightarrow> within 48 57 b"

definition json_space :: "byte \<Rightarrow> bool" where
  "json_space b \<longleftrightarrow> b \<in> {32, 9, 13, 10}"

text \<open>The lengths of the parts of a number; \<open>None\<close> where the grammar asks for a digit.\<close>

definition int_len :: "gostring \<Rightarrow> nat option" where
  "int_len s =
     (if s \<noteq> [] \<and> hd s = 48 then Some 1
      else if takeWhile is_digit s \<noteq> [] then Some (length (takeWhile is_digit s))
      else None)"

definition digits_len :: "gostring \<Rightarrow> nat option" where
  "digits_len s = (if takeWhile is_digit s = [] then None else Some (length (takeWhile is_digit s)))"

definition frac_len :: "gostring \<Rightarrow> nat option" where
  "frac_len s = (if s \<noteq> [] \<and> hd s = 46 then map_option Suc (digits_len (tl s)) else Some 0)"

definition exp_len :: "gostring \<Rightarrow> nat option" where
  "exp_len s =
     (if s \<noteq> [] \<and> (hd s = 101 \<or> hd s = 69) then
        (if tl s \<noteq> [] \<and> (hd (tl s) = 43 \<or> hd (tl s) = 45)
         then map_option (\<lambda>n. Suc (Suc n)) (digits_len (tl (tl s)))
         else map_option Suc (digits_len (tl s)))
      else Some 0)"

definition number_len :: "gostring \<Rightarrow> nat option" where
  "number_len s =
     (let m = (if s \<noteq> [] \<and> hd s = 45 then 1 else 0) in
      do {
        i \<leftarrow> int_len (drop m s);
        f \<leftarrow> frac_len (drop (m + i) s);
        e \<leftarrow> exp_len (drop (m + i + f) s);
        Some (m + i + f + e)
      })"

definition keyword :: "string \<Rightarrow> token \<Rightarrow> gostring \<Rightarrow> (token \<times> gostring) option" where
  "keyword w t s = (if prefix (bytes_of w) s then Some (t, drop (length w) s) else None)"

definition next_token :: "gostring \<Rightarrow> (token \<times> gostring) option" where
  "next_token s =
     (case s of
        [] \<Rightarrow> None
      | b # r \<Rightarrow>
          if b = 123 then Some (LBrace, r)
          else if b = 125 then Some (RBrace, r)
          else if b = 91 then Some (LBrack, r)
          else if b = 93 then Some (RBrack, r)
          else if b = 44 then Some (Comma, r)
          else if b = 58 then Some (Colon, r)
          else if b = 34 then map_option (map_prod TStr id) (in_string r)
          else if b = 110 then keyword ''null'' TNull s
          else if b = 116 then keyword ''true'' TTrue s
          else if b = 102 then keyword ''false'' TFalse s
          else map_option (\<lambda>n. (TNum (take n s), drop n s)) (number_len s))"

lemma prepend_Some: "prepend c m = Some (t, r) \<longleftrightarrow> (\<exists>t'. m = Some (t', r) \<and> t = c @ t')"
  by (auto simp: prepend_def)

lemma in_string_length: "in_string s = Some (t, r) \<Longrightarrow> length r < length s"
proof (induction s arbitrary: t r rule: in_string.induct)
  case (2 b s)
  then show ?case
    by (fastforce simp: in_string.simps(2) [of b s] prepend_Some Let_def dest: escape_length
        split: if_splits option.splits prod.splits)
qed simp

lemma number_len_pos: "number_len s = Some n \<Longrightarrow> 0 < n \<and> s \<noteq> []"
  by (cases s) (auto simp: number_len_def int_len_def Let_def bind_eq_Some_conv split: if_splits)

lemma next_token_length: "next_token s = Some (t, r) \<Longrightarrow> length r < length s"
  by (auto simp: next_token_def keyword_def bytes_of_def dest: in_string_length number_len_pos split: list.splits if_splits)

function tokens :: "gostring \<Rightarrow> token list option" where
  "tokens [] = Some []"
| "tokens (b # s) =
     (if json_space b then tokens s
      else case next_token (b # s) of None \<Rightarrow> None | Some (t, r) \<Rightarrow> map_option ((#) t) (tokens r))"
  by pat_completeness auto
termination
  by (relation "measure length") (auto dest: next_token_length)

declare tokens.simps(2) [simp del]

subsection \<open>Grammar\<close>

datatype json =
    Null
  | Bool bool
  | Num gostring
  | Str gostring
  | Arr "json list"
  | Obj "(gostring \<times> json) list"

text \<open>What the scanner expects next, and the arrays and objects that are open, the innermost first.\<close>

datatype expect = BeginValue | BeginValueOrEmpty | BeginKey | BeginKeyOrEmpty | AtColon | EndValue

datatype frame = InArr "json list" | InObj "(gostring \<times> json) list" | AtKey "(gostring \<times> json) list" gostring

datatype scan = Scanning expect "frame list" | Finished json | Failed

definition maxNestingDepth :: nat where
  "maxNestingDepth = 10000"

fun value_done :: "json \<Rightarrow> frame list \<Rightarrow> scan" where
  "value_done v [] = Finished v"
| "value_done v (InArr vs # st) = Scanning EndValue (InArr (vs @ [v]) # st)"
| "value_done v (AtKey ms k # st) = Scanning EndValue (InObj (ms @ [(k, v)]) # st)"
| "value_done v (InObj ms # st) = Failed"

definition push :: "frame \<Rightarrow> expect \<Rightarrow> frame list \<Rightarrow> scan" where
  "push f e st = (if length st < maxNestingDepth then Scanning e (f # st) else Failed)"

definition begin_value :: "token \<Rightarrow> frame list \<Rightarrow> scan" where
  "begin_value t st =
     (case t of
        TNull \<Rightarrow> value_done Null st
      | TTrue \<Rightarrow> value_done (Bool True) st
      | TFalse \<Rightarrow> value_done (Bool False) st
      | TNum n \<Rightarrow> value_done (Num n) st
      | TStr s \<Rightarrow> value_done (Str s) st
      | LBrack \<Rightarrow> push (InArr []) BeginValueOrEmpty st
      | LBrace \<Rightarrow> push (InObj []) BeginKeyOrEmpty st
      | _ \<Rightarrow> Failed)"

definition begin_key :: "token \<Rightarrow> frame list \<Rightarrow> scan" where
  "begin_key t st =
     (case (t, st) of (TStr k, InObj ms # st') \<Rightarrow> Scanning AtColon (AtKey ms k # st') | _ \<Rightarrow> Failed)"

definition end_value :: "token \<Rightarrow> frame list \<Rightarrow> scan" where
  "end_value t st =
     (case st of
        InArr vs # st' \<Rightarrow>
          if t = Comma then Scanning BeginValue st else if t = RBrack then value_done (Arr vs) st' else Failed
      | InObj ms # st' \<Rightarrow>
          if t = Comma then Scanning BeginKey st else if t = RBrace then value_done (Obj ms) st' else Failed
      | _ \<Rightarrow> Failed)"

fun scan_token :: "token \<Rightarrow> scan \<Rightarrow> scan" where
  "scan_token t (Scanning BeginValue st) = begin_value t st"
| "scan_token t (Scanning BeginValueOrEmpty st) = (if t = RBrack then end_value t st else begin_value t st)"
| "scan_token t (Scanning BeginKey st) = begin_key t st"
| "scan_token t (Scanning BeginKeyOrEmpty st) = (if t = RBrace then end_value t st else begin_key t st)"
| "scan_token t (Scanning AtColon st) = (if t = Colon then Scanning BeginValue st else Failed)"
| "scan_token t (Scanning EndValue st) = end_value t st"
| "scan_token t (Finished v) = Failed"
| "scan_token t Failed = Failed"

definition json_parse :: "gostring \<Rightarrow> json option" where
  "json_parse s =
     (case tokens s of
        None \<Rightarrow> None
      | Some ts \<Rightarrow> (case fold scan_token ts (Scanning BeginValue []) of Finished v \<Rightarrow> Some v | _ \<Rightarrow> None))"

subsection \<open>Strings survive\<close>

text \<open>The escapes of single bytes, checked for each of them.\<close>

lemma escape_byte: "b < 128 \<Longrightarrow> \<not> html_safe b \<Longrightarrow> \<exists>e. quote_byte b = 92 # e \<and> (\<forall>r. escape (e @ r) = Some ([b], r))"
proof -
  assume b: "b < 128" "\<not> html_safe b"
  consider "b = 92 \<or> b = 34 \<or> b = 10 \<or> b = 13 \<or> b = 9"
    | "quote_byte b = [92, 117, 48, 48, hex_digit (unat b div 16), hex_digit (unat b mod 16)]"
    using b(2) unfolding quote_byte_def by argo
  then show ?thesis
  proof cases
    case 1
    then show ?thesis by (auto simp: quote_byte_def html_safe_def escape_def)
  next
    case 2
    have "unat b < 128" using b(1) by (simp add: word_less_nat_alt)
    moreover have "hex_val (hex_digit d) = Some d" if "d < 16" for d
      using that by (auto simp: hex_val_def hex_digit_def within_def word_le_nat_alt byte_of_nat)
    moreover have "hex_val 48 = Some 0" by (simp add: hex_val_def within_def)
    ultimately have "hex4 ([48, 48, hex_digit (unat b div 16), hex_digit (unat b mod 16)] @ r) = Some (unat b, r)" for r
      by (simp add: hex4_def)
    moreover have "\<not> IsSurrogate (unat b)" "EncodeRune (unat b) = [b]"
      using \<open>unat b < 128\<close> by (simp_all add: IsSurrogate_def EncodeRune_def)
    ultimately show ?thesis unfolding 2 by (simp add: escape_def)
  qed
qed

lemma in_string_rune:
  assumes "rune_ok c" and "128 \<le> hd c"
  shows "in_string (c @ r) = prepend c (in_string r)"
proof -
  obtain b s where c: "c = b # s" using assms(1) by (cases c) (auto simp: rune_ok_def)
  with assms(2) have "b \<noteq> 34" "b \<noteq> 92" "\<not> b < 32" by (auto simp: word_le_nat_alt word_less_nat_alt)
  then show ?thesis using rune_len_append [OF assms(1), of r] c by (simp add: in_string.simps(2) Let_def)
qed

lemma in_string_escape: "escape s = Some (c, r) \<Longrightarrow> in_string (92 # s) = prepend c (in_string r)"
  by (simp add: in_string.simps(2))

lemma rune_ok_single: "rune_ok c \<Longrightarrow> hd c < 128 \<Longrightarrow> c = [hd c]"
  by (cases c) (auto simp: rune_ok_def rune_len_def rune_size_def)

lemma in_string_quote_rune:
  assumes "\<And>c. p = Some c \<Longrightarrow> rune_ok c"
  shows "in_string (quote_rune p @ r) = prepend (rune_text p) (in_string r)"
proof (cases p)
  case None
  have "escape (bytes_of ''ufffd'' @ r) = Some (rune_error, r)"
    by (simp add: bytes_of_def escape_def hex4_def hex_val_def within_def IsSurrogate_def EncodeRune_def rune_error_def)
  with None show ?thesis by (simp add: quote_rune_def rune_text_def in_string_escape)
next
  case (Some c)
  note c = assms [OF Some]
  consider "hd c < 128" "html_safe (hd c)" | "hd c < 128" "\<not> html_safe (hd c)"
    | "128 \<le> hd c" "c = [226, 128, 168]" | "128 \<le> hd c" "c = [226, 128, 169]"
    | "128 \<le> hd c" "quote_rune p = c"
    unfolding Some quote_rune_def by force
  then show ?thesis
  proof cases
    case 1
    then have q: "quote_rune p = [hd c]" "c = [hd c]" using rune_ok_single [OF c 1(1)] by (simp_all add: Some quote_rune_def quote_byte_def)
    have "rune_len (hd c # r) = 1" using rune_len_append [OF rune_ok_ascii [OF 1(1)], of r] by simp
    moreover have "hd c \<noteq> 34" "hd c \<noteq> 92" "\<not> hd c < 32" using 1(2) by (auto simp: html_safe_def)
    ultimately have "in_string (hd c # r) = prepend [hd c] (in_string r)" by (simp add: in_string.simps(2) Let_def)
    with q show ?thesis unfolding Some rune_text_def option.case by (metis append_Cons append_Nil)
  next
    case 2
    from escape_byte [OF this] obtain e where "quote_byte (hd c) = 92 # e" "\<forall>r. escape (e @ r) = Some ([hd c], r)" by blast
    with 2 in_string_escape [of "e @ r" "[hd c]" r] rune_ok_single [OF c 2(1)] show ?thesis
      by (simp add: Some quote_rune_def rune_text_def)
  next
    case 3
    have "escape (bytes_of ''u2028'' @ r) = Some (c, r)"
      by (simp add: 3 bytes_of_def escape_def hex4_def hex_val_def within_def IsSurrogate_def EncodeRune_def)
    with 3 in_string_escape show ?thesis by (simp add: Some quote_rune_def rune_text_def)
  next
    case 4
    have "escape (bytes_of ''u2029'' @ r) = Some (c, r)"
      by (simp add: 4 bytes_of_def escape_def hex4_def hex_val_def within_def IsSurrogate_def EncodeRune_def)
    with 4 in_string_escape show ?thesis by (simp add: Some quote_rune_def rune_text_def)
  next
    case 5
    with in_string_rune [OF c] show ?thesis by (simp add: Some rune_text_def)
  qed
qed

lemma prepend_prepend [simp]: "prepend a (prepend b m) = prepend (a @ b) m"
  by (cases m) (auto simp: prepend_def)

lemma in_string_quote_runes:
  "(\<And>c. Some c \<in> set ps \<Longrightarrow> rune_ok c) \<Longrightarrow>
    in_string (concat (map quote_rune ps) @ r) = prepend (concat (map rune_text ps)) (in_string r)"
proof (induction ps)
  case Nil
  then show ?case by (cases "in_string r") (auto simp: prepend_def)
next
  case (Cons p ps)
  then have "in_string (quote_rune p @ concat (map quote_rune ps) @ r) = prepend (rune_text p) (in_string (concat (map quote_rune ps) @ r))"
    by (intro in_string_quote_rune) auto
  with Cons show ?case by simp
qed

text \<open>A quoted string is read back with the bytes that are not UTF-8 replaced.\<close>

lemma next_token_quote: "next_token (quote s @ r) = Some (TStr (coerced s), r)"
proof -
  have "in_string (concat (map quote_rune (runes s)) @ 34 # r) = Some (coerced s, r)"
    using in_string_quote_runes [of "runes s" "34 # r"] runes_ok
    by (simp add: coerced_def in_string.simps(2) prepend_def)
  then show ?thesis by (simp add: quote_def next_token_def)
qed

text \<open>Whatever literal is read, the decoded string is valid UTF-8.\<close>

lemma utf8_ok_append: "rune_ok c \<Longrightarrow> utf8_ok (c @ s) = utf8_ok s"
  by (simp add: utf8_ok_def runes_append)

lemma escape_rune_ok: "escape s = Some (c, r) \<Longrightarrow> rune_ok c"
  using EncodeRune_ok rune_ok_error
  by (auto simp: escape_def intro!: rune_ok_ascii split: list.splits if_splits option.splits prod.splits)

lemma in_string_utf8: "in_string s = Some (t, r) \<Longrightarrow> utf8_ok t"
proof (induction s arbitrary: t r rule: in_string.induct)
  case (2 b s)
  let ?n = "rune_len (b # s)"
  from "2.prems" consider "t = []"
    | c r' t' where "escape s = Some (c, r')" "b \<noteq> 34" "b = 92" "in_string r' = Some (t', r)" "t = c @ t'"
    | t' where "?n = 0" "b \<noteq> 34" "b \<noteq> 92" "\<not> b < 32" "in_string s = Some (t', r)" "t = rune_error @ t'"
    | t' where "?n \<noteq> 0" "b \<noteq> 34" "b \<noteq> 92" "\<not> b < 32" "in_string (drop ?n (b # s)) = Some (t', r)" "t = take ?n (b # s) @ t'"
    by (auto simp: in_string.simps(2) [of b s] prepend_Some Let_def split: if_splits option.splits)
  then show ?case
  proof cases
    case (2 c r' t')
    with "2.IH"(1) [of "(c, r')" c r'] show ?thesis by (simp add: utf8_ok_append [OF escape_rune_ok])
  next
    case (3 t')
    with "2.IH"(2) show ?thesis by (simp add: utf8_ok_append rune_ok_error)
  next
    case (4 t')
    with "2.IH"(3) show ?thesis by (simp add: utf8_ok_append rune_ok_take)
  qed (simp add: utf8_ok_def)
qed simp

text \<open>So is every string of a decoded value.\<close>

fun json_utf8 :: "json \<Rightarrow> bool" where
  "json_utf8 (Str s) = utf8_ok s"
| "json_utf8 (Arr vs) = (\<forall>v \<in> set vs. json_utf8 v)"
| "json_utf8 (Obj ms) = (\<forall>m \<in> set ms. utf8_ok (fst m) \<and> json_utf8 (snd m))"
| "json_utf8 _ = True"

fun frame_utf8 :: "frame \<Rightarrow> bool" where
  "frame_utf8 (InArr vs) = json_utf8 (Arr vs)"
| "frame_utf8 (InObj ms) = json_utf8 (Obj ms)"
| "frame_utf8 (AtKey ms k) = (utf8_ok k \<and> json_utf8 (Obj ms))"

fun scan_utf8 :: "scan \<Rightarrow> bool" where
  "scan_utf8 (Scanning e st) = list_all frame_utf8 st"
| "scan_utf8 (Finished v) = json_utf8 v"
| "scan_utf8 Failed = True"

lemma value_done_utf8: "json_utf8 v \<Longrightarrow> list_all frame_utf8 st \<Longrightarrow> scan_utf8 (value_done v st)"
  by (cases "(v, st)" rule: value_done.cases) auto

lemma scan_token_utf8:
  assumes "\<And>s. t = TStr s \<Longrightarrow> utf8_ok s" and "scan_utf8 sc"
  shows "scan_utf8 (scan_token t sc)"
proof -
  have "scan_utf8 (begin_value t st)" if "list_all frame_utf8 st" for st
    using that assms(1) by (auto simp: begin_value_def push_def value_done_utf8 split: token.splits)
  moreover have "scan_utf8 (begin_key t st)" if "list_all frame_utf8 st" for st
    using that assms(1) by (fastforce simp: begin_key_def split: token.splits list.splits frame.splits)
  moreover have "scan_utf8 (end_value t st)" if "list_all frame_utf8 st" for st
    using that by (fastforce simp: end_value_def split: list.splits frame.splits intro!: value_done_utf8)
  ultimately show ?thesis using assms(2) by (cases "(t, sc)" rule: scan_token.cases) auto
qed

lemma next_token_utf8: "next_token s = Some (TStr x, r) \<Longrightarrow> utf8_ok x"
  by (auto simp: next_token_def keyword_def dest: in_string_utf8 split: list.splits if_splits)

lemma tokens_utf8: "tokens s = Some ts \<Longrightarrow> TStr x \<in> set ts \<Longrightarrow> utf8_ok x"
proof (induction s arbitrary: ts rule: tokens.induct)
  case (2 b s)
  then show ?case
    by (fastforce simp: tokens.simps(2) [of b s] dest: next_token_utf8 split: if_splits option.splits prod.splits)
qed simp

lemma fold_scan_utf8: "(\<And>x. TStr x \<in> set ts \<Longrightarrow> utf8_ok x) \<Longrightarrow> scan_utf8 sc \<Longrightarrow> scan_utf8 (fold scan_token ts sc)"
proof (induction ts arbitrary: sc)
  case (Cons t ts)
  have "scan_utf8 (scan_token t sc)" by (rule scan_token_utf8) (use Cons.prems in auto)
  with Cons show ?case by simp
qed simp

lemma json_parse_utf8: "json_parse s = Some j \<Longrightarrow> json_utf8 j"
  using fold_scan_utf8 [of _ "Scanning BeginValue []"] tokens_utf8
  by (fastforce simp: json_parse_def split: option.splits scan.splits)

subsection \<open>Objects survive\<close>

text \<open>\<open>lexes t tok\<close>: in front of a comma, a brace or white space the text \<open>t\<close> is the token \<open>tok\<close>.\<close>

definition ends :: "gostring \<Rightarrow> bool" where
  "ends r \<longleftrightarrow> r \<noteq> [] \<and> (hd r \<in> {44, 125} \<or> json_space (hd r))"

definition lexes :: "gostring \<Rightarrow> token \<Rightarrow> bool" where
  "lexes t tok \<longleftrightarrow> t \<noteq> [] \<and> \<not> json_space (hd t) \<and> (\<forall>r. ends r \<longrightarrow> next_token (t @ r) = Some (tok, r))"

lemma tokens_lexes: "lexes t tok \<Longrightarrow> ends r \<Longrightarrow> tokens (t @ r) = map_option ((#) tok) (tokens r)"
  by (cases t) (auto simp: lexes_def tokens.simps(2))

lemma tokens_space: "list_all json_space ws \<Longrightarrow> tokens (ws @ r) = tokens r"
  by (induction ws) (auto simp: tokens.simps(2))

lemma tokens_mark:
  "tokens (123 # r) = map_option ((#) LBrace) (tokens r)" "tokens (125 # r) = map_option ((#) RBrace) (tokens r)"
  "tokens (44 # r) = map_option ((#) Comma) (tokens r)" "tokens (58 # r) = map_option ((#) Colon) (tokens r)"
  by (simp_all add: tokens.simps(2) json_space_def next_token_def)

lemma tokens_quote: "tokens (quote s @ r) = map_option ((#) (TStr (coerced s))) (tokens r)"
  using next_token_quote [of s r] by (simp add: quote_def tokens.simps(2) json_space_def)

lemma lexes_quote: "lexes (quote s) (TStr (coerced s))"
  by (simp add: lexes_def next_token_quote) (simp add: quote_def json_space_def)

definition scalar :: "gostring \<Rightarrow> json \<Rightarrow> bool" where
  "scalar t v \<longleftrightarrow> (\<exists>tok. lexes t tok \<and> (\<forall>st. begin_value tok st = value_done v st))"

lemma scalar_quote: "scalar (quote s) (Str (coerced s))"
  using lexes_quote by (fastforce simp: scalar_def begin_value_def)

text \<open>The two layouts of an object, compact and indented, differ in their white space.\<close>

locale json_layout =
  fixes ws close sep :: gostring
  assumes ws_space: "list_all json_space ws"
    and close_space: "list_all json_space close"
    and sep_space: "list_all json_space sep"
begin

lemma tokens_member:
  assumes "lexes t tok" and "ends r"
  shows "tokens (json_member ws sep (k, t) @ r) = map_option (\<lambda>ts. TStr (coerced k) # Colon # tok # ts) (tokens r)"
  using tokens_lexes [OF assms] ws_space sep_space
  by (cases "tokens r") (simp_all add: json_member_def tokens_space tokens_quote tokens_mark)

lemma ends_close: "ends (close @ 125 # r)"
  using close_space by (cases close) (auto simp: ends_def)

lemma ends_rest: "ends (concat (map (\<lambda>m. 44 # json_member ws sep m) ms) @ close @ 125 # r)"
  using ends_close by (cases ms) (auto simp: ends_def)

lemma tokens_members:
  "\<forall>x \<in> set xs. lexes (snd (f x)) (tok x) \<Longrightarrow>
    tokens (concat (map (\<lambda>m. 44 # json_member ws sep m) (map f xs)) @ close @ [125]) =
      Some (concat (map (\<lambda>x. [Comma, TStr (coerced (fst (f x))), Colon, tok x]) xs) @ [RBrace])"
proof (induction xs)
  case Nil
  then show ?case using close_space by (simp add: tokens_space tokens_mark)
next
  case (Cons x xs)
  then show ?case
    using tokens_member [of "snd (f x)" "tok x" _ "fst (f x)", OF _ ends_rest [of "map f xs" "[]"]]
    by (simp add: tokens_mark)
qed

lemma tokens_object:
  assumes "\<forall>x \<in> set xs. lexes (snd (f x)) (tok x)"
  shows "tokens (json_object ws close sep (map f xs)) =
    Some (LBrace # tl (concat (map (\<lambda>x. [Comma, TStr (coerced (fst (f x))), Colon, tok x]) xs)) @ [RBrace])"
proof (cases xs)
  case Nil
  then show ?thesis by (simp add: json_object_def tokens_mark)
next
  case (Cons x ys)
  then show ?thesis
    using assms tokens_members [of ys f tok]
      tokens_member [of "snd (f x)" "tok x" _ "fst (f x)", OF _ ends_rest [of "map f ys" "[]"]]
    by (simp add: json_object_def tokens_mark)
qed

end

lemma scan_members:
  "\<forall>m \<in> set ms. \<forall>st. begin_value (tok m) st = value_done (g m) st \<Longrightarrow>
    fold scan_token (concat (map (\<lambda>m. [Comma, TStr (k m), Colon, tok m]) ms) @ [RBrace]) (Scanning EndValue [InObj acc]) =
      Finished (Obj (acc @ map (\<lambda>m. (k m, g m)) ms))"
  by (induction ms arbitrary: acc) (simp_all add: end_value_def begin_key_def)

lemma scan_object:
  assumes "\<forall>m \<in> set ms. \<forall>st. begin_value (tok m) st = value_done (g m) st"
  shows "fold scan_token (LBrace # tl (concat (map (\<lambda>m. [Comma, TStr (k m), Colon, tok m]) ms)) @ [RBrace]) (Scanning BeginValue []) =
    Finished (Obj (map (\<lambda>m. (k m, g m)) ms))"
proof (cases ms)
  case Nil
  then show ?thesis by (simp add: begin_value_def push_def maxNestingDepth_def end_value_def)
next
  case (Cons m ms')
  then show ?thesis
    using assms scan_members [of ms' tok g k "[(k m, g m)]"]
    by (simp add: begin_value_def push_def maxNestingDepth_def begin_key_def)
qed

context json_layout
begin

lemma parse_object:
  assumes "\<forall>x \<in> set xs. scalar (snd (f x)) (g x)"
  shows "json_parse (json_object ws close sep (map f xs)) = Some (Obj (map (\<lambda>x. (coerced (fst (f x)), g x)) xs))"
proof -
  obtain tok where tok: "\<forall>x \<in> set xs. lexes (snd (f x)) (tok x) \<and> (\<forall>st. begin_value (tok x) st = value_done (g x) st)"
    using assms unfolding scalar_def by metis
  then show ?thesis
    unfolding json_parse_def using tokens_object [of xs f tok] scan_object [of xs tok g "\<lambda>x. coerced (fst (f x))"] by simp
qed

end

interpretation compact: json_layout "[]" "[]" "[]"
  by unfold_locales simp_all

interpretation indented: json_layout "[10, 32, 32]" "[10]" "[32]"
  by unfold_locales (simp_all add: json_space_def)

subsection \<open>Numbers survive\<close>

lemma dec_nat_zero: "hd (bytes_of (dec_nat m)) = 48 \<Longrightarrow> m = 0"
proof (induction m rule: dec_nat.induct)
  case (1 m)
  show ?case
  proof (cases "m < 10")
    case True
    with 1(2) show ?thesis
      using digit_bounds [OF True] by (simp add: dec_nat.simps [of m] bytes_of_def of_char_digit)
  next
    case False
    with 1(2) have "hd (bytes_of (dec_nat (m div 10))) = 48"
      using dec_nat_nonempty [of "m div 10"] by (simp add: dec_nat.simps [of m] bytes_of_append)
    with 1(1) [OF False] False show ?thesis by simp
  qed
qed

lemma ends_number: "ends r \<Longrightarrow> r \<noteq> [] \<and> \<not> is_digit (hd r) \<and> hd r \<noteq> 46 \<and> hd r \<noteq> 101 \<and> hd r \<noteq> 69"
  by (auto simp: ends_def json_space_def is_digit_def within_def)

lemma int_len_dec:
  assumes "ends r"
  shows "int_len (bytes_of (dec_nat m) @ r) = Some (length (bytes_of (dec_nat m)))"
proof -
  let ?d = "bytes_of (dec_nat m)"
  have "takeWhile is_digit (?d @ r) = ?d"
  proof -
    have "\<forall>b \<in> set ?d. is_digit b" using dec_nat_digits by (auto simp: is_digit_def within_def)
    then have "takeWhile is_digit (?d @ r) = ?d @ takeWhile is_digit r" by simp
    also have "takeWhile is_digit r = []" using ends_number [OF assms] by (cases r) auto
    finally show ?thesis by simp
  qed
  moreover have "?d = [48]" if "hd ?d = 48"
    using dec_nat_zero [OF that] of_char_digit [of 0] by (simp add: dec_nat.simps bytes_of_def)
  ultimately show ?thesis using dec_nat_nonempty [of m] by (auto simp: int_len_def)
qed

lemma number_len_fmt_int:
  assumes "ends r"
  shows "number_len (bytes_of (fmt_int n) @ r) = Some (length (bytes_of (fmt_int n)))"
proof -
  have tail: "frac_len r = Some 0" "exp_len r = Some 0" using ends_number [OF assms] by (simp_all add: frac_len_def exp_len_def)
  show ?thesis
  proof (cases "n < 0")
    case True
    then show ?thesis using int_len_dec [OF assms, of "nat (- n)"] tail by (simp add: number_len_def fmt_int_cases)
  next
    case False
    then show ?thesis
      using int_len_dec [OF assms, of "nat n"] tail hd_dec_nat [of "nat n"] dec_nat_nonempty [of "nat n"]
      by (simp add: number_len_def fmt_int_cases)
  qed
qed

lemma hd_fmt_int: "hd (bytes_of (fmt_int n)) = 45 \<or> is_digit (hd (bytes_of (fmt_int n)))"
  using dec_nat_digits [OF hd_in_set [OF dec_nat_nonempty [of "nat n"]]] by (auto simp: fmt_int_cases is_digit_def within_def)

lemma scalar_fmt_int: "scalar (bytes_of (fmt_int n)) (Num (bytes_of (fmt_int n)))"
proof -
  let ?d = "bytes_of (fmt_int n)"
  obtain b s where d: "?d = b # s" using fmt_int_nonempty [of n] by (cases ?d) auto
  have b: "b = 45 \<or> 48 \<le> b \<and> b \<le> 57" using hd_fmt_int [of n] d by (simp add: is_digit_def within_def)
  then have "\<not> json_space b" "b \<notin> {123, 125, 91, 93, 44, 58, 34, 110, 116, 102}"
    by (auto simp: json_space_def word_le_nat_alt)
  moreover from this have "next_token (?d @ r) = Some (TNum ?d, r)" if "ends r" for r
    using number_len_fmt_int [OF that, of n] d by (simp add: next_token_def)
  ultimately have "lexes ?d (TNum ?d)" using d by (simp add: lexes_def)
  then show ?thesis by (auto simp: scalar_def begin_value_def)
qed

subsection \<open>Truncated objects\<close>

text \<open>A text that starts an object and has no closing brace is no value.\<close>

lemma hex4_sub: "hex4 s = Some (u, r) \<Longrightarrow> set r \<subseteq> set s"
  by (auto simp: hex4_def split: list.splits option.splits)

lemma getu4_sub: "getu4 s = Some (u, r) \<Longrightarrow> set r \<subseteq> set s"
  using hex4_sub [of "drop 2 s"] set_drop_subset [of 2 s] by (fastforce simp: getu4_def split: if_splits)

lemma escape_sub: "escape s = Some (c, r) \<Longrightarrow> set r \<subseteq> set s"
  by (fastforce simp: escape_def dest: hex4_sub getu4_sub split: list.splits if_splits option.splits prod.splits)

lemma in_string_sub: "in_string s = Some (t, r) \<Longrightarrow> set r \<subseteq> set s"
proof (induction s arbitrary: t r rule: in_string.induct)
  case (2 b s)
  then show ?case
    using set_drop_subset [of "rune_len (b # s)" "b # s"]
    by (fastforce simp: in_string.simps(2) [of b s] prepend_Some Let_def dest: escape_sub
        split: if_splits option.splits prod.splits)
qed simp

lemma next_token_sub: "next_token s = Some (t, r) \<Longrightarrow> set r \<subseteq> set s"
  using set_drop_subset
  by (fastforce simp: next_token_def keyword_def dest: in_string_sub split: list.splits if_splits)

lemma next_token_RBrace: "next_token s = Some (RBrace, r) \<Longrightarrow> 125 \<in> set s"
  by (auto simp: next_token_def keyword_def split: list.splits if_splits)

lemma tokens_RBrace: "tokens s = Some ts \<Longrightarrow> RBrace \<in> set ts \<Longrightarrow> 125 \<in> set s"
proof (induction s arbitrary: ts rule: tokens.induct)
  case (2 b s)
  show ?case
  proof (cases "json_space b")
    case True
    with 2 show ?thesis by (auto simp: tokens.simps(2) [of b s])
  next
    case False
    with "2.prems"(1) obtain t r ts' where "next_token (b # s) = Some (t, r)" "tokens r = Some ts'" "ts = t # ts'"
      by (auto simp: tokens.simps(2) [of b s] split: option.splits)
    with 2 False next_token_RBrace next_token_sub show ?thesis by fastforce
  qed
qed simp

fun is_array :: "frame \<Rightarrow> bool" where
  "is_array (InArr vs) = True"
| "is_array f = False"

fun in_object :: "scan \<Rightarrow> bool" where
  "in_object (Scanning e st) = (st \<noteq> [] \<and> \<not> is_array (last st))"
| "in_object (Finished v) = False"
| "in_object Failed = True"

lemma value_done_in_object: "st \<noteq> [] \<Longrightarrow> \<not> is_array (last st) \<Longrightarrow> in_object (value_done v st)"
  by (cases "(v, st)" rule: value_done.cases) auto

lemma scan_in_object:
  assumes "t \<noteq> RBrace" and "in_object sc"
  shows "in_object (scan_token t sc)"
proof -
  have "in_object (begin_value t st)" if "st \<noteq> []" "\<not> is_array (last st)" for st
    using that by (cases t) (simp_all add: begin_value_def value_done_in_object push_def)
  moreover have "in_object (begin_key t st)" if "st \<noteq> []" "\<not> is_array (last st)" for st
    using that by (auto simp: begin_key_def split: token.splits list.splits frame.splits if_splits)
  moreover have "in_object (end_value t st)" if "st \<noteq> []" "\<not> is_array (last st)" for st
    using that assms(1) by (auto simp: end_value_def value_done_in_object split: list.splits frame.splits if_splits)
  ultimately show ?thesis using assms by (cases "(t, sc)" rule: scan_token.cases) auto
qed

lemma fold_in_object: "RBrace \<notin> set ts \<Longrightarrow> in_object sc \<Longrightarrow> in_object (fold scan_token ts sc)"
proof (induction ts arbitrary: sc)
  case (Cons t ts)
  then have "in_object (scan_token t sc)" by (intro scan_in_object) auto
  with Cons show ?case by simp
qed simp

lemma parse_unclosed:
  assumes "125 \<notin> set s"
  shows "json_parse (123 # s) = None"
proof (cases "tokens s")
  case (Some ts)
  have "in_object (Scanning BeginKeyOrEmpty [InObj []])" by simp
  with Some assms have "in_object (fold scan_token ts (Scanning BeginKeyOrEmpty [InObj []]))"
    by (intro fold_in_object) (auto dest: tokens_RBrace)
  with Some show ?thesis
    by (auto simp: json_parse_def tokens_mark begin_value_def push_def maxNestingDepth_def split: scan.splits)
qed (simp add: json_parse_def tokens_mark)

lemma parse_truncated:
  assumes "\<forall>m \<in> set ms. 125 \<notin> set (json_member ws sep m)" and "125 \<notin> set close" and "ms \<noteq> []"
    and "k < length (json_object ws close sep ms)"
  shows "json_parse (take k (json_object ws close sep ms)) = None"
proof -
  obtain m ms' where ms: "ms = m # ms'" using assms(3) by (cases ms) auto
  let ?t = "json_member ws sep m @ concat (map (\<lambda>m. 44 # json_member ws sep m) ms') @ close"
  have t: "json_object ws close sep ms = 123 # ?t @ [125]" by (simp add: ms json_object_def)
  have "125 \<notin> set ?t" using assms(1,2) by (auto simp: ms)
  then have "125 \<notin> set (take j ?t)" for j by (meson in_set_takeD)
  then have "json_parse (123 # take j ?t) = None" for j by (rule parse_unclosed)
  with assms(4) show ?thesis unfolding t by (cases k) (auto simp: json_parse_def)
qed

end
