(* ===== verification/Settings.thy ===== *)
theory Settings
  imports Sinks Json
begin

text \<open>
  internal/config/config.go: the tunable parameters, their validation, and the JSON file they are kept
  in, with the path that \<open>filepath.Join\<close> gives it. \<open>os.WriteFile\<close> creates the file and writes it, without a
  sync.
\<close>

record raft_config =
  ElectionTimeoutMin :: int
  ElectionTimeoutMax :: int
  HeartbeatInterval :: int
  MaxEntriesPerAppend :: int
  SnapshotThreshold :: int

definition config_Default :: raft_config where
  "config_Default = \<lparr>ElectionTimeoutMin = 10, ElectionTimeoutMax = 20, HeartbeatInterval = 3,
     MaxEntriesPerAppend = 100, SnapshotThreshold = 1000\<rparr>"

text \<open>The errors that wrap \<open>ErrInvalid\<close>, by their text.\<close>

datatype invalid =
    MinNotPositive
  | MaxBelowMin
  | HeartbeatNotPositive
  | HeartbeatTooLong
  | MaxEntriesNotPositive
  | ThresholdNotPositive

datatype config_error = ErrInvalid invalid | ConfigFile os_error | ConfigJSON json_error

definition Validate :: "raft_config \<Rightarrow> invalid err" where
  "Validate c =
     (if ElectionTimeoutMin c \<le> 0 then Some MinNotPositive
      else if ElectionTimeoutMax c < ElectionTimeoutMin c then Some MaxBelowMin
      else if HeartbeatInterval c \<le> 0 then Some HeartbeatNotPositive
      else if HeartbeatInterval c \<ge> ElectionTimeoutMin c then Some HeartbeatTooLong
      else if MaxEntriesPerAppend c \<le> 0 then Some MaxEntriesNotPositive
      else if SnapshotThreshold c \<le> 0 then Some ThresholdNotPositive
      else None)"

subsection \<open>Paths\<close>

text \<open>\<open>filepath.Clean\<close> of a slash-separated path: empty components and dots go, two dots take the component
  before them with them, or are dropped at the root.\<close>

fun split_path :: "string \<Rightarrow> string list" where
  "split_path [] = [[]]"
| "split_path (c # p) =
     (if c = CHR ''/'' then [] # split_path p
      else (case split_path p of [] \<Rightarrow> [[c]] | q # qs \<Rightarrow> (c # q) # qs))"

fun join_path :: "string list \<Rightarrow> string" where
  "join_path [] = []"
| "join_path [q] = q"
| "join_path (q # qs) = q @ ''/'' @ join_path qs"

definition rooted :: "string \<Rightarrow> bool" where
  "rooted p \<longleftrightarrow> p \<noteq> [] \<and> hd p = CHR ''/''"

definition clean_step :: "bool \<Rightarrow> string \<Rightarrow> string list \<Rightarrow> string list" where
  "clean_step r q out =
     (if q = [] \<or> q = ''.'' then out
      else if q = ''..'' then
        (case out of
           [] \<Rightarrow> if r then [] else [q]
         | x # xs \<Rightarrow> if x = ''..'' then q # out else xs)
      else q # out)"

definition clean_parts :: "string \<Rightarrow> string list" where
  "clean_parts p = rev (fold (clean_step (rooted p)) (split_path p) [])"

definition Clean :: "string \<Rightarrow> string" where
  "Clean p =
     (let out = (if rooted p then ''/'' else []) @ join_path (clean_parts p) in if out = [] then ''.'' else out)"

text \<open>\<open>filepath.Join\<close> of two elements: empty ones at the front are left out.\<close>

definition filepath_Join :: "string \<Rightarrow> string \<Rightarrow> string" where
  "filepath_Join dir name =
     (if dir \<noteq> [] then Clean (join_path [dir, name]) else if name \<noteq> [] then Clean name else [])"

definition config_path :: "string \<Rightarrow> string" where
  "config_path dir = filepath_Join dir ''config.json''"

subsection \<open>The file\<close>

text \<open>\<open>json.MarshalIndent\<close> of the settings, by the names of the fields.\<close>

definition config_members :: "raft_config \<Rightarrow> (string \<times> int) list" where
  "config_members c =
     [(''election_timeout_min'', ElectionTimeoutMin c), (''election_timeout_max'', ElectionTimeoutMax c),
      (''heartbeat_interval'', HeartbeatInterval c), (''max_entries_per_append'', MaxEntriesPerAppend c),
      (''snapshot_threshold'', SnapshotThreshold c)]"

definition config_json :: "raft_config \<Rightarrow> gostring" where
  "config_json c =
     json_object [10, 32, 32] [10] [32] (map (\<lambda>m. (bytes_of (fst m), bytes_of (fmt_int (snd m)))) (config_members c))"

definition marshal_config :: "raft_config \<Rightarrow> json_error + gostring" where
  "marshal_config c = Inr (config_json c)"

text \<open>
  \<open>json.Unmarshal\<close> into the settings. A member belongs to the field with its name, or else to the one whose
  name it matches without regard to case; members that match none are ignored, and so is null. The names are
  ASCII, and the only other runes that fold to ASCII are the long s and the Kelvin sign.
\<close>

fun fold_name :: "gostring \<Rightarrow> gostring" where
  "fold_name [] = []"
| "fold_name (b # s) =
     (if within 97 122 b then (b - 32) # fold_name s
      else if b = 197 \<and> take 1 s = [191] then 83 # fold_name (drop 1 s)
      else if b = 226 \<and> take 2 s = [132, 170] then 75 # fold_name (drop 2 s)
      else b # fold_name s)"

definition config_fields :: "(string \<times> (int \<Rightarrow> raft_config \<Rightarrow> raft_config)) list" where
  "config_fields =
     [(''election_timeout_min'', \<lambda>v c. c\<lparr>ElectionTimeoutMin := v\<rparr>),
      (''election_timeout_max'', \<lambda>v c. c\<lparr>ElectionTimeoutMax := v\<rparr>),
      (''heartbeat_interval'', \<lambda>v c. c\<lparr>HeartbeatInterval := v\<rparr>),
      (''max_entries_per_append'', \<lambda>v c. c\<lparr>MaxEntriesPerAppend := v\<rparr>),
      (''snapshot_threshold'', \<lambda>v c. c\<lparr>SnapshotThreshold := v\<rparr>)]"

definition config_field :: "gostring \<Rightarrow> (int \<Rightarrow> raft_config \<Rightarrow> raft_config) option" where
  "config_field key =
     (case find (\<lambda>f. bytes_of (fst f) = key) config_fields of
        Some f \<Rightarrow> Some (snd f)
      | None \<Rightarrow> map_option snd (find (\<lambda>f. fold_name (bytes_of (fst f)) = fold_name key) config_fields))"

fun put_fields :: "(gostring \<times> json) list \<Rightarrow> raft_config \<Rightarrow> json_error + raft_config" where
  "put_fields [] c = Inr c"
| "put_fields ((k, v) # ms) c =
     (case config_field k of
        None \<Rightarrow> put_fields ms c
      | Some set_to \<Rightarrow>
          (case v of
             Null \<Rightarrow> put_fields ms c
           | Num n \<Rightarrow> (case ParseInt n of Inl _ \<Rightarrow> Inl InvalidJSON | Inr i \<Rightarrow> put_fields ms (set_to i c))
           | _ \<Rightarrow> Inl InvalidJSON))"

definition config_zero :: raft_config where
  "config_zero = \<lparr>ElectionTimeoutMin = 0, ElectionTimeoutMax = 0, HeartbeatInterval = 0, MaxEntriesPerAppend = 0,
     SnapshotThreshold = 0\<rparr>"

definition unmarshal_config :: "gostring \<Rightarrow> json_error + raft_config" where
  "unmarshal_config data =
     (case json_parse data of
        Some Null \<Rightarrow> Inr config_zero
      | Some (Obj ms) \<Rightarrow> put_fields ms config_zero
      | _ \<Rightarrow> Inl InvalidJSON)"

definition os_WriteFile :: "string \<Rightarrow> byte list \<Rightarrow> (disk, os_error) io_act" where
  "os_WriteFile path bs = then_do (os_Create path) (file_Write path bs)"

definition config_Save :: "string \<Rightarrow> raft_config \<Rightarrow> disk \<Rightarrow> config_error err \<times> disk" where
  "config_Save dir c d =
     (case marshal_config c of
        Inl e \<Rightarrow> (Some (ConfigJSON e), d)
      | Inr data \<Rightarrow> (case os_WriteFile (config_path dir) data d of (r, d') \<Rightarrow> (map_option ConfigFile r, d')))"

definition config_Load :: "string \<Rightarrow> disk \<Rightarrow> config_error + raft_config" where
  "config_Load dir d =
     (case os_Open (config_path dir) d of
        Inl NotExist \<Rightarrow> Inr config_Default
      | Inl e \<Rightarrow> Inl (ConfigFile e)
      | Inr bs \<Rightarrow>
          (case unmarshal_config bs of
             Inl e \<Rightarrow> Inl (ConfigJSON e)
           | Inr c \<Rightarrow> (case Validate c of Some e \<Rightarrow> Inl (ErrInvalid e) | None \<Rightarrow> Inr c)))"

subsection \<open>Paths name files\<close>

lemma split_path_nonempty: "split_path p \<noteq> []"
  by (induction p) (auto split: list.splits)

lemma split_path_slash: "split_path (p @ CHR ''/'' # q) = split_path p @ split_path q"
proof (induction p)
  case (Cons c p)
  then show ?case using split_path_nonempty [of p] by (auto split: list.splits)
qed simp

lemma split_path_plain: "CHR ''/'' \<notin> set q \<Longrightarrow> split_path q = [q]"
  by (induction q) auto

text \<open>The file stands after the cleaned components of the directory, however that is spelled.\<close>

lemma config_path_parts:
  "config_path dir = (if rooted dir then ''/'' else []) @ join_path (clean_parts dir @ [''config.json''])"
proof -
  let ?f = "''config.json''"
  have f: "split_path ?f = [?f]" "clean_step r ?f out = ?f # out" "\<not> rooted ?f" for r out
    by (simp_all add: split_path_plain clean_step_def rooted_def)
  have join: "join_path (qs @ [?f]) \<noteq> []" for qs by (cases qs rule: join_path.cases) auto
  show ?thesis
  proof (cases "dir = []")
    case True
    with f show ?thesis
      by (simp add: config_path_def filepath_Join_def Clean_def clean_parts_def rooted_def clean_step_def Let_def)
  next
    case False
    then have "rooted (dir @ CHR ''/'' # ?f) = rooted dir" by (simp add: rooted_def)
    moreover from this have "clean_parts (dir @ CHR ''/'' # ?f) = clean_parts dir @ [?f]"
      unfolding clean_parts_def split_path_slash f by (simp add: f)
    ultimately show ?thesis using False join by (simp add: config_path_def filepath_Join_def Clean_def Let_def)
  qed
qed

subsection \<open>Settings survive\<close>

text \<open>The constraints \<open>Validate\<close> checks, as one condition.\<close>

definition usable :: "raft_config \<Rightarrow> bool" where
  "usable c \<longleftrightarrow> 0 < HeartbeatInterval c \<and> HeartbeatInterval c < ElectionTimeoutMin c \<and>
     ElectionTimeoutMin c \<le> ElectionTimeoutMax c \<and> 0 < MaxEntriesPerAppend c \<and> 0 < SnapshotThreshold c"

lemma Validate_None: "Validate c = None \<longleftrightarrow> usable c"
  by (auto simp: Validate_def usable_def)

lemma usable_Default: "usable config_Default"
  by (simp add: usable_def config_Default_def)

text \<open>\<open>Load\<close> returns only usable settings. Whatever the file holds, a configuration that \<open>Load\<close> returns without
  an error has a positive heartbeat interval below the minimal election timeout, a nonempty timeout
  range and positive limits; a directory without a file gives the defaults.\<close>

theorem config_Load_usable:
  "(\<forall>c. config_Load dir d = Inr c \<longrightarrow> usable c) \<and>
   (files d (config_path dir) = None \<longrightarrow> config_Load dir d = Inr config_Default)"
  using usable_Default
  by (auto simp: config_Load_def os_Open_def Validate_None split: option.splits sum.splits os_error.splits)

lemma os_WriteFile_cases:
  assumes "os_WriteFile path bs d = (r, d')" and "openable d"
  shows "r = None \<and> os_Open path d' = Inr bs \<or> r = Some PermissionDenied \<and> d' = d \<or>
    r = Some NoSpace \<and> (\<exists>k < length bs. os_Open path d' = Inr (take k bs))"
  using assms
  by (auto simp: os_WriteFile_def then_do_def os_Create_def file_Write_def os_Open_def mget_def Let_def split: if_splits)

text \<open>Go's \<open>int\<close> has 64 bits.\<close>

definition int64 :: "int \<Rightarrow> bool" where
  "int64 i \<longleftrightarrow> - (2 ^ 63) \<le> i \<and> i < 2 ^ 63"

lemma ParseInt_int64: "int64 i \<Longrightarrow> ParseInt (bytes_of (fmt_int i)) = Inr i"
  by (simp add: ParseInt_fmt_int int64_def)

lemma config_field_exact:
  "config_field (bytes_of ''election_timeout_min'') = Some (\<lambda>v c. c\<lparr>ElectionTimeoutMin := v\<rparr>)"
  "config_field (bytes_of ''election_timeout_max'') = Some (\<lambda>v c. c\<lparr>ElectionTimeoutMax := v\<rparr>)"
  "config_field (bytes_of ''heartbeat_interval'') = Some (\<lambda>v c. c\<lparr>HeartbeatInterval := v\<rparr>)"
  "config_field (bytes_of ''max_entries_per_append'') = Some (\<lambda>v c. c\<lparr>MaxEntriesPerAppend := v\<rparr>)"
  "config_field (bytes_of ''snapshot_threshold'') = Some (\<lambda>v c. c\<lparr>SnapshotThreshold := v\<rparr>)"
  by (simp_all add: config_field_def config_fields_def bytes_of_def)

lemma config_names: "m \<in> set (config_members c) \<Longrightarrow> coerced (bytes_of (fst m)) = bytes_of (fst m) \<and> 125 \<notin> set (quote (bytes_of (fst m)))"
proof -
  assume "m \<in> set (config_members c)"
  then have "fst m \<in> set (map fst (config_members config_Default))" by (auto simp: config_members_def)
  moreover have "\<forall>k \<in> set (map fst (config_members config_Default)). coerced (bytes_of k) = bytes_of k \<and> 125 \<notin> set (quote (bytes_of k))"
    by code_simp
  ultimately show ?thesis by blast
qed

lemma unmarshal_config_json:
  assumes "\<forall>m \<in> set (config_members c). int64 (snd m)"
  shows "unmarshal_config (config_json c) = Inr c"
proof -
  have "json_parse (config_json c) = Some (Obj (map (\<lambda>m. (coerced (bytes_of (fst m)), Num (bytes_of (fmt_int (snd m))))) (config_members c)))"
    unfolding config_json_def
    using indented.parse_object [of "config_members c" "\<lambda>m. (bytes_of (fst m), bytes_of (fmt_int (snd m)))"
        "\<lambda>m. Num (bytes_of (fmt_int (snd m)))"] by (simp add: scalar_fmt_int)
  also have "map (\<lambda>m. (coerced (bytes_of (fst m)), Num (bytes_of (fmt_int (snd m))))) (config_members c) =
      map (\<lambda>m. (bytes_of (fst m), Num (bytes_of (fmt_int (snd m))))) (config_members c)"
    using config_names by simp
  finally show ?thesis
    using assms unfolding unmarshal_config_def config_members_def
    by (simp add: config_field_exact ParseInt_int64 config_zero_def)
qed

text \<open>C36: Saved settings come back. Settings that \<open>Save\<close> stored without an error are returned by \<open>Load\<close> when they are usable, and
  rejected with the error of \<open>Validate\<close> when they are not, because \<open>Save\<close> does not validate. The
  directory may be spelled differently, as long as its cleaned components are the same.\<close>

theorem config_Save_Load:
  assumes "\<forall>m \<in> set (config_members c). int64 (snd m)" and "openable d" and "config_Save dir c d = (None, d')"
    and "rooted dir' = rooted dir" and "clean_parts dir' = clean_parts dir"
  shows "config_Load dir' d' = (case Validate c of None \<Rightarrow> Inr c | Some e \<Rightarrow> Inl (ErrInvalid e))"
proof -
  have "os_WriteFile (config_path dir) (config_json c) d = (None, d')"
    using assms(3) by (auto simp: config_Save_def marshal_config_def split: prod.splits)
  from os_WriteFile_cases [OF this assms(2)] have "os_Open (config_path dir) d' = Inr (config_json c)" by simp
  moreover have "config_path dir' = config_path dir" using assms(4,5) by (simp add: config_path_parts)
  ultimately show ?thesis using unmarshal_config_json [OF assms(1)] by (simp add: config_Load_def)
qed

lemma config_json_open:
  assumes "k < length (config_json c)"
  shows "json_parse (take k (config_json c)) = None"
  unfolding config_json_def
proof (rule parse_truncated)
  have "b = 45 \<or> 48 \<le> b \<and> b \<le> 57" if "b \<in> set (bytes_of (fmt_int i))" for b i
    using that dec_nat_digits by (auto simp: fmt_int_cases split: if_splits)
  then have "125 \<notin> set (bytes_of (fmt_int i))" for i by (fastforce simp: word_le_nat_alt)
  then show "\<forall>m \<in> set (map (\<lambda>m. (bytes_of (fst m), bytes_of (fmt_int (snd m)))) (config_members c)).
      125 \<notin> set (json_member [10, 32, 32] [32] m)"
    using config_names by (auto simp: json_member_def)
qed (use assms in \<open>simp_all add: config_json_def\<close>, simp add: config_members_def)

text \<open>C37: A failed \<open>Save\<close>. When the file cannot be opened nothing changes; when the disk is full the old settings are
  gone, but \<open>Load\<close> reports the damage: however much was written, it is never taken for settings.\<close>

theorem config_Save_fails:
  assumes "openable d" and "config_Save dir c d = (Some e, d')"
  shows "e = ConfigFile PermissionDenied \<and> d' = d \<or>
    e = ConfigFile NoSpace \<and> config_Load dir d' = Inl (ConfigJSON InvalidJSON)"
proof -
  obtain r where r: "os_WriteFile (config_path dir) (config_json c) d = (Some r, d')" "e = ConfigFile r"
    using assms(2) by (auto simp: config_Save_def marshal_config_def split: prod.splits)
  from os_WriteFile_cases [OF r(1) assms(1)] consider "r = PermissionDenied" "d' = d"
    | k where "r = NoSpace" "k < length (config_json c)" "os_Open (config_path dir) d' = Inr (take k (config_json c))"
    by auto
  then show ?thesis
  proof cases
    case (2 k)
    then show ?thesis using config_json_open [OF 2(2)] r(2) by (simp add: config_Load_def unmarshal_config_def)
  qed (use r in simp)
qed

subsection \<open>Witnesses\<close>

definition small_disk :: "nat \<Rightarrow> disk" where
  "small_disk k = \<lparr>files = Map.empty, room = k, writable = True, openable = True, syncs = True\<rparr>"

theorem config_Load_usable_witness: "config_Load ''d'' (small_disk 0) = Inr config_Default"
  using config_Load_usable [of "''d''" "small_disk 0"] by (simp add: small_disk_def)

theorem config_Save_Load_witness:
  "\<exists>d'. config_Save ''/a/b'' config_Default (small_disk 1000) = (None, d') \<and>
     config_Load ''/a/../a//b/.'' d' = Inr config_Default"
proof -
  have "fst (config_Save ''/a/b'' config_Default (small_disk 1000)) = None" by code_simp
  then obtain d' where d': "config_Save ''/a/b'' config_Default (small_disk 1000) = (None, d')"
    by (metis prod.collapse)
  have *: "\<forall>m \<in> set (config_members config_Default). int64 (snd m)" "openable (small_disk 1000)"
    "rooted ''/a/../a//b/.'' = rooted ''/a/b''" "clean_parts ''/a/../a//b/.'' = clean_parts ''/a/b''"
    by code_simp+
  have "Validate config_Default = None" by (simp add: Validate_None usable_Default)
  with config_Save_Load [OF *(1,2) d' *(3,4)] d' show ?thesis by auto
qed

theorem config_Save_fails_witness:
  "\<exists>e d'. config_Save ''d'' config_Default (small_disk 20) = (Some e, d') \<and>
     (e = ConfigFile PermissionDenied \<and> d' = small_disk 20 \<or>
      e = ConfigFile NoSpace \<and> config_Load ''d'' d' = Inl (ConfigJSON InvalidJSON))"
proof -
  have "fst (config_Save ''d'' config_Default (small_disk 20)) = Some (ConfigFile NoSpace)" by code_simp
  then obtain d' where d': "config_Save ''d'' config_Default (small_disk 20) = (Some (ConfigFile NoSpace), d')"
    by (metis prod.collapse)
  have "openable (small_disk 20)" by (simp add: small_disk_def)
  from config_Save_fails [OF this d'] d' show ?thesis by blast
qed

end
