(* ===== verification/Machines.thy ===== *)
theory Machines
  imports Json Raft_Log "HOL-Library.List_Lexorder"
begin

text \<open>
  internal/statemachine: the key-value store (kv.go) and the counter (counter.go) that committed
  commands are applied to. Go strings are ordered bytewise. Snapshots of the store are
  JSON objects, encoded and decoded as in \<open>Json\<close>. The interface \<open>state_machine\<close> says what the log may rely on: a failed command changes nothing, and
  what a machine shows, panics included, depends on the commands alone. Replaying a log after a snapshot is derived
  from it once and holds of both machines.
\<close>

subsection \<open>The interface\<close>

locale state_machine =
  fixes apply_cmd :: "u64 \<Rightarrow> gostring \<Rightarrow> 's \<Rightarrow> ('e err \<times> 's) run"
    and applied_idx :: "'s \<Rightarrow> u64"
    and shown :: "'s \<Rightarrow> 'o"
  assumes apply_error: "apply_cmd i c s = Some (Some e, s') \<Longrightarrow> s' = s"
    and apply_index: "apply_cmd i c s = Some (None, s') \<Longrightarrow> applied_idx s' = i"
    and apply_shown: "shown s = shown t \<Longrightarrow>
      map_option (map_prod id shown) (apply_cmd i c s) = map_option (map_prod id shown) (apply_cmd i c t)"
begin

text \<open>Applying entries in order, as the driver of a replica does; errors are reported and skipped, a panic
  ends the run.\<close>

fun replay :: "entry list \<Rightarrow> 's \<Rightarrow> 's run" where
  "replay [] s = Some s"
| "replay (e # es) s =
     (case apply_cmd (eIndex e) (eCommand e) s of None \<Rightarrow> None | Some (_, s') \<Rightarrow> replay es s')"

lemma replay_append: "replay (xs @ ys) s = Option.bind (replay xs s) (replay ys)"
  by (induction xs arbitrary: s) (auto split: option.splits)

text \<open>Replicas that apply the same entries show the same state.\<close>

lemma replay_shown: "shown s = shown t \<Longrightarrow> map_option shown (replay es s) = map_option shown (replay es t)"
proof (induction es arbitrary: s t)
  case (Cons e es)
  let ?a = "apply_cmd (eIndex e) (eCommand e)"
  from apply_shown [OF Cons.prems, of "eIndex e" "eCommand e"]
  consider "?a s = None" "?a t = None" | r s1 t1 where "?a s = Some (r, s1)" "?a t = Some (r, t1)" "shown s1 = shown t1"
    by (cases "?a s"; cases "?a t") auto
  then show ?case
  proof cases
    case (2 r s1 t1)
    with Cons.IH [OF 2(3)] show ?thesis by simp
  qed simp
qed simp

text \<open>A machine that shows what another showed after a prefix of the log catches up with the rest.\<close>

lemma replay_snapshot:
  assumes "replay xs s = Some s1" and "shown r = shown s1"
  shows "map_option shown (replay ys r) = map_option shown (replay (xs @ ys) s)"
  using replay_shown [OF assms(2), of ys] assms(1) by (simp add: replay_append)

lemma replay_applied: "replay es s = Some s' \<Longrightarrow> applied_idx s' \<in> insert (applied_idx s) (eIndex ` set es)"
proof (induction es arbitrary: s)
  case (Cons e es)
  then obtain r s1 where a: "apply_cmd (eIndex e) (eCommand e) s = Some (r, s1)" "replay es s1 = Some s'"
    by (auto split: option.splits)
  have "applied_idx s1 \<in> {applied_idx s, eIndex e}"
  proof (cases r)
    case None
    with a(1) apply_index show ?thesis by blast
  next
    case (Some x)
    with a(1) apply_error [of _ _ s x s1] show ?thesis by blast
  qed
  with Cons.IH [OF a(2)] show ?case by auto
qed simp

end

subsection \<open>The key-value store\<close>

datatype kv_error = ErrBadCommand

text \<open>
  The map of a store is an association list, or \<open>None\<close> for the nil map: reading, deleting from and
  measuring the nil map is allowed, writing to it panics.
\<close>

type_synonym kv_map = "(gostring \<times> gostring) list option"

record kv =
  kvData :: kv_map
  kvApplied :: u64

definition NewKV :: kv where
  "NewKV = \<lparr>kvData = Some [], kvApplied = 0\<rparr>"

definition map_set :: "gostring \<Rightarrow> gostring \<Rightarrow> kv_map \<Rightarrow> kv_map run" where
  "map_set k v m = (case m of None \<Rightarrow> None | Some xs \<Rightarrow> Some (Some (AList.update k v xs)))"

definition map_delete :: "gostring \<Rightarrow> kv_map \<Rightarrow> kv_map" where
  "map_delete k m = map_option (AList.delete k) m"

definition map_pairs :: "kv_map \<Rightarrow> (gostring \<times> gostring) list" where
  "map_pairs m = (case m of None \<Rightarrow> [] | Some xs \<Rightarrow> xs)"

definition KV_Apply :: "u64 \<Rightarrow> gostring \<Rightarrow> kv \<Rightarrow> (kv_error err \<times> kv) run" where
  "KV_Apply index command s =
     (let parts = SplitN command 3 in
      if length parts < 2 then Some (Some ErrBadCommand, s)
      else if parts ! 0 = bytes_of ''set'' then
        (if length parts < 3 then Some (Some ErrBadCommand, s)
         else do { m \<leftarrow> map_set (parts ! 1) (parts ! 2) (kvData s); Some (None, s\<lparr>kvData := m, kvApplied := index\<rparr>) })
      else if parts ! 0 = bytes_of ''delete'' then
        Some (None, s\<lparr>kvData := map_delete (parts ! 1) (kvData s), kvApplied := index\<rparr>)
      else Some (Some ErrBadCommand, s))"

definition KV_Get :: "kv \<Rightarrow> gostring \<Rightarrow> gostring option" where
  "KV_Get s k = map_of (map_pairs (kvData s)) k"

definition KV_Keys :: "kv \<Rightarrow> gostring list" where
  "KV_Keys s = sort (map fst (map_pairs (kvData s)))"

definition KV_Len :: "kv \<Rightarrow> nat" where
  "KV_Len s = length (map_pairs (kvData s))"

definition KV_LastApplied :: "kv \<Rightarrow> u64" where
  "KV_LastApplied s = kvApplied s"

text \<open>\<open>json.Marshal\<close> of a map: its members sorted by key, or null. Encoding strings cannot fail.\<close>

definition marshal_map :: "kv_map \<Rightarrow> gostring" where
  "marshal_map m =
     (case m of
        None \<Rightarrow> bytes_of ''null''
      | Some xs \<Rightarrow> json_object [] [] [] (map (\<lambda>(k, v). (k, quote v)) (sort_key fst xs)))"

text \<open>\<open>json.Unmarshal\<close> into a map of strings: null gives the nil map, a member that is null the empty string,
  anything but a string is an error. Of members with the same key the last one counts.\<close>

fun put_members :: "(gostring \<times> json) list \<Rightarrow> (gostring \<times> gostring) list \<Rightarrow> json_error + (gostring \<times> gostring) list" where
  "put_members [] m = Inr m"
| "put_members ((k, Str v) # ms) m = put_members ms (AList.update k v m)"
| "put_members ((k, Null) # ms) m = put_members ms (AList.update k [] m)"
| "put_members (_ # ms) m = Inl InvalidJSON"

definition unmarshal_map :: "gostring \<Rightarrow> json_error + kv_map" where
  "unmarshal_map data =
     (case json_parse data of
        Some Null \<Rightarrow> Inr None
      | Some (Obj ms) \<Rightarrow> map_sum id Some (put_members ms [])
      | _ \<Rightarrow> Inl InvalidJSON)"

definition KV_Snapshot :: "kv \<Rightarrow> json_error + gostring" where
  "KV_Snapshot s = Inr (marshal_map (kvData s))"

definition KV_Restore :: "gostring \<Rightarrow> kv \<Rightarrow> json_error err \<times> kv" where
  "KV_Restore data s =
     (case unmarshal_map data of Inl e \<Rightarrow> (Some e, s) | Inr m \<Rightarrow> (None, s\<lparr>kvData := m\<rparr>))"

definition KV_Clear :: "kv \<Rightarrow> kv" where
  "KV_Clear s = s\<lparr>kvData := Some [], kvApplied := 0\<rparr>"

text \<open>What a store shows: its contents, and whether it can be written.\<close>

definition KV_shown :: "kv \<Rightarrow> bool \<times> (gostring \<rightharpoonup> gostring)" where
  "KV_shown s = (kvData s = None, KV_Get s)"

lemma map_of_kv:
  "map_of (AList.update k v xs) = (map_of xs)(k \<mapsto> v)" "map_of (AList.delete k xs) = (map_of xs)(k := None)"
  by (simp_all add: fun_eq_iff update_conv' delete_conv')

lemmas kv_map_defs = map_set_def map_delete_def map_pairs_def KV_Get_def [abs_def] map_of_kv

interpretation kv: state_machine KV_Apply KV_LastApplied KV_shown
proof unfold_locales
  fix s t :: kv and i c
  assume "KV_shown s = KV_shown t"
  then show "map_option (map_prod id KV_shown) (KV_Apply i c s) = map_option (map_prod id KV_shown) (KV_Apply i c t)"
    by (cases "kvData s"; cases "kvData t") (simp_all add: KV_Apply_def KV_shown_def kv_map_defs Let_def)
qed (auto simp: KV_Apply_def KV_LastApplied_def Let_def split: if_splits bind_splits)

text \<open>A store whose map is not nil never panics and keeps such a map.\<close>

lemma KV_Apply_defined: "kvData s \<noteq> None \<Longrightarrow> \<exists>r s'. KV_Apply i c s = Some (r, s') \<and> kvData s' \<noteq> None"
  by (auto simp: KV_Apply_def map_set_def map_delete_def Let_def)

lemma KV_replay_defined: "kvData s \<noteq> None \<Longrightarrow> \<exists>s'. kv.replay es s = Some s' \<and> kvData s' \<noteq> None"
proof (induction es arbitrary: s)
  case (Cons e es)
  obtain r s1 where "KV_Apply (eIndex e) (eCommand e) s = Some (r, s1)" "kvData s1 \<noteq> None"
    using KV_Apply_defined [OF Cons.prems] by blast
  with Cons.IH show ?case by simp
qed simp

definition kv_ok :: "kv \<Rightarrow> bool" where
  "kv_ok s \<longleftrightarrow> kvData s \<noteq> None \<and> distinct (map fst (map_pairs (kvData s)))"

text \<open>The commands as operations on the map.\<close>

lemma KV_Apply_set:
  assumes "32 \<notin> set k"
  shows "KV_Apply i (bytes_of ''set '' @ k @ 32 # v) s =
    do { m \<leftarrow> map_set k v (kvData s); Some (None, s\<lparr>kvData := m, kvApplied := i\<rparr>) }"
  unfolding KV_Apply_def SplitN_set [OF assms] by simp

lemma KV_Apply_delete:
  assumes "32 \<notin> set k"
  shows "KV_Apply i (bytes_of ''delete '' @ k) s =
    Some (None, s\<lparr>kvData := map_delete k (kvData s), kvApplied := i\<rparr>)"
  unfolding KV_Apply_def SplitN_delete [OF assms] by (simp add: bytes_of_def)

text \<open>Commands of the store. The command to set a key without spaces to any value sets exactly that
  key, the command to delete a key without spaces removes exactly that key, both record the index,
  and keys stay unique.\<close>

theorem KV_Apply_spec:
  assumes "kv_ok s" and "32 \<notin> set k"
  shows "\<exists>s1 s2. KV_Apply i (bytes_of ''set '' @ k @ 32 # v) s = Some (None, s1) \<and> KV_Get s1 = (KV_Get s)(k \<mapsto> v) \<and>
    KV_LastApplied s1 = i \<and> kv_ok s1 \<and>
    KV_Apply i (bytes_of ''delete '' @ k) s = Some (None, s2) \<and> KV_Get s2 = (KV_Get s)(k := None) \<and>
    KV_LastApplied s2 = i \<and> kv_ok s2"
proof -
  obtain xs where "kvData s = Some xs" "distinct (map fst xs)" using assms(1) by (auto simp: kv_ok_def map_pairs_def)
  then show ?thesis
    unfolding KV_Apply_set [OF assms(2)] KV_Apply_delete [OF assms(2)]
    by (simp add: kv_map_defs KV_LastApplied_def kv_ok_def distinct_update distinct_delete)
qed

lemma KV_keys_card:
  assumes "kv_ok s"
  shows "KV_Len s = card {k. KV_Get s k \<noteq> None}"
proof -
  let ?xs = "map_pairs (kvData s)"
  have "{k. KV_Get s k \<noteq> None} = fst ` set ?xs" by (auto simp: KV_Get_def map_of_eq_None_iff)
  with assms distinct_card [of "map fst ?xs"] show ?thesis by (simp add: kv_ok_def KV_Len_def)
qed

text \<open>Keys. \<open>Keys\<close> lists the keys of the store in increasing order, each once, and \<open>Len\<close> is their
  number.\<close>

theorem KV_Keys_spec:
  assumes "kv_ok s"
  shows "sorted (KV_Keys s) \<and> distinct (KV_Keys s) \<and> set (KV_Keys s) = {k. KV_Get s k \<noteq> None} \<and>
    KV_Len s = card {k. KV_Get s k \<noteq> None}"
proof -
  have "{k. KV_Get s k \<noteq> None} = fst ` set (map_pairs (kvData s))" by (auto simp: KV_Get_def map_of_eq_None_iff)
  with assms KV_keys_card [OF assms] show ?thesis by (simp add: KV_Keys_def kv_ok_def)
qed

text \<open>C33: A snapshot that is the JSON value null. json leaves a map that it reads null into nil and reports no
  error, so \<open>Restore\<close> succeeds with a store that still answers and deletes, but panics at the next command
  to set a key, whatever the key; the snapshot it takes is null again. Only \<open>Clear\<close> repairs it.\<close>

theorem KV_null_panics:
  assumes "32 \<notin> set k"
  shows "\<exists>r. KV_Restore (bytes_of ''null'') s = (None, r) \<and>
    KV_Apply i (bytes_of ''set '' @ k @ 32 # v) r = None \<and>
    KV_Apply i (bytes_of ''delete '' @ k) r = Some (None, r\<lparr>kvApplied := i\<rparr>) \<and> KV_Get r = Map.empty \<and>
    KV_Snapshot r = Inr (bytes_of ''null'') \<and> KV_Apply i (bytes_of ''set '' @ k @ 32 # v) (KV_Clear r) \<noteq> None"
proof -
  have "json_parse (bytes_of ''null'') = Some Null"
    by (simp add: json_parse_def tokens.simps json_space_def next_token_def keyword_def bytes_of_def begin_value_def)
  then have "unmarshal_map (bytes_of ''null'') = Inr None" by (simp add: unmarshal_map_def)
  then show ?thesis
    unfolding KV_Apply_set [OF assms] KV_Apply_delete [OF assms]
    by (simp add: KV_Restore_def KV_Snapshot_def marshal_map_def KV_Clear_def kv_map_defs fun_eq_iff)
qed

subsection \<open>The counter\<close>

datatype counter_error = EmptyCommand | UnknownCommand | BadNumber num_error | ShortSnapshot

record counter =
  cValue :: "64 word"
  cApplied :: u64

definition NewCounter :: counter where
  "NewCounter = \<lparr>cValue = 0, cApplied = 0\<rparr>"

definition Counter_Apply :: "u64 \<Rightarrow> gostring \<Rightarrow> counter \<Rightarrow> counter_error err \<times> counter" where
  "Counter_Apply index command c =
     (let cmd = TrimSpace command; parts = Fields cmd in
      if parts = [] then (Some EmptyCommand, c)
      else if parts ! 0 = bytes_of ''incr'' then
        (case (if length parts > 1 then ParseInt (parts ! 1) else Inr 1) of
           Inl e \<Rightarrow> (Some (BadNumber e), c)
         | Inr delta \<Rightarrow> (None, c\<lparr>cValue := cValue c + of_int delta, cApplied := index\<rparr>))
      else if parts ! 0 = bytes_of ''reset'' then (None, c\<lparr>cValue := 0, cApplied := index\<rparr>)
      else (Some UnknownCommand, c))"

definition Counter_Value :: "counter \<Rightarrow> int" where
  "Counter_Value c = sint (cValue c)"

definition Counter_LastApplied :: "counter \<Rightarrow> u64" where
  "Counter_LastApplied c = cApplied c"

definition Counter_Snapshot :: "counter \<Rightarrow> byte list" where
  "Counter_Snapshot c = be_bytes 8 (cValue c)"

definition Counter_Restore :: "byte list \<Rightarrow> counter \<Rightarrow> counter_error err \<times> counter" where
  "Counter_Restore data c =
     (if length data < 8 then (Some ShortSnapshot, c) else (None, c\<lparr>cValue := be_word (take 8 data)\<rparr>))"

interpretation ctr: state_machine "\<lambda>i c s. Some (Counter_Apply i c s)" Counter_LastApplied Counter_Value
proof unfold_locales
  fix s t i c
  assume "Counter_Value s = Counter_Value t"
  then have "cValue s = cValue t" by (simp add: Counter_Value_def signed_word_eqI)
  then show "map_option (map_prod id Counter_Value) (Some (Counter_Apply i c s)) =
      map_option (map_prod id Counter_Value) (Some (Counter_Apply i c t))"
    by (auto simp: Counter_Apply_def Counter_Value_def Let_def split: sum.splits)
qed (auto simp: Counter_Apply_def Counter_LastApplied_def Let_def split: if_splits sum.splits)

lemma Counter_replay_defined: "\<exists>s'. ctr.replay es s = Some s'"
  by (induction es arbitrary: s) (auto split: prod.splits)

text \<open>Snapshots of the counter. Restoring a snapshot, taken after some entries of the log, into any
  counter and applying the rest of the log gives the value that applying the whole log gives. Data
  shorter than eight bytes is refused without a change.\<close>

theorem Counter_catch_up:
  "(\<exists>c1 r r1 r2. ctr.replay xs c = Some c1 \<and> Counter_Restore (Counter_Snapshot c1) other = (None, r) \<and>
     ctr.replay ys r = Some r1 \<and> ctr.replay (xs @ ys) c = Some r2 \<and> Counter_Value r1 = Counter_Value r2) \<and>
   (fst (Counter_Restore data c) \<noteq> None \<longleftrightarrow> length data < 8)"
proof -
  obtain c1 where c1: "ctr.replay xs c = Some c1" using Counter_replay_defined by blast
  let ?r = "other\<lparr>cValue := cValue c1\<rparr>"
  have "Counter_Restore (Counter_Snapshot c1) other = (None, ?r)"
    by (simp add: Counter_Restore_def Counter_Snapshot_def be_word_bytes)
  moreover obtain r1 r2 where r: "ctr.replay ys ?r = Some r1" "ctr.replay (xs @ ys) c = Some r2"
    using Counter_replay_defined by metis
  moreover have "Counter_Value r1 = Counter_Value r2"
    using ctr.replay_snapshot [OF c1, of ?r ys] r by (simp add: Counter_Value_def)
  ultimately show ?thesis using c1 by (simp add: Counter_Restore_def)
qed

subsection \<open>Snapshots of the store\<close>

lemma put_members_strings:
  "put_members (map (\<lambda>m. (f m, Str (g m))) ms) m = Inr (fold (\<lambda>m. AList.update (f m) (g m)) ms m)"
  by (induction ms arbitrary: m) auto

lemma map_of_fold_update:
  "map_of (fold (\<lambda>m. AList.update (f m) (g m)) ms xs) = map_of xs ++ map_of (rev (map (\<lambda>m. (f m, g m)) ms))"
  by (induction ms arbitrary: xs) (auto simp: map_of_kv map_add_upd_left map_add_def fun_eq_iff split: option.splits)

text \<open>What comes back from the snapshot of a store: the members in the order of their keys, with every key and
  value made valid UTF-8.\<close>

lemma unmarshal_marshal:
  "unmarshal_map (marshal_map (Some xs)) =
     Inr (Some (fold (\<lambda>m. AList.update (coerced (fst m)) (coerced (snd m))) (sort_key fst xs) []))"
proof -
  have "json_parse (marshal_map (Some xs)) =
      Some (Obj (map (\<lambda>m. (coerced (fst m), Str (coerced (snd m)))) (sort_key fst xs)))"
    unfolding marshal_map_def option.case
    using compact.parse_object [of "sort_key fst xs" "\<lambda>(k, v). (k, quote v)" "\<lambda>m. Str (coerced (snd m))"]
    by (simp add: scalar_quote case_prod_unfold)
  then show ?thesis by (simp add: unmarshal_map_def put_members_strings)
qed

text \<open>Stores whose keys and values are valid UTF-8. Commands that are keep them so.\<close>

definition kv_utf8 :: "kv \<Rightarrow> bool" where
  "kv_utf8 s \<longleftrightarrow> kv_ok s \<and> (\<forall>k v. KV_Get s k = Some v \<longrightarrow> utf8_ok k \<and> utf8_ok v)"

lemma less_32: "(32 :: byte) < 128"
  by simp

lemma NewKV_utf8: "kv_utf8 NewKV"
  by (simp add: kv_utf8_def kv_ok_def kv_map_defs NewKV_def)

lemma SplitN_utf8: "utf8_ok c \<Longrightarrow> p \<in> set (SplitN c n) \<Longrightarrow> utf8_ok p"
proof (induction c n rule: SplitN.induct)
  case (3 s n)
  show ?case
  proof (cases "32 \<in> set s")
    case True
    have "dropWhile (\<lambda>b. b \<noteq> 32) s \<noteq> []" "hd (dropWhile (\<lambda>b. b \<noteq> 32) s) = 32"
      using True hd_dropWhile [of "\<lambda>b. b \<noteq> 32" s] by (auto simp: dropWhile_eq_Nil_conv)
    then have "s = takeWhile (\<lambda>b. b \<noteq> 32) s @ 32 # tl (dropWhile (\<lambda>b. b \<noteq> 32) s)"
      by (metis list.collapse takeWhile_dropWhile_id)
    with "3.prems"(1) utf8_ok_cut [of 32] have "utf8_ok (takeWhile (\<lambda>b. b \<noteq> 32) s)" "utf8_ok (tl (dropWhile (\<lambda>b. b \<noteq> 32) s))"
      by (metis less_32)+
    with 3 True show ?thesis by auto
  qed (use 3 in auto)
qed simp_all

lemma KV_Apply_utf8:
  assumes "kv_utf8 s" and "utf8_ok c" and "KV_Apply i c s = Some (r, s')"
  shows "kv_utf8 s'"
proof -
  obtain xs where xs: "kvData s = Some xs" "distinct (map fst xs)" "\<And>k v. map_of xs k = Some v \<Longrightarrow> utf8_ok k \<and> utf8_ok v"
    using assms(1) by (auto simp: kv_utf8_def kv_ok_def kv_map_defs)
  consider "s' = s"
    | "length (SplitN c 3) \<ge> 3" "s' = s\<lparr>kvData := Some (AList.update (SplitN c 3 ! 1) (SplitN c 3 ! 2) xs), kvApplied := i\<rparr>"
    | "s' = s\<lparr>kvData := Some (AList.delete (SplitN c 3 ! 1) xs), kvApplied := i\<rparr>"
    using assms(3) xs(1) by (auto simp: KV_Apply_def Let_def map_set_def map_delete_def split: if_splits)
  then show ?thesis
  proof cases
    case 2
    then have "utf8_ok (SplitN c 3 ! 1)" "utf8_ok (SplitN c 3 ! 2)" by (auto intro!: SplitN_utf8 [OF assms(2)] nth_mem)
    with 2 xs show ?thesis by (auto simp: kv_utf8_def kv_ok_def kv_map_defs distinct_update split: if_splits)
  next
    case 3
    with xs show ?thesis by (auto simp: kv_utf8_def kv_ok_def kv_map_defs distinct_delete split: if_splits)
  qed (use assms in simp)
qed

lemma KV_replay_utf8:
  "kv_utf8 s \<Longrightarrow> \<forall>e \<in> set es. utf8_ok (eCommand e) \<Longrightarrow> kv.replay es s = Some s' \<Longrightarrow> kv_utf8 s'"
proof (induction es arbitrary: s)
  case (Cons e es)
  then obtain r s1 where "KV_Apply (eIndex e) (eCommand e) s = Some (r, s1)" "kv.replay es s1 = Some s'"
    by (auto split: option.splits)
  with Cons KV_Apply_utf8 [of s "eCommand e" "eIndex e" r s1] show ?case by auto
qed simp

lemma distinct_fold_update: "distinct (map fst xs) \<Longrightarrow> distinct (map fst (fold (\<lambda>m. AList.update (f m) (g m)) ms xs))"
  by (induction ms arbitrary: xs) (simp_all add: distinct_update)

lemma KV_snapshot_restore:
  assumes "kv_utf8 s"
  shows "\<exists>data m. KV_Snapshot s = Inr data \<and> KV_Restore data other = (None, other\<lparr>kvData := Some m\<rparr>) \<and>
    map_of m = KV_Get s \<and> distinct (map fst m)"
proof -
  obtain xs where xs: "kvData s = Some xs" "distinct (map fst xs)" "\<And>k v. map_of xs k = Some v \<Longrightarrow> utf8_ok k \<and> utf8_ok v"
    using assms by (auto simp: kv_utf8_def kv_ok_def kv_map_defs)
  let ?ys = "sort_key fst xs" and ?m = "fold (\<lambda>m. AList.update (coerced (fst m)) (coerced (snd m))) (sort_key fst xs) []"
  have "coerced (fst p) = fst p \<and> coerced (snd p) = snd p" if "p \<in> set ?ys" for p
    using that xs(2) xs(3) [of "fst p" "snd p"] by (simp add: coerced_id)
  then have "map (\<lambda>p. (coerced (fst p), coerced (snd p))) ?ys = ?ys" by (intro map_idI) (metis prod.collapse)
  then have "map_of ?m = map_of (rev ?ys)" by (simp add: map_of_fold_update)
  also have "\<dots> = map_of xs"
    using xs(2) by (subst map_of_inject_set) (auto simp: distinct_map)
  finally have "map_of ?m = KV_Get s" by (simp add: kv_map_defs xs(1))
  moreover have "distinct (map fst ?m)" by (rule distinct_fold_update) simp
  ultimately show ?thesis
    using unmarshal_marshal [of xs] xs(1) by (auto simp: KV_Snapshot_def KV_Restore_def intro!: exI [of _ ?m])
qed

text \<open>Snapshots of the store. For commands that are valid UTF-8, restoring a
  snapshot, taken after some entries of the log, into any store and applying the rest of the log
  shows the same keys and values as applying the whole log, and nothing panics. The index of the last applied entry is not part of the
  snapshot: right after the restore it is whatever the receiving store had.\<close>

theorem KV_catch_up:
  assumes "kv_utf8 s" and "\<forall>e \<in> set xs. utf8_ok (eCommand e)"
  shows "\<exists>s1 data r r1 r2. kv.replay xs s = Some s1 \<and> KV_Snapshot s1 = Inr data \<and> KV_Restore data other = (None, r) \<and>
    KV_LastApplied r = KV_LastApplied other \<and> kv.replay ys r = Some r1 \<and> kv.replay (xs @ ys) s = Some r2 \<and>
    KV_Get r1 = KV_Get r2"
proof -
  have "kvData s \<noteq> None" using assms(1) by (simp add: kv_utf8_def kv_ok_def)
  from KV_replay_defined [OF this] obtain s1 where s1: "kv.replay xs s = Some s1" "kvData s1 \<noteq> None" by blast
  from KV_snapshot_restore [OF KV_replay_utf8 [OF assms s1(1)]] obtain data m where
    d: "KV_Snapshot s1 = Inr data" "KV_Restore data other = (None, other\<lparr>kvData := Some m\<rparr>)" "map_of m = KV_Get s1" by blast
  let ?r = "other\<lparr>kvData := Some m\<rparr>"
  have "KV_shown ?r = KV_shown s1" using d(3) s1(2) by (simp add: KV_shown_def kv_map_defs)
  from kv.replay_snapshot [OF s1(1) this] have "map_option KV_shown (kv.replay ys ?r) = map_option KV_shown (kv.replay (xs @ ys) s)" .
  moreover obtain r1 where r1: "kv.replay ys ?r = Some r1" using KV_replay_defined [of ?r ys] by auto
  ultimately obtain r2 where "kv.replay (xs @ ys) s = Some r2" "KV_shown r1 = KV_shown r2" by (metis map_option_eq_Some)
  with s1(1) d(1,2) r1 show ?thesis by (simp add: KV_LastApplied_def KV_shown_def)
qed

lemma update_utf8:
  assumes "kv_utf8 \<lparr>kvData = Some m, kvApplied = i\<rparr>" and "utf8_ok k" and "utf8_ok v"
  shows "kv_utf8 \<lparr>kvData = Some (AList.update k v m), kvApplied = i\<rparr>"
  using assms by (auto simp: kv_utf8_def kv_ok_def kv_map_defs distinct_update split: if_splits)

lemma put_members_ok:
  "put_members ms m = Inr m' \<Longrightarrow> json_utf8 (Obj ms) \<Longrightarrow> kv_utf8 \<lparr>kvData = Some m, kvApplied = i\<rparr> \<Longrightarrow>
    kv_utf8 \<lparr>kvData = Some m', kvApplied = i\<rparr>"
proof (induction ms m rule: put_members.induct)
  case (2 k v ms m)
  then show ?case by (simp add: update_utf8)
next
  case (3 k ms m)
  moreover have "utf8_ok []" by (simp add: utf8_ok_def)
  ultimately show ?case by (simp add: update_utf8)
qed simp_all

lemma map_sum_Some: "map_sum id Some x = Inr y \<longleftrightarrow> (\<exists>m. x = Inr m \<and> y = Some m)"
  by (cases x) auto

text \<open>Whatever bytes \<open>Restore\<close> is given, it either reports an error and leaves the store as it was, or it
  leaves a nil map or a store with unique keys whose keys and values are all valid UTF-8.\<close>

theorem KV_Restore_spec:
  "case KV_Restore data s of
     (Some e, r) \<Rightarrow> r = s
   | (None, r) \<Rightarrow> KV_LastApplied r = KV_LastApplied s \<and> (kvData r = None \<or> kv_utf8 r)"
proof -
  have "kv_utf8 (s\<lparr>kvData := Some m\<rparr>)" if "json_parse data = Some (Obj ms)" "put_members ms [] = Inr m" for ms m
  proof -
    have "kv_utf8 \<lparr>kvData = Some [], kvApplied = kvApplied s\<rparr>" by (simp add: kv_utf8_def kv_ok_def kv_map_defs)
    from put_members_ok [OF that(2) json_parse_utf8 [OF that(1)] this] show ?thesis by (cases s) simp
  qed
  then have "kv_utf8 (s\<lparr>kvData := Some m\<rparr>)" if "unmarshal_map data = Inr (Some m)" for m
    using that by (auto simp: unmarshal_map_def map_sum_Some split: option.splits json.splits)
  then show ?thesis
    by (cases "unmarshal_map data"; cases "projr (unmarshal_map data)") (auto simp: KV_Restore_def KV_LastApplied_def)
qed

lemma map_of_coerced:
  "sorted_wrt (<) (map fst ys) \<Longrightarrow>
    map_of (rev (map (\<lambda>p. (coerced (fst p), coerced (snd p))) ys)) k =
      (let ks = {k' \<in> fst ` set ys. coerced k' = k} in
       if ks = {} then None else map_option coerced (map_of ys (Max ks)))"
proof (induction ys rule: rev_induct)
  case (snoc p ys)
  let ?K = "\<lambda>ys. {k' \<in> fst ` set ys. coerced k' = k}"
  have less: "k' < fst p" if "k' \<in> fst ` set ys" for k' using snoc.prems that by (auto simp: sorted_wrt_append)
  have new: "fst p \<notin> fst ` set ys" using less by blast
  have old: "map_of (ys @ [p]) k' = map_of ys k'" if "k' \<in> fst ` set ys" for k'
  proof -
    from that have "map_of ys k' \<noteq> None" by (simp add: map_of_eq_None_iff)
    then obtain v where "map_of ys k' = Some v" by blast
    then show ?thesis by (simp add: map_add_def)
  qed
  show ?case
  proof (cases "coerced (fst p) = k")
    case True
    then have "?K (ys @ [p]) = insert (fst p) (?K ys)" by auto
    moreover have "Max (insert (fst p) (?K ys)) = fst p" using less by (intro Max_eqI) (auto intro: less_imp_le)
    moreover have "map_of (ys @ [p]) (fst p) = Some (snd p)"
      using new by (simp add: map_add_def map_of_eq_None_iff [THEN iffD2] split: option.splits)
    ultimately show ?thesis using True by (simp add: Let_def)
  next
    case False
    then have K: "?K (ys @ [p]) = ?K ys" by auto
    have "Max (?K ys) \<in> fst ` set ys" if "?K ys \<noteq> {}" using Max_in [OF _ that] by auto
    with old snoc False K show ?thesis by (auto simp: Let_def sorted_wrt_append)
  qed
qed simp

lemma sorted_keys: "distinct (map fst xs) \<Longrightarrow> sorted_wrt (<) (map fst (sort_key fst xs))"
  by (simp add: strict_sorted_iff distinct_map)

text \<open>C34: What a snapshot keeps. Restoring the snapshot of any store into any other succeeds. The keys of the restored
  store are the keys of the original, with every byte that is not UTF-8 replaced by \<open>U+FFFD\<close>; keys that become
  equal are merged into one, which has the value, made valid the same way, of the greatest of them.
  The number of keys is kept exactly when no two keys become equal.\<close>

theorem KV_snapshot_merges:
  assumes "kv_ok s"
  shows "\<exists>data r. KV_Snapshot s = Inr data \<and> KV_Restore data other = (None, r) \<and> kv_ok r \<and>
    (\<forall>k. KV_Get r k =
       (let ks = {k'. KV_Get s k' \<noteq> None \<and> coerced k' = k}
        in if ks = {} then None else map_option coerced (KV_Get s (Max ks)))) \<and>
    (KV_Len r = KV_Len s \<longleftrightarrow> inj_on coerced {k. KV_Get s k \<noteq> None})"
proof -
  obtain xs where xs: "kvData s = Some xs" "distinct (map fst xs)" using assms by (auto simp: kv_ok_def map_pairs_def)
  let ?ys = "sort_key fst xs" and ?m = "fold (\<lambda>m. AList.update (coerced (fst m)) (coerced (snd m))) (sort_key fst xs) []"
  let ?r = "other\<lparr>kvData := Some ?m\<rparr>"
  have ok: "kv_ok ?r" using distinct_fold_update [of "[]"] by (simp add: kv_ok_def map_pairs_def)
  have same: "map_of ?ys = map_of xs" using xs(2) by (subst map_of_inject_set) (auto simp: distinct_map)
  have get: "KV_Get s = map_of xs" "KV_Get ?r = map_of ?m" by (simp_all add: kv_map_defs xs(1))
  have keys: "{k'. KV_Get s k' \<noteq> None \<and> coerced k' = k} = {k' \<in> fst ` set ?ys. coerced k' = k}" for k
    by (auto simp: get map_of_eq_None_iff)
  have look: "KV_Get ?r k = (let ks = {k'. KV_Get s k' \<noteq> None \<and> coerced k' = k}
        in if ks = {} then None else map_option coerced (KV_Get s (Max ks)))" for k
  proof -
    have "map_of ?m k = map_of (rev (map (\<lambda>p. (coerced (fst p), coerced (snd p))) ?ys)) k"
      by (simp add: map_of_fold_update)
    then show ?thesis unfolding map_of_coerced [OF sorted_keys [OF xs(2)]] same keys unfolding get .
  qed
  have dom: "{k. KV_Get ?r k \<noteq> None} = coerced ` {k. KV_Get s k \<noteq> None}"
  proof -
    have "finite {k'. KV_Get s k' \<noteq> None \<and> coerced k' = k}" for k unfolding keys by simp
    then have "KV_Get s (Max {k'. KV_Get s k' \<noteq> None \<and> coerced k' = k}) \<noteq> None"
      if "{k'. KV_Get s k' \<noteq> None \<and> coerced k' = k} \<noteq> {}" for k using Max_in that by blast
    then have "KV_Get ?r k \<noteq> None \<longleftrightarrow> {k'. KV_Get s k' \<noteq> None \<and> coerced k' = k} \<noteq> {}" for k
      unfolding look by (simp add: Let_def)
    then show ?thesis by auto
  qed
  have len: "KV_Len t = card {k. KV_Get t k \<noteq> None}" if "kv_ok t" for t using KV_keys_card [OF that] .
  have "finite {k. KV_Get s k \<noteq> None}" unfolding get using finite_dom_map_of [of xs] by (simp only: dom_def)
  then have count: "KV_Len ?r = KV_Len s \<longleftrightarrow> inj_on coerced {k. KV_Get s k \<noteq> None}"
    unfolding len [OF ok] len [OF assms] dom by (simp only: inj_on_iff_eq_card)
  have "KV_Snapshot s = Inr (marshal_map (Some xs))" "KV_Restore (marshal_map (Some xs)) other = (None, ?r)"
    using unmarshal_marshal [of xs] xs(1) by (simp_all add: KV_Snapshot_def KV_Restore_def)
  with look ok count show ?thesis by (intro exI [of _ "marshal_map (Some xs)"] exI [of _ ?r] conjI allI)
qed

subsection \<open>Numbers in commands\<close>

text \<open>C35: Commands of the counter. The command that names a 64-bit number adds it to the counter, modulo
  \<open>2 ^ 64\<close>, and records the index; a number out of range is refused and changes nothing.\<close>

theorem Counter_Apply_incr:
  "Counter_Apply i (bytes_of ''incr '' @ bytes_of (fmt_int n)) c =
     (if - (2 ^ 63) \<le> n \<and> n < 2 ^ 63 then (None, \<lparr>cValue = cValue c + of_int n, cApplied = i\<rparr>)
      else (Some (BadNumber ErrRange), c))"
proof -
  let ?d = "bytes_of (fmt_int n)"
  have incr: "bytes_of ''incr '' @ ?d = bytes_of ''incr'' @ 32 # ?d" by (simp add: bytes_of_def)
  have p: "\<forall>b \<in> set (bytes_of ''incr''). plain b" by (simp add: bytes_of_def plain_def)
  have "plain (last (bytes_of ''incr'' @ 32 # ?d))" using fmt_int_plain [of n] fmt_int_nonempty [of n] by simp
  then have "TrimSpace (bytes_of ''incr'' @ 32 # ?d) = bytes_of ''incr'' @ 32 # ?d"
    by (intro TrimSpace_plain) (simp_all add: bytes_of_def plain_def)
  moreover have "Fields (bytes_of ''incr'' @ 32 # ?d) = [bytes_of ''incr'', ?d]"
    using Fields_two [OF p fmt_int_plain _ fmt_int_nonempty] by (simp add: bytes_of_def)
  ultimately show ?thesis
    unfolding incr by (cases c) (simp add: Counter_Apply_def ParseInt_fmt_int Let_def)
qed

subsection \<open>Witnesses\<close>

theorem KV_Apply_spec_witness:
  "\<exists>s. KV_Apply 1 (bytes_of ''set '' @ bytes_of ''a'' @ 32 # bytes_of ''b c'') NewKV = Some (None, s) \<and>
     KV_Get s (bytes_of ''a'') = Some (bytes_of ''b c'')"
  using KV_Apply_spec [of NewKV "bytes_of ''a''" 1 "bytes_of ''b c''"]
  by (auto simp: kv_ok_def NewKV_def map_pairs_def bytes_of_def)

theorem KV_Keys_spec_witness:
  "sorted (KV_Keys \<lparr>kvData = Some [([98], [1]), ([97], [2])], kvApplied = 2\<rparr>) \<and>
   set (KV_Keys \<lparr>kvData = Some [([98], [1]), ([97], [2])], kvApplied = 2\<rparr>) =
     {k. KV_Get \<lparr>kvData = Some [([98], [1]), ([97], [2])], kvApplied = 2\<rparr> k \<noteq> None}"
  using KV_Keys_spec [of "\<lparr>kvData = Some [([98], [1]), ([97], [2])], kvApplied = 2\<rparr>"] by (simp add: kv_ok_def map_pairs_def)

definition set_ab :: "entry list" where
  "set_ab = [\<lparr>eTerm = 1, eIndex = 1, eCommand = bytes_of ''set a b''\<rparr>]"

theorem KV_catch_up_witness:
  "\<exists>s1 data r r1 r2. kv.replay set_ab NewKV = Some s1 \<and> KV_Snapshot s1 = Inr data \<and>
     KV_Restore data NewKV = (None, r) \<and> kv.replay set_ab r = Some r1 \<and>
     kv.replay (set_ab @ set_ab) NewKV = Some r2 \<and> KV_Get r1 = KV_Get r2"
proof -
  have "\<forall>e \<in> set set_ab. utf8_ok (eCommand e)" by code_simp
  then show ?thesis using KV_catch_up [OF NewKV_utf8, of set_ab NewKV set_ab] by auto
qed

theorem KV_null_panics_witness:
  "\<exists>r. KV_Restore (bytes_of ''null'') NewKV = (None, r) \<and> KV_Apply 1 (bytes_of ''set '' @ [97] @ 32 # [98]) r = None"
  using KV_null_panics [of "[97]" NewKV 1 "[98]"] by auto

text \<open>Two keys that a snapshot merges.\<close>

definition bad_keys :: kv where
  "bad_keys = \<lparr>kvData = Some [([254], [97]), ([255], [98])], kvApplied = 2\<rparr>"

theorem KV_snapshot_merges_witness:
  "\<exists>data r. KV_Snapshot bad_keys = Inr data \<and> KV_Restore data NewKV = (None, r) \<and> KV_Len bad_keys = 2 \<and> KV_Len r \<noteq> 2"
proof -
  have get: "KV_Get bad_keys = [[254] \<mapsto> [97], [255] \<mapsto> [98]]"
    by (auto simp: bad_keys_def kv_map_defs fun_eq_iff)
  have "kv_ok bad_keys" "KV_Len bad_keys = 2" by (simp_all add: bad_keys_def kv_ok_def KV_Len_def map_pairs_def)
  moreover have "coerced [254] = coerced [255]"
    by (simp add: coerced_def runes.simps(2) rune_len_def rune_size_def within_def Let_def)
  then have "\<not> inj_on coerced {k. KV_Get bad_keys k \<noteq> None}"
    unfolding get by (auto simp: inj_on_def intro!: exI [of _ "[254]"] exI [of _ "[255]"])
  moreover obtain data r where "KV_Snapshot bad_keys = Inr data" "KV_Restore data NewKV = (None, r)"
      "KV_Len r = KV_Len bad_keys \<longleftrightarrow> inj_on coerced {k. KV_Get bad_keys k \<noteq> None}"
    using KV_snapshot_merges [OF calculation(1), of NewKV] by auto
  ultimately show ?thesis by auto
qed

end
