(* ===== verification/Transport.thy ===== *)
theory Transport
  imports Node
begin

text \<open>
  internal/transport/transport.go: the in-memory transport. The interface \<open>message_bus\<close> is what the
  protocol's drivers rely on, whether they use a transport or the queues of internal/cluster: a
  posted message is appended to its addressee's queue and to no other, and draining a queue returns
  it and empties it. What a sequence of posts leaves to be received is derived once, in the locale.
  The mutex makes every operation atomic; an operation is a function on the transport's state. The
  mailbox is an association list with distinct keys.
\<close>

subsection \<open>The interface of a message bus\<close>

locale message_bus =
  fixes post :: "message \<Rightarrow> 'b \<Rightarrow> 'b"
    and drain :: "u64 \<Rightarrow> 'b \<Rightarrow> 'b"
    and queue :: "'b \<Rightarrow> u64 \<Rightarrow> message list"
    and accepts :: "'b \<Rightarrow> u64 \<Rightarrow> bool"
  assumes queue_post: "accepts b (mTo m) \<Longrightarrow> queue (post m b) i = (if i = mTo m then queue b i @ [m] else queue b i)"
    and accepts_post: "accepts b i \<Longrightarrow> accepts (post m b) i"
    and queue_drain: "accepts b i \<Longrightarrow> queue (drain i b) j = (if j = i then [] else queue b j)"
begin

fun post_all :: "message list \<Rightarrow> 'b \<Rightarrow> 'b" where
  "post_all [] b = b"
| "post_all (m # ms) b = post_all ms (post m b)"

text \<open>Each queue receives the messages addressed to it, in the order in which they were posted.\<close>

lemma queue_post_all:
  "\<forall>m \<in> set ms. accepts b (mTo m) \<Longrightarrow>
     queue (post_all ms b) i = queue b i @ filter (\<lambda>m. mTo m = i) ms"
proof (induction ms arbitrary: b)
  case (Cons m ms)
  then have "queue (post_all ms (post m b)) i = queue (post m b) i @ filter (\<lambda>m. mTo m = i) ms"
    using accepts_post by simp
  with Cons.prems queue_post [of b m i] show ?case by simp
qed simp

lemma drain_then_post:
  assumes "accepts b i" and "\<forall>m \<in> set ms. accepts (drain i b) (mTo m)"
  shows "queue (post_all ms (drain i b)) i = filter (\<lambda>m. mTo m = i) ms"
  using queue_post_all [OF assms(2), of i] queue_drain [OF assms(1), of i] by simp

end

subsection \<open>The in-memory transport\<close>

datatype transport_error = ErrClosed | ErrUnknownPeer

record in_memory =
  mailbox :: "(u64 \<times> message list) list"
  closed :: bool

definition NewInMemory :: "u64 list \<Rightarrow> in_memory" where
  "NewInMemory ids = \<lparr>mailbox = foldl (\<lambda>mb i. AList.update i [] mb) [] ids, closed = False\<rparr>"

definition box :: "in_memory \<Rightarrow> u64 \<Rightarrow> message list" where
  "box t i = mget (map_of (mailbox t)) [] i"

definition Send :: "message \<Rightarrow> in_memory \<Rightarrow> transport_error err \<times> in_memory" where
  "Send m t =
     (if closed t then (Some ErrClosed, t)
      else if map_of (mailbox t) (mTo m) = None then (Some ErrUnknownPeer, t)
      else (None, t\<lparr>mailbox := AList.update (mTo m) (box t (mTo m) @ [m]) (mailbox t)\<rparr>))"

definition Receive :: "u64 \<Rightarrow> in_memory \<Rightarrow> (transport_error + message list) \<times> in_memory" where
  "Receive i t =
     (if closed t then (Inl ErrClosed, t)
      else (Inr (box t i), t\<lparr>mailbox := AList.update i [] (mailbox t)\<rparr>))"

definition Close :: "in_memory \<Rightarrow> transport_error err \<times> in_memory" where
  "Close t = (None, t\<lparr>closed := True\<rparr>)"

definition PendingCount :: "u64 \<Rightarrow> in_memory \<Rightarrow> nat" where
  "PendingCount i t = length (box t i)"

definition TotalPending :: "in_memory \<Rightarrow> nat" where
  "TotalPending t = foldl (\<lambda>total (i, msgs). total + length msgs) 0 (mailbox t)"

definition Reset :: "in_memory \<Rightarrow> in_memory" where
  "Reset t = t\<lparr>mailbox := map (\<lambda>(i, msgs). (i, [])) (mailbox t)\<rparr>"

definition Drop :: "u64 \<Rightarrow> in_memory \<Rightarrow> in_memory" where
  "Drop i t = t\<lparr>mailbox := AList.update i [] (mailbox t)\<rparr>"

definition known :: "in_memory \<Rightarrow> u64 \<Rightarrow> bool" where
  "known t i \<longleftrightarrow> \<not> closed t \<and> map_of (mailbox t) i \<noteq> None"

lemma box_update [simp]: "box (t\<lparr>mailbox := AList.update i ms (mailbox t)\<rparr>) j = (if j = i then ms else box t j)"
  by (simp add: box_def mget_def update_conv')

interpretation mem: message_bus "\<lambda>m t. snd (Send m t)" "\<lambda>i t. snd (Receive i t)" box known
  by unfold_locales (auto simp: Send_def Receive_def known_def update_conv')

lemma foldl_pending: "foldl (\<lambda>total (i, msgs). total + length msgs) k mb = k + sum_list (map (length \<circ> snd) mb)"
  by (induction mb arbitrary: k) auto

lemma TotalPending_eq: "TotalPending t = sum_list (map (length \<circ> snd) (mailbox t))"
  by (simp add: TotalPending_def foldl_pending)

lemma TotalPending_Reset: "TotalPending (Reset t) = 0"
proof -
  have "sum_list (map (length \<circ> snd) (map (\<lambda>(i, msgs). (i, [] :: message list)) mb)) = 0" for mb :: "(u64 \<times> message list) list"
    by (induction mb) auto
  from this [of "mailbox t"] show ?thesis by (simp add: TotalPending_eq Reset_def)
qed

lemma update_new: "i \<notin> fst ` set mb \<Longrightarrow> AList.update i new mb = mb @ [(i, new)]"
  by (induction mb) auto

lemma sum_update:
  fixes mb :: "(u64 \<times> message list) list"
  assumes "distinct (map fst mb)" and "map_of mb i = Some old"
  shows "sum_list (map (length \<circ> snd) (AList.update i new mb)) + length old = sum_list (map (length \<circ> snd) mb) + length new"
  using assms
proof (induction mb)
  case (Cons p mb)
  then show ?case by (cases p) (auto split: if_splits)
qed simp

lemma mem_post_all: "fold (\<lambda>m t. snd (Send m t)) ms t = mem.post_all ms t"
  by (induction ms arbitrary: t) (simp_all only: fold_simps mem.post_all.simps)

lemma closed_post_all: "closed (mem.post_all ms t) = closed t"
proof (induction ms arbitrary: t)
  case (Cons m ms)
  have "closed (snd (Send m t)) = closed t" by (simp add: Send_def)
  with Cons.IH [of "snd (Send m t)"] show ?case by (simp only: mem.post_all.simps)
qed (simp only: mem.post_all.simps)

subsection \<open>Delivery\<close>

text \<open>C38: The transport delivers. To an open transport that knows the addressees, messages sent one after
  another are received, by each addressee, exactly once and in the order in which they were sent,
  after what was already waiting for it; receiving leaves nothing behind.\<close>

theorem Send_Receive:
  assumes "\<not> closed t" and "\<forall>m \<in> set ms. map_of (mailbox t) (mTo m) \<noteq> None"
  shows "let t1 = fold (\<lambda>m t. snd (Send m t)) ms t; (r, t2) = Receive i t1 in
    r = Inr (box t i @ filter (\<lambda>m. mTo m = i) ms) \<and> PendingCount i t2 = 0 \<and>
    (\<forall>j. j \<noteq> i \<longrightarrow> box t2 j = box t j @ filter (\<lambda>m. mTo m = j) ms)"
proof -
  have fold: "fold (\<lambda>m t. snd (Send m t)) ms t = mem.post_all ms t"
    by (rule mem_post_all)
  have "closed (mem.post_all ms t) = closed t" by (rule closed_post_all)
  moreover have "box (mem.post_all ms t) j = box t j @ filter (\<lambda>m. mTo m = j) ms" for j
    using assms by (intro mem.queue_post_all) (auto simp: known_def)
  ultimately show ?thesis using assms(1) by (simp add: fold Receive_def PendingCount_def Let_def)
qed

text \<open>Accounting. A successful send adds one to the total of undelivered messages; a receive, a drop
  and a reset take away exactly the messages they remove. A failed send, to a closed transport or to
  an unknown peer, changes nothing.\<close>

theorem TotalPending_spec:
  assumes "distinct (map fst (mailbox t))"
  shows "(case Send m t of (None, t') \<Rightarrow> TotalPending t' = TotalPending t + 1 | (Some e, t') \<Rightarrow> t' = t) \<and>
    TotalPending (Drop i t) + PendingCount i t = TotalPending t \<and> TotalPending (Reset t) = 0 \<and>
    (closed t \<or> TotalPending (snd (Receive i t)) + PendingCount i t = TotalPending t)"
proof -
  have upd: "sum_list (map (length \<circ> snd) (AList.update i [] (mailbox t))) + length (box t i) =
      sum_list (map (length \<circ> snd) (mailbox t))"
  proof (cases "map_of (mailbox t) i")
    case None
    then have "i \<notin> fst ` set (mailbox t)" by (simp add: map_of_eq_None_iff)
    then have "AList.update i [] (mailbox t) = mailbox t @ [(i, [])]" by (rule update_new)
    with None show ?thesis by (simp add: box_def mget_def)
  next
    case (Some old)
    with sum_update [OF assms Some, of "[]"] show ?thesis by (simp add: box_def mget_def)
  qed
  have "TotalPending (snd (Send m t)) = TotalPending t + 1" if "fst (Send m t) = None"
    using that sum_update [OF assms, of "mTo m" "box t (mTo m)" "box t (mTo m) @ [m]"]
    by (auto simp: Send_def TotalPending_eq box_def mget_def split: if_splits)
  moreover have "snd (Send m t) = t" if "fst (Send m t) \<noteq> None" using that by (auto simp: Send_def split: if_splits)
  ultimately have "case Send m t of (None, t') \<Rightarrow> TotalPending t' = TotalPending t + 1 | (Some e, t') \<Rightarrow> t' = t"
    by (cases "Send m t"; cases "fst (Send m t)") auto
  moreover have "TotalPending (t\<lparr>mailbox := AList.update i [] (mailbox t)\<rparr>) + PendingCount i t = TotalPending t"
    using upd by (simp add: TotalPending_eq PendingCount_def)
  ultimately show ?thesis by (simp add: Drop_def Receive_def TotalPending_Reset)
qed

text \<open>Receiving for an unknown peer makes it known. A send to a peer the transport was not created
  with is refused, but after a receive or a drop for that peer it is accepted, and the message waits
  for a peer that does not exist.\<close>

theorem Receive_registers:
  assumes "\<not> closed t" and "map_of (mailbox t) (mTo m) = None"
  shows "fst (Send m t) = Some ErrUnknownPeer \<and> fst (Send m (snd (Receive (mTo m) t))) = None \<and>
    fst (Send m (Drop (mTo m) t)) = None"
  using assms by (simp add: Send_def Receive_def Drop_def update_conv')

subsection \<open>Witnesses\<close>

definition msg12 :: message where
  "msg12 = NewRequestVote 1 2 1 0 0"

theorem Send_Receive_witness:
  "fst (Receive 2 (snd (Send msg12 (NewInMemory [1, 2, 3])))) = Inr [msg12]"
  using Send_Receive [of "NewInMemory [1, 2, 3]" "[msg12]" 2]
  by (auto simp: NewInMemory_def msg12_def msg_defs box_def mget_def Let_def split: prod.splits)

theorem TotalPending_spec_witness:
  "TotalPending (snd (Send msg12 (NewInMemory [1, 2, 3]))) = TotalPending (NewInMemory [1, 2, 3]) + 1"
proof -
  have "distinct (map fst (mailbox (NewInMemory [1, 2, 3])))" "fst (Send msg12 (NewInMemory [1, 2, 3])) = None"
    by code_simp+
  with TotalPending_spec [of "NewInMemory [1, 2, 3]" msg12 1] show ?thesis by (auto split: prod.splits)
qed

theorem Receive_registers_witness:
  "fst (Send msg12 (NewInMemory [1])) = Some ErrUnknownPeer \<and>
   fst (Send msg12 (snd (Receive (mTo msg12) (NewInMemory [1])))) = None"
  using Receive_registers [of "NewInMemory [1]" msg12] by (simp add: NewInMemory_def msg12_def msg_defs)

end
