(* ===== verification/Protocol.thy ===== *)
theory Protocol
  imports Quorum Node_Facts
begin

text \<open>
  The abstract specification of the protocol: what a peer of internal/node promises the rest of
  the cluster, with timers and replication bookkeeping left out. \<open>Network\<close> shows that
  the handlers of \<open>Node\<close> implement it. Here two safety arguments are carried out: at most one leader
  per term, and the Log Matching Property; commitment is the subject of \<open>Completeness\<close>.

  The argument for one leader per term does not rest on the usual claim that a peer votes at most
  once per term: a candidate that accepts an append forgets its vote and may vote again in the
  same term. It rests on the quorum of the first leader of a term, whose members cannot vote for
  anybody else in that term.
\<close>

subsection \<open>The state and the steps\<close>

record anode =
  aterm :: u64
  avote :: u64
  arole :: State
  avotes :: "u64 set"
  aents :: "entry list"
  acommit :: nat

record anet =
  anodes :: "u64 \<Rightarrow> anode"
  asent :: "message set"

definition aupd :: "anet \<Rightarrow> u64 \<Rightarrow> anode \<Rightarrow> message set \<Rightarrow> anet" where
  "aupd s i n M = s\<lparr>anodes := (anodes s)(i := n), asent := M \<union> asent s\<rparr>"

abbreviation is_ae :: "message \<Rightarrow> bool" where
  "is_ae m \<equiv> mType m = MsgAppendEntries"

abbreviation is_grant :: "message \<Rightarrow> bool" where
  "is_grant m \<equiv> mType m = MsgRequestVoteResp \<and> mGranted m"

abbreviation is_req :: "message \<Rightarrow> bool" where
  "is_req m \<equiv> mType m = MsgRequestVote"

abbreviation is_ack :: "message \<Rightarrow> bool" where
  "is_ack m \<equiv> mType m = MsgAppendEntriesResp \<and> mSuccess m"

text \<open>A message between two different members.\<close>

definition routed :: "u64 set \<Rightarrow> u64 \<Rightarrow> message \<Rightarrow> bool" where
  "routed N i m \<longleftrightarrow> mFrom m = i \<and> i \<in> N \<and> mTo m \<in> N \<and> mTo m \<noteq> i"

text \<open>A message that neither asks for a vote nor grants one, and neither appends entries nor acknowledges
  them.\<close>

definition harmless :: "u64 set \<Rightarrow> u64 \<Rightarrow> message \<Rightarrow> bool" where
  "harmless N i m \<longleftrightarrow> routed N i m \<and> \<not> is_ae m \<and> \<not> is_grant m \<and> \<not> is_req m \<and> \<not> is_ack m"

definition leader_msg :: "u64 set \<Rightarrow> u64 \<Rightarrow> u64 \<Rightarrow> entry list \<Rightarrow> message \<Rightarrow> bool" where
  "leader_msg N i t es m \<longleftrightarrow> routed N i m \<and> is_ae m \<and> mTerm m = t \<and> carries m es"

text \<open>A request for votes describes the end of the candidate's log; a vote is granted to a log that ends
  at least as late as the voter's.\<close>

definition log_end_is :: "entry list \<Rightarrow> message \<Rightarrow> bool" where
  "log_end_is es m \<longleftrightarrow> mLastLogIndex m = of_nat (length es - 1) \<and> mLastLogTerm m = eTerm (last es)"

definition request_msg :: "u64 set \<Rightarrow> u64 \<Rightarrow> u64 \<Rightarrow> entry list \<Rightarrow> message \<Rightarrow> bool" where
  "request_msg N i t es m \<longleftrightarrow> routed N i m \<and> is_req m \<and> mTerm m = t \<and> log_end_is es m"

definition up_to_date :: "entry list \<Rightarrow> message \<Rightarrow> bool" where
  "up_to_date es m \<longleftrightarrow>
     eTerm (last es) < mLastLogTerm m \<or>
     eTerm (last es) = mLastLogTerm m \<and> of_nat (length es - 1) \<le> mLastLogIndex m"

text \<open>An acknowledgement names the last index of the whole log.\<close>

definition ack_msg :: "u64 set \<Rightarrow> u64 \<Rightarrow> u64 \<Rightarrow> entry list \<Rightarrow> message \<Rightarrow> bool" where
  "ack_msg N i t es m \<longleftrightarrow> routed N i m \<and> is_ack m \<and> mTerm m = t \<and> mMatchIndex m = of_nat (length es - 1)"

definition acks :: "anet \<Rightarrow> u64 \<Rightarrow> u64 \<Rightarrow> nat \<Rightarrow> bool" where
  "acks s t v k \<longleftrightarrow> (\<exists>m \<in> asent s. is_ack m \<and> mTerm m = t \<and> mFrom m = v \<and> k \<le> unat (mMatchIndex m))"

text \<open>
  The parameter \<open>ok\<close> restricts the appends that are acknowledged, by the append and the log the
  follower then has. Nothing in this theory depends on it.
\<close>

inductive astep :: "(message \<Rightarrow> entry list \<Rightarrow> bool) \<Rightarrow> u64 set \<Rightarrow> anet \<Rightarrow> anet \<Rightarrow> bool" for ok N where
  quiet: "i \<in> N \<Longrightarrow> \<forall>m \<in> M. harmless N i m \<Longrightarrow> astep ok N s (aupd s i (anodes s i) M)"
| step_down: "i \<in> N \<Longrightarrow> aterm (anodes s i) < t \<Longrightarrow> \<forall>m \<in> M. harmless N i m \<Longrightarrow>
    astep ok N s (aupd s i ((anodes s i)\<lparr>aterm := t, avote := 0, arole := StateFollower, avotes := {}\<rparr>) M)"
| grant: "i \<in> N \<Longrightarrow> c \<in> N \<Longrightarrow> c \<noteq> i \<Longrightarrow> aterm (anodes s i) \<le> t \<Longrightarrow>
    aterm (anodes s i) < t \<or> avote (anodes s i) = 0 \<or> avote (anodes s i) = c \<Longrightarrow>
    n' = (anodes s i)\<lparr>aterm := t, avote := c\<rparr> \<Longrightarrow>
    n'' = (if aterm (anodes s i) < t then n'\<lparr>arole := StateFollower, avotes := {}\<rparr> else n') \<Longrightarrow>
    routed N i m \<Longrightarrow> is_grant m \<Longrightarrow> mTo m = c \<Longrightarrow> mTerm m = t \<Longrightarrow>
    q \<in> asent s \<Longrightarrow> is_req q \<Longrightarrow> mFrom q = c \<Longrightarrow> mTerm q = t \<Longrightarrow> up_to_date (aents (anodes s i)) q \<Longrightarrow>
    astep ok N s (aupd s i n'' {m})"
| timeout: "i \<in> N \<Longrightarrow> aterm (anodes s i) \<noteq> - 1 \<Longrightarrow> arole (anodes s i) \<noteq> StateLeader \<Longrightarrow>
    \<forall>m \<in> M. request_msg N i (aterm (anodes s i) + 1) (aents (anodes s i)) m \<Longrightarrow>
    astep ok N s (aupd s i ((anodes s i)\<lparr>aterm := aterm (anodes s i) + 1, avote := i,
      arole := StateCandidate, avotes := {i}\<rparr>) M)"
| collect: "i \<in> N \<Longrightarrow> arole (anodes s i) = StateCandidate \<Longrightarrow> m \<in> asent s \<Longrightarrow> is_grant m \<Longrightarrow>
    mTo m = i \<Longrightarrow> mTerm m = aterm (anodes s i) \<Longrightarrow>
    astep ok N s (aupd s i ((anodes s i)\<lparr>avotes := insert (mFrom m) (avotes (anodes s i))\<rparr>) {})"
| win: "i \<in> N \<Longrightarrow> arole (anodes s i) = StateCandidate \<Longrightarrow> is_majority N (avotes (anodes s i)) \<Longrightarrow>
    \<forall>m \<in> M. leader_msg N i (aterm (anodes s i)) (aents (anodes s i)) m \<Longrightarrow>
    \<forall>m \<in> M. unat (mLeaderCommit m) = acommit (anodes s i) \<Longrightarrow>
    astep ok N s (aupd s i ((anodes s i)\<lparr>arole := StateLeader, avotes := {}\<rparr>) M)"
| heartbeat: "i \<in> N \<Longrightarrow> arole (anodes s i) = StateLeader \<Longrightarrow>
    \<forall>m \<in> M. leader_msg N i (aterm (anodes s i)) (aents (anodes s i)) m \<Longrightarrow>
    \<forall>m \<in> M. unat (mLeaderCommit m) = acommit (anodes s i) \<Longrightarrow>
    astep ok N s (aupd s i (anodes s i) M)"
| refuse: "i \<in> N \<Longrightarrow> m \<in> asent s \<Longrightarrow> is_ae m \<Longrightarrow> mTo m = i \<Longrightarrow> aterm (anodes s i) \<le> mTerm m \<Longrightarrow>
    keep = (arole (anodes s i) = StateFollower \<and> aterm (anodes s i) = mTerm m) \<Longrightarrow>
    \<forall>m' \<in> M. harmless N i m' \<Longrightarrow>
    astep ok N s (aupd s i ((anodes s i)\<lparr>aterm := mTerm m,
      avote := (if keep then avote (anodes s i) else 0), arole := StateFollower, avotes := {}\<rparr>) M)"
| accept: "i \<in> N \<Longrightarrow> m \<in> asent s \<Longrightarrow> is_ae m \<Longrightarrow> mTo m = i \<Longrightarrow> aterm (anodes s i) \<le> mTerm m \<Longrightarrow>
    keep = (arole (anodes s i) = StateFollower \<and> aterm (anodes s i) = mTerm m) \<Longrightarrow>
    mPrevLogIndex m = of_nat p \<Longrightarrow> p < length (aents (anodes s i)) \<Longrightarrow>
    eTerm (aents (anodes s i) ! p) = mPrevLogTerm m \<Longrightarrow>
    es = merged (aents (anodes s i)) (Suc p) (mEntries m) \<Longrightarrow>
    c \<le> max (acommit (anodes s i)) (unat (mLeaderCommit m)) \<Longrightarrow> c < length es \<Longrightarrow> ok m es \<Longrightarrow>
    \<forall>m' \<in> M. ack_msg N i (mTerm m) es m' \<Longrightarrow>
    astep ok N s (aupd s i ((anodes s i)\<lparr>aterm := mTerm m,
      avote := (if keep then avote (anodes s i) else 0), arole := StateFollower, avotes := {},
      aents := es, acommit := c\<rparr>) M)"
| commit: "i \<in> N \<Longrightarrow> arole (anodes s i) = StateLeader \<Longrightarrow> k < length (aents (anodes s i)) \<Longrightarrow>
    eTerm (aents (anodes s i) ! k) = aterm (anodes s i) \<Longrightarrow> is_majority N Q \<Longrightarrow>
    \<forall>v \<in> Q. v = i \<or> acks s (aterm (anodes s i)) v k \<Longrightarrow>
    astep ok N s (aupd s i ((anodes s i)\<lparr>acommit := k\<rparr>) {})"
| propose: "i \<in> N \<Longrightarrow> arole (anodes s i) = StateLeader \<Longrightarrow> eTerm e = aterm (anodes s i) \<Longrightarrow>
    eIndex e = of_nat (length (aents (anodes s i))) \<Longrightarrow>
    Suc (length (aents (anodes s i))) < 2 ^ 63 \<Longrightarrow> length (eCommand e) < 2 ^ 63 \<Longrightarrow>
    astep ok N s (aupd s i ((anodes s i)\<lparr>aents := aents (anodes s i) @ [e]\<rparr>) {})"
| crash: "i \<in> N \<Longrightarrow> c \<le> acommit (anodes s i) \<Longrightarrow>
    astep ok N s (aupd s i ((anodes s i)\<lparr>arole := StateFollower, avotes := {}, acommit := c\<rparr>) {})"

definition ainit :: "anet \<Rightarrow> bool" where
  "ainit s \<longleftrightarrow> asent s = {} \<and>
     (\<forall>i. anodes s i = \<lparr>aterm = 0, avote = 0, arole = StateFollower, avotes = {}, aents = [dummy],
       acommit = 0\<rparr>)"

subsection \<open>One leader per term\<close>

text \<open>
  \<open>ld t\<close> is the leader of term \<open>t\<close>, once there has been one. A member of that leader's quorum is
  locked: it has moved on to a later term, or still stands by its vote.
\<close>

definition locked :: "anet \<Rightarrow> u64 \<Rightarrow> u64 \<Rightarrow> u64 \<Rightarrow> bool" where
  "locked s t l v \<longleftrightarrow>
     t < aterm (anodes s v) \<or>
     t = aterm (anodes s v) \<and> avote (anodes s v) = l \<and> arole (anodes s v) \<noteq> StateCandidate \<and>
     (v \<noteq> l \<longrightarrow> arole (anodes s v) = StateFollower)"

definition grants :: "anet \<Rightarrow> u64 \<Rightarrow> u64 \<Rightarrow> u64 \<Rightarrow> bool" where
  "grants s t v c \<longleftrightarrow> (\<exists>m \<in> asent s. is_grant m \<and> mTerm m = t \<and> mFrom m = v \<and> mTo m = c)"

definition addressed :: "u64 set \<Rightarrow> anet \<Rightarrow> bool" where
  "addressed N s \<longleftrightarrow> (\<forall>m \<in> asent s. routed N (mFrom m) m)"

definition candidates_ok :: "u64 set \<Rightarrow> anet \<Rightarrow> bool" where
  "candidates_ok N s \<longleftrightarrow>
     (\<forall>i \<in> N. arole (anodes s i) = StateCandidate \<longrightarrow>
        avote (anodes s i) = i \<and> aterm (anodes s i) \<noteq> 0 \<and> i \<in> avotes (anodes s i) \<and>
        (\<forall>v \<in> avotes (anodes s i). v = i \<or> grants s (aterm (anodes s i)) v i))"

text \<open>Before a term has a leader, a peer's vote in it is its current vote.\<close>

definition votes_ok :: "anet \<Rightarrow> (u64 \<rightharpoonup> u64) \<Rightarrow> bool" where
  "votes_ok s ld \<longleftrightarrow>
     (\<forall>t v c. ld t = None \<longrightarrow> grants s t v c \<longrightarrow>
        (t < aterm (anodes s v) \<or>
         t = aterm (anodes s v) \<and> avote (anodes s v) = c \<and> arole (anodes s v) = StateFollower) \<and>
        (\<forall>c'. grants s t v c' \<longrightarrow> c' = c))"

definition leaders_ok :: "u64 set \<Rightarrow> anet \<Rightarrow> (u64 \<rightharpoonup> u64) \<Rightarrow> bool" where
  "leaders_ok N s ld \<longleftrightarrow>
     (\<forall>m \<in> asent s. is_ae m \<longrightarrow> ld (mTerm m) = Some (mFrom m)) \<and>
     (\<forall>i \<in> N. arole (anodes s i) = StateLeader \<longrightarrow> ld (aterm (anodes s i)) = Some i)"

definition quorums_ok :: "u64 set \<Rightarrow> anet \<Rightarrow> (u64 \<rightharpoonup> u64) \<Rightarrow> bool" where
  "quorums_ok N s ld \<longleftrightarrow>
     (\<forall>t l. ld t = Some l \<longrightarrow>
        (\<exists>Q. is_majority N Q \<and> l \<in> Q \<and> (\<forall>v \<in> Q. locked s t l v \<and> (\<forall>c. grants s t v c \<longrightarrow> c = l))))"

definition election_inv :: "u64 set \<Rightarrow> anet \<Rightarrow> (u64 \<rightharpoonup> u64) \<Rightarrow> bool" where
  "election_inv N s ld \<longleftrightarrow>
     0 \<notin> N \<and> addressed N s \<and> candidates_ok N s \<and> votes_ok s ld \<and> leaders_ok N s ld \<and> quorums_ok N s ld"

text \<open>A change of a peer that keeps what it promised by its vote.\<close>

definition keeps :: "anode \<Rightarrow> anode \<Rightarrow> bool" where
  "keeps n n' \<longleftrightarrow>
     aterm n < aterm n' \<or>
     aterm n' = aterm n \<and>
       (arole n = StateCandidate \<or>
        (avote n \<noteq> 0 \<longrightarrow> avote n' = avote n) \<and> (arole n' = arole n \<or> arole n' = StateFollower))"

lemma aupd_simps [simp]:
  "anodes (aupd s i n M) = (anodes s)(i := n)"
  "asent (aupd s i n M) = M \<union> asent s"
  by (simp_all add: aupd_def)

lemma grants_aupd:
  "grants (aupd s i n M) t v c \<longleftrightarrow>
     grants s t v c \<or> (\<exists>m \<in> M. is_grant m \<and> mTerm m = t \<and> mFrom m = v \<and> mTo m = c)"
  by (auto simp: grants_def)

lemma locked_keeps:
  "keeps (anodes s i) n' \<Longrightarrow> l \<noteq> 0 \<Longrightarrow> locked s t l v \<Longrightarrow> locked (aupd s i n' M) t l v"
  by (auto simp: locked_def keeps_def)

lemma addressed_aupd:
  "addressed N s \<Longrightarrow> \<forall>m \<in> M. routed N i m \<Longrightarrow> addressed N (aupd s i n' M)"
  by (auto simp: addressed_def routed_def)

lemma grants_members: "addressed N s \<Longrightarrow> grants s t v c \<Longrightarrow> v \<in> N \<and> c \<in> N \<and> c \<noteq> v"
  by (auto simp: addressed_def grants_def routed_def)

lemma election_inv_members:
  assumes "election_inv N s ld" and "ld t = Some l"
  shows "l \<in> N" and "l \<noteq> 0"
  using assms by (auto simp: election_inv_def quorums_ok_def is_majority_def, blast+)

lemma election_inv_quorum:
  assumes "election_inv N s ld" and "ld t = Some l"
  obtains Q where "is_majority N Q" and "l \<in> Q"
    and "\<forall>v \<in> Q. locked s t l v \<and> (\<forall>c. grants s t v c \<longrightarrow> c = l)"
  using assms unfolding election_inv_def quorums_ok_def by blast

text \<open>Votes cast by \<open>i\<close> in a step go to whom it now votes for, in its new term.\<close>

definition new_grants_ok :: "(u64 \<rightharpoonup> u64) \<Rightarrow> anode \<Rightarrow> message set \<Rightarrow> bool" where
  "new_grants_ok ld n' M \<longleftrightarrow>
     (\<forall>m \<in> M. is_grant m \<longrightarrow>
        mTerm m = aterm n' \<and> mTo m = avote n' \<and> (ld (mTerm m) = None \<longrightarrow> arole n' = StateFollower))"

lemma votes_okD:
  assumes "votes_ok s ld" and "ld t = None" and "grants s t v c"
  shows "t < aterm (anodes s v) \<or>
    t = aterm (anodes s v) \<and> avote (anodes s v) = c \<and> arole (anodes s v) = StateFollower"
    and "grants s t v c' \<Longrightarrow> c' = c"
  using assms unfolding votes_ok_def by blast+

text \<open>The votes recorded after a step of \<open>i\<close>, in a term without a leader: old ones still stand, and if
  \<open>i\<close> casts one, all of its votes in the term are its current vote.\<close>

definition stands :: "anet \<Rightarrow> u64 \<Rightarrow> u64 \<Rightarrow> u64 \<Rightarrow> bool" where
  "stands s t v c \<longleftrightarrow> t < aterm (anodes s v) \<or>
     t = aterm (anodes s v) \<and> avote (anodes s v) = c \<and> arole (anodes s v) = StateFollower"

lemma stands_old:
  assumes "election_inv N s ld" and "keeps (anodes s i) n'" and "ld t = None" and "grants s t v c"
  shows "stands (aupd s i n' M) t v c"
proof -
  have "c \<noteq> 0" "votes_ok s ld"
    using assms(1) grants_members [of N s, OF _ assms(4)] by (auto simp: election_inv_def)
  with votes_okD(1) [OF this(2) assms(3,4)] assms(2) show ?thesis by (auto simp: stands_def keeps_def)
qed

lemma new_grant:
  assumes "\<forall>m \<in> M. routed N i m" and "new_grants_ok ld n' M" and "ld t = None"
    and "m \<in> M" and "is_grant m" and "mTerm m = t" and "mFrom m = v" and "mTo m = c"
  shows "v = i" and "t = aterm n'" and "c = avote n'" and "arole n' = StateFollower"
  using assms by (auto simp: new_grants_ok_def routed_def)

lemma votes_ok_step:
  assumes inv: "election_inv N s ld" and k: "keeps (anodes s i) n'" and i: "i \<in> N"
    and M: "\<forall>m \<in> M. routed N i m" and g: "new_grants_ok ld n' M"
  shows "votes_ok (aupd s i n' M) ld"
proof -
  let ?s' = "aupd s i n' M"
  have votes: "votes_ok s ld" using inv by (simp add: election_inv_def)
  note old = stands_old [OF inv k] and new = new_grant [OF M g]
  have st: "stands ?s' t v c" if "ld t = None" "grants ?s' t v c" for t v c
  proof (cases "grants s t v c")
    case True
    with that(1) show ?thesis by (rule old)
  next
    case False
    with that(2) obtain m where "m \<in> M" "is_grant m" "mTerm m = t" "mFrom m = v" "mTo m = c"
      by (auto simp: grants_aupd)
    from new [OF that(1) this] show ?thesis by (simp add: stands_def)
  qed
  have "c' = c" if t: "ld t = None" and gr: "grants ?s' t v c" "grants ?s' t v c'" for t v c c'
  proof (cases "grants s t v c \<and> grants s t v c'")
    case True
    with votes_okD(2) [OF votes t] show ?thesis by blast
  next
    case False
    then have "v = i \<and> t = aterm n'" using gr new(1,2) [OF t] unfolding grants_aupd by blast
    with st [OF t gr(1)] st [OF t gr(2)] show ?thesis by (simp add: stands_def)
  qed
  with st show ?thesis unfolding votes_ok_def stands_def by blast
qed

lemma quorums_ok_step:
  assumes inv: "election_inv N s ld" and k: "keeps (anodes s i) n'"
    and M: "\<forall>m \<in> M. routed N i m" and g: "new_grants_ok ld n' M"
  shows "quorums_ok N (aupd s i n' M) ld"
  unfolding quorums_ok_def
proof (intro allI impI)
  fix t l
  assume l: "ld t = Some l"
  have l0: "l \<noteq> 0" using election_inv_members(2) [OF inv l] .
  obtain Q where Q: "is_majority N Q" "l \<in> Q"
      "\<forall>v \<in> Q. locked s t l v \<and> (\<forall>c. grants s t v c \<longrightarrow> c = l)"
    using election_inv_quorum [OF inv l] .
  have "c = l" if "v \<in> Q" "m \<in> M" "is_grant m" "mTerm m = t" "mFrom m = v" "mTo m = c" for m v c
  proof -
    have "v = i" "t = aterm n'" "c = avote n'"
      using that g M by (auto simp: new_grants_ok_def routed_def)
    moreover have "locked (aupd s i n' M) t l v" using locked_keeps [OF k l0] Q that by blast
    ultimately show ?thesis by (auto simp: locked_def)
  qed
  then have "\<forall>v \<in> Q. locked (aupd s i n' M) t l v \<and> (\<forall>c. grants (aupd s i n' M) t v c \<longrightarrow> c = l)"
    using Q(3) locked_keeps [OF k l0] unfolding grants_aupd by blast
  with Q(1,2) show "\<exists>Q. is_majority N Q \<and> l \<in> Q \<and>
      (\<forall>v \<in> Q. locked (aupd s i n' M) t l v \<and> (\<forall>c. grants (aupd s i n' M) t v c \<longrightarrow> c = l))"
    by blast
qed

text \<open>Every step but an election victory keeps the invariant, with the same leaders.\<close>

lemma election_inv_step:
  assumes inv: "election_inv N s ld" and i: "i \<in> N" and k: "keeps (anodes s i) n'"
    and M: "\<forall>m \<in> M. routed N i m" and g: "new_grants_ok ld n' M"
    and ae: "\<forall>m \<in> M. is_ae m \<longrightarrow> arole (anodes s i) = StateLeader \<and> mTerm m = aterm (anodes s i)"
    and ldr: "arole n' = StateLeader \<longrightarrow> arole (anodes s i) = StateLeader \<and> aterm n' = aterm (anodes s i)"
    and cand: "arole n' = StateCandidate \<longrightarrow> avote n' = i \<and> aterm n' \<noteq> 0 \<and> i \<in> avotes n' \<and>
      (\<forall>v \<in> avotes n'. v = i \<or> grants s (aterm n') v i)"
  shows "election_inv N (aupd s i n' M) ld"
proof -
  have "candidates_ok N (aupd s i n' M)"
    using inv cand unfolding election_inv_def candidates_ok_def grants_aupd by auto
  moreover have "leaders_ok N (aupd s i n' M) ld"
    using inv i ldr ae M unfolding election_inv_def leaders_ok_def routed_def by auto
  ultimately show ?thesis
    using inv votes_ok_step [OF inv k i M g] quorums_ok_step [OF inv k M g] addressed_aupd [of N s M i n'] M
    by (auto simp: election_inv_def)
qed

text \<open>A candidate that wins is the first leader of its term.\<close>

lemma win_first:
  assumes inv: "election_inv N s ld" and i: "i \<in> N" and c: "arole (anodes s i) = StateCandidate"
    and V: "is_majority N (avotes (anodes s i))"
  shows "ld (aterm (anodes s i)) = None"
proof (rule ccontr)
  let ?t = "aterm (anodes s i)"
  assume "ld ?t \<noteq> None"
  then obtain l where l: "ld ?t = Some l" by blast
  obtain Q where Q: "is_majority N Q" "l \<in> Q"
      "\<forall>v \<in> Q. locked s ?t l v \<and> (\<forall>c. grants s ?t v c \<longrightarrow> c = l)"
    using election_inv_quorum [OF inv l] .
  then have "i \<notin> Q" using c by (auto simp: locked_def)
  obtain v where v: "v \<in> avotes (anodes s i)" "v \<in> Q"
    using majorities.quorums_meet [OF V Q(1)] by blast
  then have "v \<noteq> i" using \<open>i \<notin> Q\<close> by auto
  then have "grants s ?t v i"
    using inv i c v by (auto simp: election_inv_def candidates_ok_def)
  with Q v have "i = l" by blast
  with Q(2) \<open>i \<notin> Q\<close> show False by simp
qed

text \<open>The voters of a candidate in a term without a leader are locked on it.\<close>

lemma voters_locked:
  assumes inv: "election_inv N s ld" and i: "i \<in> N" and c: "arole (anodes s i) = StateCandidate"
    and none: "ld (aterm (anodes s i)) = None" and v: "v \<in> avotes (anodes s i)"
    and n': "n' = (anodes s i)\<lparr>arole := StateLeader, avotes := {}\<rparr>"
  shows "locked (aupd s i n' M) (aterm (anodes s i)) i v \<and> (\<forall>x. grants s (aterm (anodes s i)) v x \<longrightarrow> x = i)"
proof -
  from inv have votes: "votes_ok s ld" and mine: "avote (anodes s i) = i"
      "v \<noteq> i \<Longrightarrow> grants s (aterm (anodes s i)) v i"
    using i c v by (auto simp: election_inv_def candidates_ok_def)
  show ?thesis
  proof (cases "v = i")
    case True
    then have "\<not> grants s (aterm (anodes s i)) v x" for x
      using votes_okD(1) [OF votes none, of v x] c by auto
    with True mine show ?thesis by (simp add: locked_def n')
  next
    case False
    from votes_okD [OF votes none mine(2) [OF False]] False show ?thesis by (auto simp: locked_def n')
  qed
qed

lemma election_inv_win:
  assumes inv: "election_inv N s ld" and i: "i \<in> N" and c: "arole (anodes s i) = StateCandidate"
    and V: "is_majority N (avotes (anodes s i))"
    and M: "\<forall>m \<in> M. leader_msg N i (aterm (anodes s i)) es m"
  shows "election_inv N (aupd s i ((anodes s i)\<lparr>arole := StateLeader, avotes := {}\<rparr>) M)
     (ld(aterm (anodes s i) \<mapsto> i))"
    (is "election_inv N ?s' ?ld")
proof -
  let ?t = "aterm (anodes s i)" and ?n' = "(anodes s i)\<lparr>arole := StateLeader, avotes := {}\<rparr>"
  have none: "ld ?t = None" using win_first [OF inv i c V] .
  have k: "keeps (anodes s i) ?n'" using c by (simp add: keeps_def)
  have routed: "\<forall>m \<in> M. routed N i m" and g: "new_grants_ok ld ?n' M"
    using M by (auto simp: leader_msg_def new_grants_ok_def)
  have no_new: "grants ?s' t v x \<longleftrightarrow> grants s t v x" for t v x
    using M by (auto simp: grants_aupd leader_msg_def)
  from inv have cands: "candidates_ok N s" by (simp add: election_inv_def)
  then have mine: "i \<in> avotes (anodes s i)" using i c by (simp add: candidates_ok_def)
  have "candidates_ok N ?s'" using cands unfolding candidates_ok_def no_new by auto
  moreover have "votes_ok ?s' ?ld"
    using votes_ok_step [OF inv k i routed g] by (simp add: votes_ok_def)
  moreover have "leaders_ok N ?s' ?ld"
    using inv none M i by (auto simp: election_inv_def leaders_ok_def leader_msg_def routed_def)
  moreover have "quorums_ok N ?s' ?ld"
    unfolding quorums_ok_def
  proof (intro allI impI)
    fix t l
    assume l: "?ld t = Some l"
    show "\<exists>Q. is_majority N Q \<and> l \<in> Q \<and> (\<forall>v \<in> Q. locked ?s' t l v \<and> (\<forall>x. grants ?s' t v x \<longrightarrow> x = l))"
    proof (cases "t = ?t")
      case False
      with l quorums_ok_step [OF inv k routed g] show ?thesis by (simp add: quorums_ok_def)
    next
      case True
      with l V mine voters_locked [OF inv i c none _ refl] show ?thesis unfolding no_new by auto
    qed
  qed
  ultimately show ?thesis
    using inv addressed_aupd [of N s M i ?n'] routed by (simp add: election_inv_def)
qed

subsection \<open>Log Matching\<close>

text \<open>
  \<open>h t\<close> is the log of the leader of term \<open>t\<close>. Every log is a path of the tree these logs form: up to
  each of its entries it agrees with the log of the leader of that entry's term.
\<close>

definition path :: "(u64 \<Rightarrow> entry list) \<Rightarrow> entry list \<Rightarrow> bool" where
  "path h es \<longleftrightarrow>
     indexed es \<and> (\<forall>e \<in> set es. length (eCommand e) < 2 ^ 63) \<and>
     (\<forall>k < length es. take (Suc k) es = take (Suc k) (h (eTerm (es ! k))))"

definition log_inv :: "u64 set \<Rightarrow> anet \<Rightarrow> (u64 \<rightharpoonup> u64) \<Rightarrow> (u64 \<Rightarrow> entry list) \<Rightarrow> bool" where
  "log_inv N s ld h \<longleftrightarrow>
     (\<forall>t. path h (h t)) \<and> (\<forall>i \<in> N. path h (aents (anodes s i))) \<and>
     (\<forall>t. ld t = None \<longrightarrow> h t = [dummy]) \<and>
     (\<forall>i \<in> N. arole (anodes s i) = StateLeader \<longrightarrow> aents (anodes s i) = h (aterm (anodes s i))) \<and>
     (\<forall>m \<in> asent s. is_ae m \<longrightarrow> carries m (h (mTerm m)))"

lemma log_invD:
  assumes "log_inv N s ld h"
  shows "path h (h t)" and "i \<in> N \<Longrightarrow> path h (aents (anodes s i))"
    and "ld t = None \<Longrightarrow> h t = [dummy]"
    and "i \<in> N \<Longrightarrow> arole (anodes s i) = StateLeader \<Longrightarrow> aents (anodes s i) = h (aterm (anodes s i))"
    and "m \<in> asent s \<Longrightarrow> is_ae m \<Longrightarrow> carries m (h (mTerm m))"
  using assms by (auto simp: log_inv_def)

lemma path_indexed: "path h es \<Longrightarrow> indexed es"
  by (simp add: path_def)

lemma path_coherent: "path h a \<Longrightarrow> path h b \<Longrightarrow> coherent a b"
  by (auto simp: path_def coherent_def)

lemma path_take: "path h es \<Longrightarrow> 0 < j \<Longrightarrow> path h (take j es)"
  by (auto simp: path_def indexed_take min_def dest: in_set_takeD)

text \<open>A term without a leader has no entries.\<close>

lemma path_fresh:
  assumes "path h es" and "h t = [dummy]" and "t \<noteq> 0" and "k < length es"
  shows "eTerm (es ! k) \<noteq> t"
proof
  assume t: "eTerm (es ! k) = t"
  then have "take (Suc k) es = take (Suc k) [dummy]" using assms by (auto simp: path_def)
  then have "min (length es) (Suc k) = min 1 (Suc k)" by (metis length_take length_Cons list.size(3) One_nat_def)
  then have "k = 0" using assms(4) by simp
  with t assms(1,3) show False by (simp add: path_def indexed_def dummy_def)
qed

lemma path_new_leader:
  assumes "path h es" and "h t = [dummy]" and "t \<noteq> 0"
  shows "path (h(t := x)) es"
  using assms(1) path_fresh [OF assms] by (simp add: path_def)

lemma path_extend:
  assumes "path h es"
  shows "path (h(t := h t @ [e])) es"
  unfolding path_def
proof (intro conjI allI impI)
  show "indexed es" "\<forall>e \<in> set es. length (eCommand e) < 2 ^ 63"
    using assms by (auto simp: path_def)
  fix k
  assume k: "k < length es"
  then have eq: "take (Suc k) es = take (Suc k) (h (eTerm (es ! k)))"
    using assms by (simp add: path_def)
  then have "length (take (Suc k) (h (eTerm (es ! k)))) = Suc k" using k by (metis length_take min.absorb2 Suc_leI)
  then have "Suc k \<le> length (h (eTerm (es ! k)))" by simp
  with eq show "take (Suc k) es = take (Suc k) ((h(t := h t @ [e])) (eTerm (es ! k)))" by auto
qed

lemma path_snoc:
  assumes "path h (h t)" and "eTerm e = t" and "eIndex e = of_nat (length (h t))"
    and "Suc (length (h t)) < 2 ^ 63" and "length (eCommand e) < 2 ^ 63"
  shows "path (h(t := h t @ [e])) (h t @ [e])"
proof -
  have "indexed (h t @ [e])" using assms by (intro indexed_append) (auto simp: path_def)
  moreover have "take (Suc k) (h t @ [e]) = take (Suc k) ((h(t := h t @ [e])) (eTerm ((h t @ [e]) ! k)))"
    if "k < length (h t @ [e])" for k
  proof (cases "k = length (h t)")
    case True
    then show ?thesis using assms(2) by simp
  next
    case False
    with that have "k < length (h t)" by simp
    moreover from this path_extend [OF assms(1), of t e]
    have "take (Suc k) (h t) = take (Suc k) ((h(t := h t @ [e])) (eTerm (h t ! k)))"
      by (simp only: path_def)
    ultimately show ?thesis by (simp add: nth_append)
  qed
  ultimately show ?thesis using assms by (auto simp: path_def)
qed

lemma carries_append: "carries m es \<Longrightarrow> carries m (es @ ys)"
proof -
  assume "carries m es"
  then obtain k j where "k < j" "j \<le> length es" "mPrevLogIndex m = of_nat k"
      "mPrevLogTerm m = eTerm (es ! k)" "mEntries m = drop (Suc k) (take j es)"
    by (auto simp: carries_def)
  then show ?thesis
    unfolding carries_def by (intro exI [of _ k] exI [of _ j]) (simp add: nth_append)
qed

text \<open>Storing entries that a leader sent: the log stays as it is if it already holds all of them, and is
  the leader's log up to the last of them otherwise. Either is a path.\<close>

lemma merged_path:
  assumes es: "path h es" and hist: "path h (h t)" and c: "carries m (h t)"
    and p: "mPrevLogIndex m = of_nat p" "p < length es" "eTerm (es ! p) = mPrevLogTerm m"
  obtains j where "j = Suc (unat (mPrevLogIndex m) + length (mEntries m))" and "j \<le> length (h t)"
    and "merged es (Suc p) (mEntries m) = (if prefix (take j (h t)) es then es else take j (h t))"
proof -
  obtain k j where kj: "k < j" "j \<le> length (h t)" "mPrevLogIndex m = of_nat k"
      "mPrevLogTerm m = eTerm (h t ! k)" "mEntries m = drop (Suc k) (take j (h t))"
    using c by (auto simp: carries_def)
  have p63: "p < 2 ^ 63" "k < 2 ^ 63"
    using p(2) kj(1,2) indexedD(4) [OF path_indexed [OF es]] indexedD(4) [OF path_indexed [OF hist]]
    by linarith+
  then have "k = p" using p(1) kj(3) by (metis unat_of_nat_len)
  let ?b = "take j (h t)"
  have b: "path h ?b" using kj by (intro path_take [OF hist]) simp
  have co: "coherent es ?b" using es b by (rule path_coherent)
  have "take (Suc p) es = take (Suc p) ?b"
    using p kj \<open>k = p\<close> by (intro coherentD [OF co]) simp_all
  then have m: "merged es (Suc p) (drop (Suc p) ?b) = (if prefix ?b es then es else ?b)"
    using p kj \<open>k = p\<close> by (intro merged_adopt [OF co]) simp_all
  have "j = Suc (unat (mPrevLogIndex m) + length (mEntries m))"
    using kj p63 by simp
  from this kj(2) show ?thesis by (rule that) (use m in \<open>simp only: kj(5) \<open>k = p\<close>\<close>)
qed

lemma path_merged:
  assumes "path h es" and "path h (h t)" and "carries m (h t)"
    and "mPrevLogIndex m = of_nat p" "p < length es" "eTerm (es ! p) = mPrevLogTerm m"
  shows "path h (merged es (Suc p) (mEntries m))"
proof (rule merged_path [OF assms])
  fix j
  assume "j = Suc (unat (mPrevLogIndex m) + length (mEntries m))"
    and "merged es (Suc p) (mEntries m) = (if prefix (take j (h t)) es then es else take j (h t))"
  then show ?thesis using assms(1) path_take [OF assms(2), of j] by simp
qed

lemma log_inv_step:
  assumes "log_inv N s ld h" and "i \<in> N" and "path h (aents n')"
    and "arole n' = StateLeader \<longrightarrow> arole (anodes s i) = StateLeader \<and> aterm n' = aterm (anodes s i) \<and>
      aents n' = aents (anodes s i)"
    and "\<forall>m \<in> M. is_ae m \<longrightarrow> arole (anodes s i) = StateLeader \<and> mTerm m = aterm (anodes s i) \<and>
      carries m (aents (anodes s i))"
  shows "log_inv N (aupd s i n' M) ld h"
  using assms by (auto simp: log_inv_def)

lemma log_inv_win:
  assumes inv: "log_inv N s ld h" and i: "i \<in> N" and none: "ld (aterm (anodes s i)) = None"
    and t0: "aterm (anodes s i) \<noteq> 0"
    and other: "\<forall>j \<in> N. arole (anodes s j) = StateLeader \<longrightarrow> ld (aterm (anodes s j)) = Some j"
    and ae: "\<forall>m \<in> asent s. is_ae m \<longrightarrow> ld (mTerm m) = Some (mFrom m)"
    and M: "\<forall>m \<in> M. leader_msg N i (aterm (anodes s i)) (aents (anodes s i)) m"
  shows "log_inv N (aupd s i ((anodes s i)\<lparr>arole := StateLeader, avotes := {}\<rparr>) M)
     (ld(aterm (anodes s i) \<mapsto> i)) (h(aterm (anodes s i) := aents (anodes s i)))"
proof -
  let ?t = "aterm (anodes s i)"
  have d: "h ?t = [dummy]" using log_invD(3) [OF inv none] .
  have paths: "path (h(?t := aents (anodes s i))) es" if "path h es" for es
    using path_new_leader [OF that d t0] .
  have "aterm (anodes s j) \<noteq> ?t" if "j \<in> N" "arole (anodes s j) = StateLeader" for j
    using other that none by force
  moreover have "mTerm m \<noteq> ?t" if "m \<in> asent s" "is_ae m" for m
    using ae that none by force
  ultimately show ?thesis
    using inv i paths M by (auto simp: log_inv_def leader_msg_def)
qed

lemma log_inv_propose:
  assumes inv: "log_inv N s ld h" and i: "i \<in> N" and l: "arole (anodes s i) = StateLeader"
    and e: "eTerm e = aterm (anodes s i)" "eIndex e = of_nat (length (aents (anodes s i)))"
      "Suc (length (aents (anodes s i))) < 2 ^ 63" "length (eCommand e) < 2 ^ 63"
    and ldr: "\<forall>j \<in> N. arole (anodes s j) = StateLeader \<longrightarrow> ld (aterm (anodes s j)) = Some j"
  shows "log_inv N (aupd s i ((anodes s i)\<lparr>aents := aents (anodes s i) @ [e]\<rparr>) {})
     ld (h(aterm (anodes s i) := h (aterm (anodes s i)) @ [e]))"
proof -
  let ?t = "aterm (anodes s i)"
  let ?h = "h(?t := h ?t @ [e])"
  have es: "aents (anodes s i) = h ?t" using log_invD(4) [OF inv i l] .
  have paths: "path ?h es" if "path h es" for es using path_extend [OF that] .
  have new: "path ?h (h ?t @ [e])"
    using e log_invD(1) [OF inv] unfolding es by (intro path_snoc) auto
  have "ld ?t = Some i" using ldr i l by blast
  then have "aterm (anodes s j) \<noteq> ?t" if "j \<in> N" "j \<noteq> i" "arole (anodes s j) = StateLeader" for j
    using ldr that by force
  with inv es paths new \<open>ld ?t = Some i\<close> show ?thesis
    by (auto simp: log_inv_def carries_append)
qed

subsection \<open>Every step keeps both invariants\<close>

definition safe_inv :: "u64 set \<Rightarrow> anet \<Rightarrow> (u64 \<rightharpoonup> u64) \<Rightarrow> (u64 \<Rightarrow> entry list) \<Rightarrow> bool" where
  "safe_inv N s ld h \<longleftrightarrow> election_inv N s ld \<and> log_inv N s ld h"

text \<open>The leaders of later states extend those of earlier ones, and their logs only grow.\<close>

definition extends :: "(u64 \<rightharpoonup> u64) \<Rightarrow> (u64 \<Rightarrow> entry list) \<Rightarrow> (u64 \<rightharpoonup> u64) \<Rightarrow> (u64 \<Rightarrow> entry list) \<Rightarrow> bool" where
  "extends ld h ld' h' \<longleftrightarrow> ld \<subseteq>\<^sub>m ld' \<and> (\<forall>t l. ld t = Some l \<longrightarrow> prefix (h t) (h' t))"

lemma extends_refl [simp]: "extends ld h ld h"
  by (simp add: extends_def)

lemma extends_trans: "extends a h b k \<Longrightarrow> extends b k c l \<Longrightarrow> extends a h c l"
  unfolding extends_def by (metis map_le_trans map_le_def domI prefix_order.trans)

lemma safe_invD:
  assumes "safe_inv N s ld h"
  shows "election_inv N s ld" and "log_inv N s ld h" and "0 \<notin> N" and "addressed N s"
    and "candidates_ok N s"
    and "\<And>i. i \<in> N \<Longrightarrow> arole (anodes s i) = StateLeader \<Longrightarrow> ld (aterm (anodes s i)) = Some i"
    and "\<And>m. m \<in> asent s \<Longrightarrow> is_ae m \<Longrightarrow> ld (mTerm m) = Some (mFrom m)"
    and "\<And>i. i \<in> N \<Longrightarrow> path h (aents (anodes s i))"
  using assms by (auto simp: safe_inv_def election_inv_def leaders_ok_def log_inv_def)

text \<open>A step that changes no log and elects nobody.\<close>

lemma safe_inv_step:
  assumes inv: "safe_inv N s ld h" and i: "i \<in> N" and k: "keeps (anodes s i) n'"
    and M: "\<forall>m \<in> M. routed N i m" and g: "new_grants_ok ld n' M"
    and ae: "\<forall>m \<in> M. is_ae m \<longrightarrow> arole (anodes s i) = StateLeader \<and>
      leader_msg N i (aterm (anodes s i)) (aents (anodes s i)) m"
    and ldr: "arole n' = StateLeader \<longrightarrow> arole (anodes s i) = StateLeader \<and>
      aterm n' = aterm (anodes s i) \<and> aents n' = aents (anodes s i)"
    and cand: "arole n' = StateCandidate \<longrightarrow> avote n' = i \<and> aterm n' \<noteq> 0 \<and> i \<in> avotes n' \<and>
      (\<forall>v \<in> avotes n'. v = i \<or> grants s (aterm n') v i)"
    and es: "path h (aents n')"
  shows "safe_inv N (aupd s i n' M) ld h"
  unfolding safe_inv_def
proof
  show "election_inv N (aupd s i n' M) ld"
    using ae ldr cand by (intro election_inv_step [OF safe_invD(1) [OF inv] i k M g])
      (auto simp: leader_msg_def)
  show "log_inv N (aupd s i n' M) ld h"
    using ae ldr es by (intro log_inv_step [OF safe_invD(2) [OF inv] i])
      (auto simp: leader_msg_def)
qed

lemma harmless_ok:
  assumes "\<forall>m \<in> M. harmless N i m"
  shows "\<forall>m \<in> M. routed N i m" and "new_grants_ok ld n' M" and "\<forall>m \<in> M. \<not> is_ae m"
  using assms by (auto simp: harmless_def new_grants_ok_def)

lemma request_msgs_ok:
  assumes "\<forall>m \<in> M. request_msg N i t es m"
  shows "\<forall>m \<in> M. routed N i m" and "new_grants_ok ld n' M" and "\<forall>m \<in> M. \<not> is_ae m"
  using assms by (auto simp: request_msg_def new_grants_ok_def)

lemma leader_msgs_ok:
  assumes "\<forall>m \<in> M. leader_msg N i t es m"
  shows "\<forall>m \<in> M. routed N i m" and "new_grants_ok ld n' M"
  using assms by (auto simp: leader_msg_def new_grants_ok_def)

lemma candidate_facts:
  assumes "safe_inv N s ld h" and "i \<in> N" and "arole (anodes s i) = StateCandidate"
  shows "avote (anodes s i) = i" and "aterm (anodes s i) \<noteq> 0" and "i \<in> avotes (anodes s i)"
    and "\<And>v. v \<in> avotes (anodes s i) \<Longrightarrow> v = i \<or> grants s (aterm (anodes s i)) v i"
  using safe_invD(5) [OF assms(1)] assms(2,3) by (auto simp: candidates_ok_def)

text \<open>An append of a term cannot reach the leader of that term.\<close>

lemma accept_not_leader:
  assumes "safe_inv N s ld h" and "m \<in> asent s" and "is_ae m" and "mTo m = i" and "i \<in> N"
    and "aterm (anodes s i) = mTerm m"
  shows "arole (anodes s i) \<noteq> StateLeader"
proof
  assume "arole (anodes s i) = StateLeader"
  then have "mFrom m = i" using safe_invD(6,7) [OF assms(1)] assms by force
  with safe_invD(4) [OF assms(1)] assms(2,4) show False by (auto simp: addressed_def routed_def)
qed

lemma safe_grant:
  assumes inv: "safe_inv N s ld h" and i: "i \<in> N" and c: "c \<in> N" "c \<noteq> i"
    and t: "aterm (anodes s i) \<le> t"
    and free: "aterm (anodes s i) < t \<or> avote (anodes s i) = 0 \<or> avote (anodes s i) = c"
    and n': "n' = (anodes s i)\<lparr>aterm := t, avote := c\<rparr>"
    and n'': "n'' = (if aterm (anodes s i) < t then n'\<lparr>arole := StateFollower, avotes := {}\<rparr> else n')"
    and m: "routed N i m" "is_grant m" "mTo m = c" "mTerm m = t"
  shows "safe_inv N (aupd s i n'' {m}) ld h"
proof (rule safe_inv_step [OF inv i])
  have i0: "i \<noteq> 0" using safe_invD(3) [OF inv] i by auto
  have nc: "arole (anodes s i) \<noteq> StateCandidate" if "\<not> aterm (anodes s i) < t"
    using candidate_facts(1) [OF inv i] free c i0 that by auto
  show "keeps (anodes s i) n''" using t free n' n'' nc by (auto simp: keeps_def)
  have "arole n'' = StateFollower" if "ld t = None"
  proof (cases "aterm (anodes s i) < t")
    case True
    then show ?thesis by (simp add: n'')
  next
    case False
    with t have "aterm (anodes s i) = t" by simp
    with that safe_invD(6) [OF inv i] have "arole (anodes s i) \<noteq> StateLeader" by auto
    with nc [OF False] False show ?thesis by (cases "arole (anodes s i)") (simp_all add: n' n'')
  qed
  then show "new_grants_ok ld n'' {m}" using m by (simp add: new_grants_ok_def n' n'')
  show "\<forall>m \<in> {m}. routed N i m" using m by simp
  show "\<forall>m' \<in> {m}. is_ae m' \<longrightarrow> arole (anodes s i) = StateLeader \<and>
      leader_msg N i (aterm (anodes s i)) (aents (anodes s i)) m'" using m by simp
  show "arole n'' = StateLeader \<longrightarrow> arole (anodes s i) = StateLeader \<and>
      aterm n'' = aterm (anodes s i) \<and> aents n'' = aents (anodes s i)"
    using t by (auto simp: n' n'')
  show "arole n'' = StateCandidate \<longrightarrow> avote n'' = i \<and> aterm n'' \<noteq> 0 \<and> i \<in> avotes n'' \<and>
      (\<forall>v \<in> avotes n''. v = i \<or> grants s (aterm n'') v i)"
    using nc by (auto simp: n' n'')
  show "path h (aents n'')" using safe_invD(8) [OF inv i] by (simp add: n' n'')
qed

text \<open>An append that is accepted or refused: the role and the vote are given up, the log may change.\<close>

lemma safe_append:
  assumes inv: "safe_inv N s ld h" and i: "i \<in> N" and m: "m \<in> asent s" "is_ae m" "mTo m = i"
    and t: "aterm (anodes s i) \<le> mTerm m"
    and keep: "keep = (arole (anodes s i) = StateFollower \<and> aterm (anodes s i) = mTerm m)"
    and n': "aterm n' = mTerm m" "avote n' = (if keep then avote (anodes s i) else 0)"
      "arole n' = StateFollower" "path h (aents n')"
    and M: "\<forall>m' \<in> M. routed N i m' \<and> \<not> is_ae m' \<and> \<not> is_grant m'"
  shows "safe_inv N (aupd s i n' M) ld h"
proof (rule safe_inv_step [OF inv i])
  have "arole (anodes s i) \<noteq> StateLeader" if "aterm (anodes s i) = mTerm m"
    using accept_not_leader [OF inv m i that] .
  then show "keeps (anodes s i) n'"
    using t by (cases "arole (anodes s i)") (auto simp: keeps_def keep n')
qed (use M n' in \<open>auto simp: new_grants_ok_def\<close>)

lemma safe_refuse:
  assumes inv: "safe_inv N s ld h" and i: "i \<in> N" and m: "m \<in> asent s" "is_ae m" "mTo m = i"
    and t: "aterm (anodes s i) \<le> mTerm m"
    and keep: "keep = (arole (anodes s i) = StateFollower \<and> aterm (anodes s i) = mTerm m)"
    and M: "\<forall>m' \<in> M. harmless N i m'"
  shows "safe_inv N (aupd s i ((anodes s i)\<lparr>aterm := mTerm m,
    avote := (if keep then avote (anodes s i) else 0), arole := StateFollower, avotes := {}\<rparr>) M) ld h"
  using safe_invD(8) [OF inv i] M by (intro safe_append [OF inv i m t keep]) (auto simp: harmless_def)

lemma safe_accept:
  assumes inv: "safe_inv N s ld h" and i: "i \<in> N" and m: "m \<in> asent s" "is_ae m" "mTo m = i"
    and t: "aterm (anodes s i) \<le> mTerm m"
    and keep: "keep = (arole (anodes s i) = StateFollower \<and> aterm (anodes s i) = mTerm m)"
    and p: "mPrevLogIndex m = of_nat p" "p < length (aents (anodes s i))"
      "eTerm (aents (anodes s i) ! p) = mPrevLogTerm m"
    and es: "es = merged (aents (anodes s i)) (Suc p) (mEntries m)"
    and M: "\<forall>m' \<in> M. ack_msg N i (mTerm m) es m'"
  shows "safe_inv N (aupd s i ((anodes s i)\<lparr>aterm := mTerm m,
    avote := (if keep then avote (anodes s i) else 0), arole := StateFollower, avotes := {},
    aents := es, acommit := c\<rparr>) M) ld h"
proof -
  have "path h (aents (anodes s i))" "path h (h (mTerm m))" "carries m (h (mTerm m))"
    using safe_invD(8) [OF inv i] log_invD(1,5) [OF safe_invD(2) [OF inv]] m by auto
  then have "path h es" unfolding es using p by (rule path_merged)
  then show ?thesis using M by (intro safe_append [OF inv i m t keep]) (auto simp: ack_msg_def)
qed

text \<open>The steps that keep the auxiliary state, each an instance of \<open>safe_inv_step\<close>.\<close>

lemma safe_quiet:
  assumes inv: "safe_inv N s ld h" and i: "i \<in> N" and M: "\<forall>m \<in> M. harmless N i m"
  shows "safe_inv N (aupd s i (anodes s i) M) ld h"
  using harmless_ok [OF M] candidate_facts [OF inv i] safe_invD(8) [OF inv i] i
  by (intro safe_inv_step [OF inv]) (auto simp: keeps_def)

lemma safe_down:
  assumes inv: "safe_inv N s ld h" and i: "i \<in> N" and t: "aterm (anodes s i) < t" and M: "\<forall>m \<in> M. harmless N i m"
  shows "safe_inv N (aupd s i ((anodes s i)\<lparr>aterm := t, avote := 0, arole := StateFollower, avotes := {}\<rparr>) M) ld h"
  using harmless_ok [OF M] safe_invD(8) [OF inv i] i t
  by (intro safe_inv_step [OF inv]) (auto simp: keeps_def)

lemma safe_timeout:
  assumes inv: "safe_inv N s ld h" and i: "i \<in> N" and t: "aterm (anodes s i) \<noteq> - 1"
    and M: "\<forall>m \<in> M. request_msg N i (aterm (anodes s i) + 1) (aents (anodes s i)) m"
  shows "safe_inv N (aupd s i ((anodes s i)\<lparr>aterm := aterm (anodes s i) + 1, avote := i,
    arole := StateCandidate, avotes := {i}\<rparr>) M) ld h"
  using request_msgs_ok [OF M] safe_invD(8) [OF inv i] i word_less_Suc [OF t]
  by (intro safe_inv_step [OF inv]) (auto simp: keeps_def)

lemma safe_collect:
  assumes inv: "safe_inv N s ld h" and i: "i \<in> N" and c: "arole (anodes s i) = StateCandidate"
    and m: "m \<in> asent s" "is_grant m" "mTo m = i" "mTerm m = aterm (anodes s i)"
  shows "safe_inv N (aupd s i ((anodes s i)\<lparr>avotes := insert (mFrom m) (avotes (anodes s i))\<rparr>) {}) ld h"
proof -
  have "grants s (aterm (anodes s i)) (mFrom m) i" using m by (auto simp: grants_def)
  then show ?thesis
    using candidate_facts [OF inv i c] safe_invD(8) [OF inv i] i c
    by (intro safe_inv_step [OF inv]) (auto simp: keeps_def new_grants_ok_def)
qed

lemma safe_heartbeat:
  assumes inv: "safe_inv N s ld h" and i: "i \<in> N" and l: "arole (anodes s i) = StateLeader"
    and M: "\<forall>m \<in> M. leader_msg N i (aterm (anodes s i)) (aents (anodes s i)) m"
  shows "safe_inv N (aupd s i (anodes s i) M) ld h"
  using leader_msgs_ok [OF M] safe_invD(8) [OF inv i] i l M
  by (intro safe_inv_step [OF inv]) (auto simp: keeps_def)

lemma safe_crash:
  assumes inv: "safe_inv N s ld h" and i: "i \<in> N"
  shows "safe_inv N (aupd s i ((anodes s i)\<lparr>arole := StateFollower, avotes := {}, acommit := c\<rparr>) {}) ld h"
  using safe_invD(8) [OF inv i] i
  by (intro safe_inv_step [OF inv]) (auto simp: keeps_def new_grants_ok_def)

lemma safe_commit:
  assumes inv: "safe_inv N s ld h" and i: "i \<in> N"
  shows "safe_inv N (aupd s i ((anodes s i)\<lparr>acommit := k\<rparr>) {}) ld h"
  using candidate_facts [OF inv i] safe_invD(8) [OF inv i] i
  by (intro safe_inv_step [OF inv]) (auto simp: keeps_def new_grants_ok_def)

text \<open>The steps that record a leader or an entry of a leader.\<close>

lemma safe_win:
  assumes inv: "safe_inv N s ld h" and i: "i \<in> N" and c: "arole (anodes s i) = StateCandidate"
    and V: "is_majority N (avotes (anodes s i))"
    and M: "\<forall>m \<in> M. leader_msg N i (aterm (anodes s i)) (aents (anodes s i)) m"
    and ld': "ld' = ld(aterm (anodes s i) \<mapsto> i)" and h': "h' = h(aterm (anodes s i) := aents (anodes s i))"
  shows "safe_inv N (aupd s i ((anodes s i)\<lparr>arole := StateLeader, avotes := {}\<rparr>) M) ld' h'" and "extends ld h ld' h'"
proof -
  have none: "ld (aterm (anodes s i)) = None" using win_first [OF safe_invD(1) [OF inv] i c V] .
  show "safe_inv N (aupd s i ((anodes s i)\<lparr>arole := StateLeader, avotes := {}\<rparr>) M) ld' h'"
    unfolding ld' h' safe_inv_def
    using i c V M none safe_invD(1,2,6,7) [OF inv] candidate_facts(2) [OF inv]
    by (intro conjI election_inv_win log_inv_win) auto
  show "extends ld h ld' h'" using none by (auto simp: ld' h' extends_def map_le_def)
qed

lemma safe_propose:
  assumes inv: "safe_inv N s ld h" and i: "i \<in> N" and l: "arole (anodes s i) = StateLeader"
    and e: "eTerm e = aterm (anodes s i)" "eIndex e = of_nat (length (aents (anodes s i)))"
      "Suc (length (aents (anodes s i))) < 2 ^ 63" "length (eCommand e) < 2 ^ 63"
    and h': "h' = h(aterm (anodes s i) := h (aterm (anodes s i)) @ [e])"
  shows "safe_inv N (aupd s i ((anodes s i)\<lparr>aents := aents (anodes s i) @ [e]\<rparr>) {}) ld h'" and "extends ld h ld h'"
proof -
  have "election_inv N (aupd s i ((anodes s i)\<lparr>aents := aents (anodes s i) @ [e]\<rparr>) {}) ld"
    using i l by (intro election_inv_step [OF safe_invD(1) [OF inv]]) (auto simp: keeps_def new_grants_ok_def)
  then show "safe_inv N (aupd s i ((anodes s i)\<lparr>aents := aents (anodes s i) @ [e]\<rparr>) {}) ld h'"
    unfolding safe_inv_def h' using i l e safe_invD(2,6) [OF inv] by (intro conjI log_inv_propose) auto
  show "extends ld h ld h'" by (simp add: h' extends_def)
qed

lemma astep_safe:
  assumes "astep ok N s s'" and inv: "safe_inv N s ld h"
  shows "\<exists>ld' h'. safe_inv N s' ld' h' \<and> extends ld h ld' h'"
proof -
  have "safe_inv N s' ld h \<or> (\<exists>ld' h'. safe_inv N s' ld' h' \<and> extends ld h ld' h')"
    using assms(1)
  proof cases
    case (quiet i M)
    from safe_quiet [OF inv quiet(2-3)] show ?thesis unfolding quiet(1) ..
  next
    case (step_down i t M)
    from safe_down [OF inv step_down(2-4)] show ?thesis unfolding step_down(1) ..
  next
    case (grant i c t n' n'' m q)
    from safe_grant [OF inv grant(2-12)] show ?thesis unfolding grant(1) ..
  next
    case (timeout i M)
    from safe_timeout [OF inv timeout(2,3,5)] show ?thesis unfolding timeout(1) ..
  next
    case (collect i m)
    from safe_collect [OF inv collect(2-7)] show ?thesis unfolding collect(1) ..
  next
    case (heartbeat i M)
    from safe_heartbeat [OF inv heartbeat(2-4)] show ?thesis unfolding heartbeat(1) ..
  next
    case (refuse i m keep M)
    from safe_refuse [OF inv refuse(2-8)] show ?thesis unfolding refuse(1) ..
  next
    case (accept i m keep p es c M)
    from safe_accept [OF inv accept(2-11,15)] show ?thesis unfolding accept(1) ..
  next
    case (commit i k Q)
    from safe_commit [OF inv commit(2)] show ?thesis unfolding commit(1) ..
  next
    case (crash i c)
    from safe_crash [OF inv crash(2)] show ?thesis unfolding crash(1) ..
  next
    case (win i M)
    from safe_win [OF inv win(2-5) refl refl] show ?thesis unfolding win(1) by blast
  next
    case (propose i e)
    from safe_propose [OF inv propose(2-7) refl] show ?thesis unfolding propose(1) by blast
  qed
  then show ?thesis using extends_refl by blast
qed

lemma ainit_safe:
  assumes "ainit s" and "0 \<notin> N"
  shows "safe_inv N s Map.empty (\<lambda>_. [dummy])"
  using assms by (auto simp: safe_inv_def ainit_def election_inv_def addressed_def candidates_ok_def
      votes_ok_def leaders_ok_def quorums_ok_def grants_def log_inv_def path_def indexed_def dummy_def)

end
