(* ===== verification/Transition.thy ===== *)
theory Transition
  imports Prelude
begin

text \<open>
  Refinement between transition systems. \<open>simulation\<close> is the contract between a concrete system and
  the abstract specification it implements: each concrete step, from a state in which both
  invariants hold, is a sequence of abstract steps, and each abstract step keeps the abstract
  invariant while the auxiliary state it is stated with only moves forward. What holds of whole
  runs is derived once, in the locale.
\<close>

locale simulation =
  fixes abs :: "'c \<Rightarrow> 'a"
    and cstep :: "'c \<Rightarrow> 'c \<Rightarrow> bool"
    and astep :: "'a \<Rightarrow> 'a \<Rightarrow> bool"
    and cinv :: "'c \<Rightarrow> bool"
    and ainv :: "'g \<Rightarrow> 'a \<Rightarrow> bool"
    and fwd :: "'g \<Rightarrow> 'g \<Rightarrow> bool"
  assumes fwd_refl: "fwd g g"
    and fwd_trans: "fwd g1 g2 \<Longrightarrow> fwd g2 g3 \<Longrightarrow> fwd g1 g3"
    and astep_ainv: "astep a a' \<Longrightarrow> ainv g a \<Longrightarrow> \<exists>g'. ainv g' a' \<and> fwd g g'"
    and cstep_sim: "cstep c c' \<Longrightarrow> cinv c \<Longrightarrow> ainv g (abs c) \<Longrightarrow> astep\<^sup>*\<^sup>* (abs c) (abs c') \<and> cinv c'"
begin

lemma asteps_ainv: "astep\<^sup>*\<^sup>* a a' \<Longrightarrow> ainv g a \<Longrightarrow> \<exists>g'. ainv g' a' \<and> fwd g g'"
proof (induction rule: rtranclp_induct)
  case base
  then show ?case using fwd_refl by blast
next
  case (step b c)
  then show ?case using astep_ainv fwd_trans by metis
qed

lemma run_inv:
  "cstep\<^sup>*\<^sup>* c c' \<Longrightarrow> cinv c \<Longrightarrow> ainv g (abs c) \<Longrightarrow>
     cinv c' \<and> astep\<^sup>*\<^sup>* (abs c) (abs c') \<and> (\<exists>g'. ainv g' (abs c') \<and> fwd g g')"
proof (induction rule: rtranclp_induct)
  case base
  then show ?case using fwd_refl by blast
next
  case (step b d)
  then obtain g' where b: "cinv b" "astep\<^sup>*\<^sup>* (abs c) (abs b)" "ainv g' (abs b)" "fwd g g'" by blast
  with step.hyps(2) cstep_sim have d: "astep\<^sup>*\<^sup>* (abs b) (abs d)" "cinv d" by blast+
  with b asteps_ainv [OF d(1) b(3)] show ?case by (metis fwd_trans rtranclp_trans)
qed

end

end
