(* ===== verification/Network.thy ===== *)
theory Network
  imports Protocol Transition
begin

text \<open>
  A set of nodes and the messages they have sent. Every node runs the code of \<open>Node\<close>; the network
  may deliver any message that was ever sent, to its addressee, at any time, any number of times or
  never. This covers the queues of internal/cluster, the mailboxes of internal/transport, message
  loss, duplication and reordering, network partitions, crashes and restarts.

  Two premises bound what no run can exceed: a node whose term is the largest \<open>uint64\<close> does not
  tick, and a log or a command does not grow beyond what a Go slice can hold.
\<close>

subsection \<open>Steps\<close>

record net =
  nodes :: "u64 \<Rightarrow> node"
  sent :: "message set"

definition net_upd :: "net \<Rightarrow> u64 \<Rightarrow> node \<Rightarrow> message list \<Rightarrow> net" where
  "net_upd s i n out = s\<lparr>nodes := (nodes s)(i := n), sent := set out \<union> sent s\<rparr>"

inductive net_step :: "u64 list \<Rightarrow> net \<Rightarrow> net \<Rightarrow> bool" for ids where
  tick: "i \<in> set ids \<Longrightarrow> currentTerm (nodes s i) \<noteq> - 1 \<Longrightarrow> Tick (nodes s i) = Some (n', out) \<Longrightarrow>
    net_step ids s (net_upd s i n' out)"
| deliver: "mTo m \<in> set ids \<Longrightarrow> m \<in> sent s \<Longrightarrow> Step (nodes s (mTo m)) m = Some (n', out) \<Longrightarrow>
    net_step ids s (net_upd s (mTo m) n' out)"
| propose: "i \<in> set ids \<Longrightarrow> Suc (length (entries (raftLog (nodes s i)))) < 2 ^ 63 \<Longrightarrow>
    length cmd < 2 ^ 63 \<Longrightarrow> Propose (nodes s i) cmd = Some (e, n') \<Longrightarrow>
    net_step ids s (net_upd s i n' [])"
| replicate: "i \<in> set ids \<Longrightarrow> ReplicateNow (nodes s i) = Some out \<Longrightarrow>
    net_step ids s (net_upd s i (nodes s i) out)"
| crash: "i \<in> set ids \<Longrightarrow> net_step ids s (net_upd s i (Crash (nodes s i)) [])"
| restart: "i \<in> set ids \<Longrightarrow> Restart (nodes s i) = Some (e, n') \<Longrightarrow>
    net_step ids s (net_upd s i n' [])"

text \<open>The start: every node knows the other members as its peers.\<close>

definition others :: "u64 list \<Rightarrow> u64 \<Rightarrow> u64 list" where
  "others ids i = filter (\<lambda>j. j \<noteq> i) ids"

definition net_init :: "u64 list \<Rightarrow> (u64 \<Rightarrow> rng) \<Rightarrow> net" where
  "net_init ids rs = \<lparr>nodes = (\<lambda>i. New i (others ids i) (rs i)), sent = {}\<rparr>"

definition members_ok :: "u64 list \<Rightarrow> bool" where
  "members_ok ids \<longleftrightarrow> distinct ids \<and> 0 \<notin> set ids"

subsection \<open>The abstraction\<close>

definition abs_node :: "node \<Rightarrow> anode" where
  "abs_node n =
     \<lparr>aterm = currentTerm n, avote = votedFor n, arole = nstate n,
      avotes = (if nstate n = StateCandidate then {v. mget (votesGranted n) False v} else {}),
      aents = entries (raftLog n), acommit = unat (commitIndex (raftLog n))\<rparr>"

definition abs_net :: "net \<Rightarrow> anet" where
  "abs_net s = \<lparr>anodes = (\<lambda>i. abs_node (nodes s i)), asent = sent s\<rparr>"

definition node_ok :: "u64 list \<Rightarrow> u64 \<Rightarrow> node \<Rightarrow> bool" where
  "node_ok ids i n \<longleftrightarrow> nid n = i \<and> peers n = others ids i \<and> log_ok (raftLog n)"

text \<open>What a leader records about its peers it has read in their acknowledgements.\<close>

definition tracked :: "message set \<Rightarrow> node \<Rightarrow> bool" where
  "tracked M n \<longleftrightarrow>
     nstate n = StateLeader \<longrightarrow>
     (\<forall>p. mget (matchIndex n) 0 p = 0 \<or>
        (\<exists>a \<in> M. is_ack a \<and> mTerm a = currentTerm n \<and> mFrom a = p \<and> mMatchIndex a = mget (matchIndex n) 0 p))"

definition net_ok :: "u64 list \<Rightarrow> net \<Rightarrow> bool" where
  "net_ok ids s \<longleftrightarrow> members_ok ids \<and> (\<forall>i. node_ok ids i (nodes s i) \<and> tracked (sent s) (nodes s i))"

lemma tracked_other [simp]: "nstate n \<noteq> StateLeader \<Longrightarrow> tracked M n"
  by (simp add: tracked_def)

lemma tracked_mono: "tracked M n \<Longrightarrow> M \<subseteq> M' \<Longrightarrow> tracked M' n"
  by (fastforce simp: tracked_def)

lemma tracked_cong:
  "tracked M n \<Longrightarrow> nstate n' = nstate n \<Longrightarrow> currentTerm n' = currentTerm n \<Longrightarrow> matchIndex n' = matchIndex n \<Longrightarrow>
     tracked M n'"
  by (simp add: tracked_def)

lemma abs_node_simps [simp]:
  "aterm (abs_node n) = currentTerm n"
  "avote (abs_node n) = votedFor n"
  "arole (abs_node n) = nstate n"
  "aents (abs_node n) = entries (raftLog n)"
  "acommit (abs_node n) = unat (commitIndex (raftLog n))"
  by (simp_all add: abs_node_def)

lemma abs_net_simps [simp]:
  "anodes (abs_net s) i = abs_node (nodes s i)"
  "asent (abs_net s) = sent s"
  by (simp_all add: abs_net_def)

lemma abs_net_upd: "abs_net (net_upd s i n out) = aupd (abs_net s) i (abs_node n) (set out)"
  by (auto simp: abs_net_def net_upd_def aupd_def)

lemma set_others [simp]: "set (others ids i) = set ids - {i}"
  by (auto simp: others_def)

lemma node_ok_simps:
  assumes "node_ok ids i n"
  shows "nid n = i" and "set (peers n) = set ids - {i}" and "log_ok (raftLog n)"
    and "indexed (entries (raftLog n))"
  using assms by (auto simp: node_ok_def log_ok_def)

text \<open>What a step of node \<open>i\<close> has to satisfy. The parameter \<open>adm\<close> restricts, as in \<open>Protocol\<close>, the appends
  that are acknowledged.\<close>

definition simulated :: "(message \<Rightarrow> entry list \<Rightarrow> bool) \<Rightarrow> u64 list \<Rightarrow> net \<Rightarrow> u64 \<Rightarrow> node \<Rightarrow> message list \<Rightarrow> bool" where
  "simulated adm ids s i n' out \<longleftrightarrow>
     (astep adm (set ids))\<^sup>*\<^sup>* (abs_net s) (aupd (abs_net s) i (abs_node n') (set out)) \<and>
     node_ok ids i n' \<and> tracked (set out \<union> sent s) n'"

lemma simulatedI:
  "astep adm (set ids) (abs_net s) (aupd (abs_net s) i (abs_node n') (set out)) \<Longrightarrow> node_ok ids i n' \<Longrightarrow>
     tracked (sent s) n' \<Longrightarrow> simulated adm ids s i n' out"
  using tracked_mono [of "sent s" n' "set out \<union> sent s"] by (simp add: simulated_def r_into_rtranclp)

text \<open>Steps that change nothing the specification sees.\<close>

lemma simulated_quiet:
  assumes "i \<in> set ids" and "node_ok ids i n'" and "tracked (sent s) n'" and "abs_node n' = abs_node (nodes s i)"
    and "\<forall>m \<in> set out. harmless (set ids) i m"
  shows "simulated adm ids s i n' out"
  using assms astep.quiet [of i "set ids" "set out" adm "abs_net s"]
  by (intro simulatedI) auto

lemma simulated_down:
  assumes "i \<in> set ids" and "node_ok ids i n'" and "currentTerm (nodes s i) < t"
    and "abs_node n' = (abs_node (nodes s i))\<lparr>aterm := t, avote := 0, arole := StateFollower, avotes := {}\<rparr>"
    and "\<forall>m \<in> set out. harmless (set ids) i m"
  shows "simulated adm ids s i n' out"
proof (rule simulatedI)
  have "nstate n' = StateFollower" using arg_cong [OF assms(4), of arole] by simp
  then show "tracked (sent s) n'" by simp
qed (use assms astep.step_down [of i "set ids" "abs_net s" t "set out" adm] in auto)

lemma abs_node_eqI:
  assumes "currentTerm n' = currentTerm n" and "votedFor n' = votedFor n" and "nstate n' = nstate n"
    and "votesGranted n' = votesGranted n" and "entries (raftLog n') = entries (raftLog n)"
    and "commitIndex (raftLog n') = commitIndex (raftLog n)"
  shows "abs_node n' = abs_node n"
  using assms by (simp add: abs_node_def)

lemma harmless_resp:
  assumes "i \<in> set ids" and "j \<in> set ids" and "j \<noteq> i"
  shows "harmless (set ids) i (NewRequestVoteResp i j t False)"
    and "harmless (set ids) i (NewAppendEntriesResp i j t False k)"
  using assms by (auto simp: harmless_def routed_def msg_defs)

subsection \<open>Each operation implements the specification\<close>

lemma ae_from_leader_msg:
  "node_ok ids i n \<Longrightarrow> i \<in> set ids \<Longrightarrow> ae_from n m \<Longrightarrow>
     leader_msg (set ids) i (currentTerm n) (entries (raftLog n)) m"
  by (auto simp: ae_from_def leader_msg_def routed_def node_ok_def)

lemma broadcast_leader_msgs:
  assumes "node_ok ids i n" and "i \<in> set ids" and "broadcastAppendEntries n = Some out"
  shows "\<forall>m \<in> set out. leader_msg (set ids) i (currentTerm n) (entries (raftLog n)) m"
    and "\<forall>m \<in> set out. mLeaderCommit m = commitIndex (raftLog n)"
  using broadcast_ok [OF node_ok_simps(3) [OF assms(1)]] assms(3) ae_from_leader_msg [OF assms(1,2)]
  by (auto simp: ae_from_def)

lemma simulated_heartbeat:
  assumes "i \<in> set ids" and "node_ok ids i (nodes s i)" and "nstate (nodes s i) = StateLeader"
    and "node_ok ids i n'" and "tracked (sent s) n'" and "abs_node n' = abs_node (nodes s i)"
    and "broadcastAppendEntries n' = Some out"
  shows "simulated adm ids s i n' out"
proof (rule simulatedI [OF _ assms(4,5)])
  have "currentTerm n' = currentTerm (nodes s i)" "entries (raftLog n') = entries (raftLog (nodes s i))"
      "unat (commitIndex (raftLog n')) = unat (commitIndex (raftLog (nodes s i)))"
    using assms(6) by (auto simp: abs_node_def)
  then have "\<forall>m \<in> set out. leader_msg (set ids) i (aterm (anodes (abs_net s) i)) (aents (anodes (abs_net s) i)) m"
      "\<forall>m \<in> set out. unat (mLeaderCommit m) = acommit (anodes (abs_net s) i)"
    using broadcast_leader_msgs [OF assms(4,1,7)] by simp_all
  with assms show "astep adm (set ids) (abs_net s) (aupd (abs_net s) i (abs_node n') (set out))"
    using astep.heartbeat [of i "set ids" "abs_net s" "set out" adm] by simp
qed

lemma sim_startElection:
  assumes i: "i \<in> set ids" and ok: "node_ok ids i n1" and t: "currentTerm (nodes s i) \<noteq> - 1"
    and ns: "nstate (nodes s i) \<noteq> StateLeader" and n1: "abs_node n1 = abs_node (nodes s i)"
  shows "simulated adm ids s i (fst (startElection n1)) (snd (startElection n1))"
proof (rule simulatedI)
  have "currentTerm n1 = currentTerm (nodes s i)" "entries (raftLog n1) = entries (raftLog (nodes s i))"
      "unat (commitIndex (raftLog n1)) = unat (commitIndex (raftLog (nodes s i)))"
    using n1 by (auto simp: abs_node_def)
  then have "abs_node (fst (startElection n1)) = (abs_node (nodes s i))\<lparr>aterm := currentTerm (nodes s i) + 1,
      avote := i, arole := StateCandidate, avotes := {i}\<rparr>"
    using node_ok_simps(1) [OF ok] by (auto simp: abs_node_def split: if_splits)
  moreover have "\<forall>m \<in> set (snd (startElection n1)).
      request_msg (set ids) i (currentTerm (nodes s i) + 1) (entries (raftLog (nodes s i))) m"
    using i ok \<open>currentTerm n1 = _\<close> \<open>entries (raftLog n1) = _\<close> rl.last_of_eq [OF node_ok_simps(3) [OF ok]]
    by (auto simp: request_msg_def log_end_is_def routed_def node_ok_def dest!: snd_startElection)
  ultimately show "astep adm (set ids) (abs_net s)
      (aupd (abs_net s) i (abs_node (fst (startElection n1))) (set (snd (startElection n1))))"
    using astep.timeout [of i "set ids" "abs_net s" "set (snd (startElection n1))" adm] i t ns by simp
  show "node_ok ids i (fst (startElection n1))" using ok by (simp add: node_ok_def)
  show "tracked (sent s) (fst (startElection n1))" by simp
qed

lemma sim_Tick_leader:
  assumes i: "i \<in> set ids" and ok: "node_ok ids i (nodes s i)" and tr: "tracked (sent s) (nodes s i)"
    and l: "\<not> crashed (nodes s i)" "nstate (nodes s i) = StateLeader"
    and tick: "Tick (nodes s i) = Some (n', out)"
  shows "simulated adm ids s i n' out"
proof (cases "out = [] \<and> n' = (nodes s i)\<lparr>electionElapsed := electionElapsed (nodes s i) + 1,
    heartbeatElapsed := heartbeatElapsed (nodes s i) + 1\<rparr>")
  case True
  with i ok show ?thesis
    by (intro simulated_quiet) (auto simp: node_ok_def intro!: abs_node_eqI tracked_cong [OF tr])
next
  case False
  with tick have "n' = (nodes s i)\<lparr>electionElapsed := electionElapsed (nodes s i) + 1, heartbeatElapsed := 0\<rparr>"
      "broadcastAppendEntries n' = Some out"
    by (auto simp: Tick_leader [OF l] split: if_splits)
  with l i ok show ?thesis
    by (intro simulated_heartbeat) (auto simp: node_ok_def intro!: abs_node_eqI tracked_cong [OF tr])
qed

lemma sim_Tick:
  assumes i: "i \<in> set ids" and ok: "node_ok ids i (nodes s i)" and tr: "tracked (sent s) (nodes s i)" and t: "currentTerm (nodes s i) \<noteq> - 1"
    and tick: "Tick (nodes s i) = Some (n', out)"
  shows "simulated adm ids s i n' out"
proof -
  let ?n = "nodes s i"
  consider "crashed ?n" | "\<not> crashed ?n" "nstate ?n = StateLeader" | "\<not> crashed ?n" "nstate ?n \<noteq> StateLeader"
    by blast
  then show ?thesis
  proof cases
    case 1
    with tick i ok tr show ?thesis by (intro simulated_quiet) (auto simp: Tick_crashed)
  next
    case 2
    with sim_Tick_leader [OF i ok tr _ _ tick] show ?thesis by blast
  next
    case 3
    let ?n1 = "?n\<lparr>electionElapsed := electionElapsed ?n + 1\<rparr>"
    have n1: "abs_node ?n1 = abs_node ?n" "node_ok ids i ?n1"
      using ok by (auto simp: node_ok_def intro!: abs_node_eqI)
    from tick 3 have "(n', out) = (?n1, []) \<or> (n', out) = startElection ?n1"
      by (auto simp: Tick_other split: if_splits)
    then show ?thesis
    proof
      assume "(n', out) = (?n1, [])"
      with i n1 3 show ?thesis by (intro simulated_quiet) auto
    next
      assume "(n', out) = startElection ?n1"
      then have "n' = fst (startElection ?n1)" "out = snd (startElection ?n1)"
        by (metis fst_conv, metis snd_conv)
      with sim_startElection [OF i n1(2) t 3(2) n1(1)] show ?thesis by simp
    qed
  qed
qed

lemma sim_grant:
  assumes i: "i \<in> set ids" and ok: "node_ok ids i (nodes s i)" and tr: "tracked (sent s) (nodes s i)"
    and m: "m \<in> sent s" "is_req m" "mTerm m = t" "isUpToDate (nodes s i) (mLastLogIndex m) (mLastLogTerm m)"
    and frm: "mFrom m \<in> set ids" "mFrom m \<noteq> i"
    and t: "\<not> t < currentTerm (nodes s i)"
    and free: "currentTerm (nodes s i) < t \<or> votedFor (nodes s i) = 0 \<or> votedFor (nodes s i) = mFrom m"
    and n1: "n1 = (if t > currentTerm (nodes s i)
      then (nodes s i)\<lparr>currentTerm := t, votedFor := 0, nstate := StateFollower, leaderID := 0\<rparr> else nodes s i)"
  shows "simulated adm ids s i (resetElectionTimer (n1\<lparr>votedFor := mFrom m\<rparr>)) [NewRequestVoteResp i (mFrom m) t True]"
    (is "simulated adm ids s i ?n' _")
proof -
  let ?n = "nodes s i"
  have "abs_node ?n' = (if currentTerm ?n < t
      then (abs_node ?n)\<lparr>aterm := t, avote := mFrom m, arole := StateFollower, avotes := {}\<rparr>
      else (abs_node ?n)\<lparr>aterm := t, avote := mFrom m\<rparr>)"
    using t by (auto simp: abs_node_def n1)
  moreover have "up_to_date (entries (raftLog ?n)) m"
    using m(4) rl.last_of_eq [OF node_ok_simps(3) [OF ok]] by (auto simp: isUpToDate_def up_to_date_def split: if_splits)
  moreover have "node_ok ids i ?n'" "tracked (sent s) ?n'"
    using ok tr by (auto simp: node_ok_def n1 intro: tracked_cong)
  ultimately show ?thesis
    using i frm t free m
    by (intro simulatedI)
      (auto intro!: astep.grant [where t = t and c = "mFrom m" and q = m] simp: routed_def msg_defs)
qed

lemma sim_RequestVote:
  assumes i: "i \<in> set ids" and ok: "node_ok ids i (nodes s i)" and tr: "tracked (sent s) (nodes s i)"
    and m: "m \<in> sent s" "mType m = MsgRequestVote"
    and frm: "mFrom m \<in> set ids" "mFrom m \<noteq> i"
    and step: "handleRequestVote (nodes s i) m = (n', out)"
  shows "simulated adm ids s i n' out"
proof -
  let ?n = "nodes s i" and ?t = "mTerm m"
  let ?n1 = "if ?t > currentTerm ?n
      then ?n\<lparr>currentTerm := ?t, votedFor := 0, nstate := StateFollower, leaderID := 0\<rparr> else ?n"
  let ?grant = "(votedFor ?n1 = 0 \<or> votedFor ?n1 = mFrom m) \<and> isUpToDate ?n1 (mLastLogIndex m) (mLastLogTerm m)"
  have nid: "nid ?n = i" using node_ok_simps(1) [OF ok] .
  show ?thesis
  proof (cases "?t < currentTerm ?n")
    case True
    then have "n' = ?n" "out = [NewRequestVoteResp i (mFrom m) (currentTerm ?n) False]"
      using step nid by (auto simp: handleRequestVote_def)
    with i ok tr frm show ?thesis by (intro simulated_quiet) (auto intro: harmless_resp)
  next
    case False
    then have ct: "currentTerm ?n1 = ?t" by auto
    show ?thesis
    proof (cases ?grant)
      case True
      then have free: "currentTerm ?n < ?t \<or> votedFor ?n = 0 \<or> votedFor ?n = mFrom m" by auto
      have "n' = resetElectionTimer (?n1\<lparr>votedFor := mFrom m\<rparr>)" "out = [NewRequestVoteResp i (mFrom m) ?t True]"
        using step False True ct nid by (auto simp: handleRequestVote_def Let_def)
      moreover have "isUpToDate ?n (mLastLogIndex m) (mLastLogTerm m)"
      proof -
        have "raftLog ?n1 = raftLog ?n" by simp
        with True show ?thesis unfolding isUpToDate_def by metis
      qed
      ultimately show ?thesis using sim_grant [OF i ok tr m refl _ frm False free refl] by simp
    next
      case no: False
      have n': "n' = ?n1" and out: "out = [NewRequestVoteResp i (mFrom m) ?t False]"
        using step False no ct nid by (auto simp: handleRequestVote_def Let_def)
      have ok': "node_ok ids i n'" using ok by (auto simp: node_ok_def n')
      show ?thesis
      proof (cases "currentTerm ?n < ?t")
        case True
        with i ok' frm out n' show ?thesis
          by (intro simulated_down [where t = ?t]) (auto simp: abs_node_def intro: harmless_resp)
      next
        case False
        with i ok' tr frm out n' show ?thesis
          by (intro simulated_quiet) (auto intro: harmless_resp)
      qed
    qed
  qed
qed

lemma stepDown_ok: "node_ok ids i n \<Longrightarrow> node_ok ids i (stepDown n t)"
  by (simp add: node_ok_def)

lemma sim_stepDown:
  assumes "i \<in> set ids" and "node_ok ids i (nodes s i)" and "currentTerm (nodes s i) < t"
  shows "simulated adm ids s i (stepDown (nodes s i) t) []"
  using assms by (intro simulated_down [where t = t] stepDown_ok) (auto simp: abs_node_def)

text \<open>A leader that advances its commit index has the acknowledgements of a majority.\<close>

lemma replicated_majority:
  assumes ids: "members_ok ids" and i: "i \<in> set ids" and ok: "node_ok ids i n" and tr: "tracked M n"
    and l: "nstate n = StateLeader" and j: "0 < j" "replicatedOnMajority n j"
  obtains Q where "is_majority (set ids) Q"
    "\<forall>v \<in> Q. v = i \<or> (\<exists>a \<in> M. is_ack a \<and> mTerm a = currentTerm n \<and> mFrom a = v \<and> j \<le> mMatchIndex a)"
proof
  let ?P = "{p \<in> set (peers n). j \<le> mget (matchIndex n) 0 p}"
  have d: "distinct (nid n # peers n)" and N: "set (nid n # peers n) = set ids" and nid: "nid n = i"
    using ids i ok by (auto simp: node_ok_def members_ok_def others_def)
  have "card (insert i ?P) = 1 + length (filter (\<lambda>p. j \<le> mget (matchIndex n) 0 p) (peers n))"
    using d card_filter [of "peers n"] by (auto simp: nid)
  then show "is_majority (set ids) (insert i ?P)"
    using j(2) majority_card [OF d] N nid unfolding is_majority_def replicatedOnMajority_def by auto
  have "mget (matchIndex n) 0 p \<noteq> 0" if "p \<in> ?P" for p using that j(1) by auto
  with tr l show "\<forall>v \<in> insert i ?P. v = i \<or>
      (\<exists>a \<in> M. is_ack a \<and> mTerm a = currentTerm n \<and> mFrom a = v \<and> j \<le> mMatchIndex a)"
    unfolding tracked_def by fastforce
qed

lemma sim_commitAt:
  assumes ids: "members_ok ids" and i: "i \<in> set ids" and n: "abs_node n = abs_node (nodes s i)" and ok: "node_ok ids i n"
    and tr: "tracked (sent s) n" and l: "nstate n = StateLeader"
    and j: "CommitIndex (raftLog n) < j" "committable n j"
  shows "simulated adm ids s i (commitAt n j) []"
proof (rule simulatedI)
  have ix: "indexed (entries (raftLog n))" using node_ok_simps(4) [OF ok] .
  have k: "unat j < length (entries (raftLog n))" "eTerm (entries (raftLog n) ! unat j) = currentTerm n"
    using j(2) by (auto simp: committable_def log_defs split: if_splits)
  then have "j \<le> fst (Last (raftLog n))" using le_Last_iff [OF ix] by simp
  then have "raftLog (commitAt n j) = (raftLog n)\<lparr>commitIndex := j\<rparr>"
    using j(1) by (auto simp: CommitTo_def Let_def CommitIndex_def)
  then have ab: "abs_node (commitAt n j) = (abs_node (nodes s i))\<lparr>acommit := unat j\<rparr>"
    unfolding n [symmetric] by (simp add: abs_node_def)
  have "0 < j" using j(1) by (rule le_less_trans [rotated]) simp
  then obtain Q where Q: "is_majority (set ids) Q" "\<forall>v \<in> Q. v = i \<or>
      (\<exists>a \<in> sent s. is_ack a \<and> mTerm a = currentTerm n \<and> mFrom a = v \<and> j \<le> mMatchIndex a)"
    using replicated_majority [OF ids i ok tr l, of j] j(2) by (auto simp: committable_def)
  have same: "currentTerm n = currentTerm (nodes s i)" "entries (raftLog n) = entries (raftLog (nodes s i))"
      "nstate (nodes s i) = StateLeader"
    using n l by (auto simp: abs_node_def)
  have "\<forall>v \<in> Q. v = i \<or> acks (abs_net s) (currentTerm (nodes s i)) v (unat j)"
    using Q(2) unfolding same acks_def word_le_nat_alt by fastforce
  then show "astep adm (set ids) (abs_net s) (aupd (abs_net s) i (abs_node (commitAt n j)) (set []))"
    unfolding ab using i k Q(1) same astep.commit [of i "set ids" "abs_net s" "unat j" Q adm] by simp
  show "node_ok ids i (commitAt n j)" using ok CommitTo_ok [of "raftLog n" j] by (simp add: node_ok_def)
  show "tracked (sent s) (commitAt n j)" using tr by (rule tracked_cong) simp_all
qed

lemma sim_AppendEntriesResp:
  assumes ids: "members_ok ids" and i: "i \<in> set ids" and ok: "node_ok ids i (nodes s i)"
    and tr: "tracked (sent s) (nodes s i)" and m: "m \<in> sent s" "mType m = MsgAppendEntriesResp"
    and step: "handleAppendEntriesResp (nodes s i) m = (n', out)"
  shows "simulated adm ids s i n' out"
proof -
  let ?n = "nodes s i"
  let ?n1 = "?n\<lparr>matchIndex := (matchIndex ?n)(mFrom m \<mapsto> mMatchIndex m),
    nextIndex := (nextIndex ?n)(mFrom m \<mapsto> mMatchIndex m + 1)\<rparr>"
  consider "mTerm m > currentTerm ?n"
    | "mTerm m = currentTerm ?n" "nstate ?n = StateLeader" "mSuccess m"
    | "\<not> mTerm m > currentTerm ?n" "\<not> (mTerm m = currentTerm ?n \<and> nstate ?n = StateLeader \<and> mSuccess m)"
    by blast
  then show ?thesis
  proof cases
    case 1
    with step i ok sim_stepDown show ?thesis by (auto simp: handleAppendEntriesResp_def)
  next
    case 2
    have n1: "abs_node ?n1 = abs_node ?n" "node_ok ids i ?n1" "nstate ?n1 = StateLeader" "tracked (sent s) ?n1"
      using ok 2 tr m by (auto simp: node_ok_def tracked_def intro!: abs_node_eqI)
    have "n' = advanceCommit ?n1" "out = []" using step 2 by (auto simp: handleAppendEntriesResp_def)
    with advance_loop_cases [of ?n1 "fst (Last (raftLog ?n1))"] consider "n' = ?n1" "out = []"
      | j where "CommitIndex (raftLog ?n1) < j" "committable ?n1 j" "n' = commitAt ?n1 j" "out = []"
      by (auto simp: advanceCommit_def)
    then show ?thesis
    proof cases
      case 1
      with n1 i show ?thesis by (intro simulated_quiet) auto
    next
      case (2 j)
      with sim_commitAt [OF ids i n1(1,2,4,3)] show ?thesis by simp
    qed
  next
    case 3
    with step i ok tr show ?thesis
      by (intro simulated_quiet)
        (auto simp: handleAppendEntriesResp_def node_ok_def split: if_splits intro!: abs_node_eqI tracked_cong [OF tr])
  qed
qed

text \<open>Two steps of the same node in a row.\<close>

lemma simulated_trans:
  assumes "simulated adm ids s i n1 []" and "simulated adm ids (net_upd s i n1 []) i n' out"
  shows "simulated adm ids s i n' out"
proof -
  have "aupd (aupd (abs_net s) i (abs_node n1) {}) i (abs_node n') (set out) =
      aupd (abs_net s) i (abs_node n') (set out)"
    by (simp add: aupd_def)
  with assms show ?thesis
    unfolding simulated_def abs_net_upd by (auto simp: net_upd_def intro: rtranclp_trans)
qed

lemma simulated_inv:
  assumes "simulated adm ids s i n1 out" and "safe_inv (set ids) (abs_net s) ld h"
  shows "\<exists>ld' h'. safe_inv (set ids) (abs_net (net_upd s i n1 out)) ld' h'"
proof -
  have "(astep adm (set ids))\<^sup>*\<^sup>* (abs_net s) (abs_net (net_upd s i n1 out))"
    using assms(1) by (simp add: simulated_def abs_net_upd)
  then show ?thesis using assms(2)
  proof (induction arbitrary: ld h rule: converse_rtranclp_induct)
    case base
    then show ?case by blast
  next
    case (step a b)
    then show ?case using astep_safe by metis
  qed
qed

lemma sim_becomeLeader:
  assumes ids: "members_ok ids" and i: "i \<in> set ids" and ok: "node_ok ids i (nodes s i)"
    and inv: "safe_inv (set ids) (abs_net s) ld h" and c: "nstate (nodes s i) = StateCandidate"
    and maj: "countVotes (nodes s i) \<ge> majority (nodes s i)"
    and bl: "becomeLeader (nodes s i) = Some (n', out)"
  shows "simulated adm ids s i n' out"
proof (rule simulatedI)
  let ?n = "nodes s i"
  note facts = becomeLeader_facts [OF bl]
  show ok': "node_ok ids i n'" using ok facts by (simp add: node_ok_def)
  have d: "distinct (nid ?n # peers ?n)" and N: "set (nid ?n # peers ?n) = set ids"
    using ids i ok by (auto simp: node_ok_def members_ok_def others_def)
  have av: "avotes (abs_node ?n) = {v. mget (votesGranted ?n) False v}"
    using c by (simp add: abs_node_def)
  have "avotes (abs_node ?n) \<subseteq> set ids"
    using candidate_facts(4) [OF inv i] grants_members [OF safe_invD(4) [OF inv]] c i by fastforce
  then have "{v \<in> set ids. mget (votesGranted ?n) False v} = avotes (abs_node ?n)"
    unfolding av by blast
  then have "is_majority (set ids) (avotes (abs_node ?n))"
    using maj countVotes_card [OF d] majority_card [OF d] \<open>avotes (abs_node ?n) \<subseteq> set ids\<close>
    unfolding N is_majority_def by simp
  moreover have "\<forall>m \<in> set out. leader_msg (set ids) i (currentTerm ?n) (entries (raftLog ?n)) m"
    using broadcast_leader_msgs(1) [OF ok' i facts(2)] facts by simp
  moreover have "\<forall>m \<in> set out. unat (mLeaderCommit m) = acommit (anodes (abs_net s) i)"
    using broadcast_leader_msgs(2) [OF ok' i facts(2)] facts by simp
  moreover have "abs_node n' = (abs_node ?n)\<lparr>arole := StateLeader, avotes := {}\<rparr>"
    using facts by (simp add: abs_node_def)
  ultimately show "astep adm (set ids) (abs_net s) (aupd (abs_net s) i (abs_node n') (set out))"
    using astep.win [of i "set ids" "abs_net s" "set out" adm] i c by simp
  show "tracked (sent s) n'" using facts by (simp add: tracked_def)
qed

lemma sim_vote:
  assumes i: "i \<in> set ids" and ok: "node_ok ids i (nodes s i)" and c: "nstate (nodes s i) = StateCandidate"
    and m: "m \<in> sent s" "mType m = MsgRequestVoteResp" "mTo m = i" "mTerm m = currentTerm (nodes s i)"
    and n1: "n1 = (if mGranted m
      then (nodes s i)\<lparr>votesGranted := (votesGranted (nodes s i))(mFrom m \<mapsto> True)\<rparr> else nodes s i)"
  shows "simulated adm ids s i n1 []"
proof (cases "mGranted m")
  case True
  then have "abs_node n1 = (abs_node (nodes s i))\<lparr>avotes := insert (mFrom m) (avotes (abs_node (nodes s i)))\<rparr>"
    using c by (auto simp: abs_node_def n1 split: if_splits)
  moreover have "node_ok ids i n1" using ok by (simp add: node_ok_def n1)
  ultimately show ?thesis
    using astep.collect [of i "set ids" "abs_net s" m adm] i c m True by (intro simulatedI) (simp_all add: n1)
next
  case False
  with i ok c n1 show ?thesis by (intro simulated_quiet) auto
qed

lemma sim_elected:
  assumes ids: "members_ok ids" and i: "i \<in> set ids" and inv: "safe_inv (set ids) (abs_net s) ld h"
    and n1: "simulated adm ids s i n1 []" and c: "nstate n1 = StateCandidate" and maj: "countVotes n1 \<ge> majority n1"
    and bl: "becomeLeader n1 = Some (n', out)"
  shows "simulated adm ids s i n' out"
proof -
  let ?s1 = "net_upd s i n1 []"
  have s1: "nodes ?s1 i = n1" by (simp add: net_upd_def)
  have ok1: "node_ok ids i (nodes ?s1 i)" using n1 by (simp only: s1 simulated_def)
  obtain ld' h' where inv1: "safe_inv (set ids) (abs_net ?s1) ld' h'" using simulated_inv [OF n1 inv] by blast
  have "simulated adm ids ?s1 i n' out"
    by (rule sim_becomeLeader [OF ids i ok1 inv1]) (simp_all only: s1 c maj bl)
  then show ?thesis by (rule simulated_trans [OF n1])
qed

lemma sim_RequestVoteResp:
  assumes ids: "members_ok ids" and i: "i \<in> set ids" and ok: "node_ok ids i (nodes s i)"
    and tr: "tracked (sent s) (nodes s i)"
    and inv: "safe_inv (set ids) (abs_net s) ld h"
    and m: "m \<in> sent s" "mType m = MsgRequestVoteResp" "mTo m = i"
    and step: "handleRequestVoteResp (nodes s i) m = Some (n', out)"
  shows "simulated adm ids s i n' out"
proof -
  let ?n = "nodes s i"
  let ?n1 = "if mGranted m then ?n\<lparr>votesGranted := (votesGranted ?n)(mFrom m \<mapsto> True)\<rparr> else ?n"
  consider "mTerm m > currentTerm ?n"
    | "\<not> mTerm m > currentTerm ?n" "mTerm m = currentTerm ?n \<and> nstate ?n = StateCandidate"
    | "\<not> mTerm m > currentTerm ?n" "\<not> (mTerm m = currentTerm ?n \<and> nstate ?n = StateCandidate)"
    by blast
  then show ?thesis
  proof cases
    case 1
    with step sim_stepDown [OF i ok] show ?thesis by (auto simp: handleRequestVoteResp_def)
  next
    case 3
    with step i ok tr show ?thesis by (intro simulated_quiet) (auto simp: handleRequestVoteResp_def)
  next
    case 2
    then have n1: "simulated adm ids s i ?n1 []" using m by (intro sim_vote [OF i ok]) auto
    have c1: "nstate ?n1 = StateCandidate" using 2 by simp
    show ?thesis
    proof (cases "countVotes ?n1 \<ge> majority ?n1")
      case False
      with step 2 n1 show ?thesis by (auto simp: handleRequestVoteResp_def Let_def)
    next
      case True
      with step 2 have "becomeLeader ?n1 = Some (n', out)" by (simp add: handleRequestVoteResp_def Let_def)
      with sim_elected [OF ids i inv n1 c1 True] show ?thesis by blast
    qed
  qed
qed

text \<open>The entries a leader sent fit the receiver's log: \<open>Append\<close> merges them.\<close>

lemma Append_sent:
  assumes ok: "log_ok l" and c: "carries m b" and b: "indexed b"
    and match: "MatchesPrevLogTerm l (mPrevLogIndex m) (mPrevLogTerm m)"
  shows "\<exists>p l'. mPrevLogIndex m = of_nat p \<and> p < length (entries l) \<and>
    eTerm (entries l ! p) = mPrevLogTerm m \<and> Append l (mEntries m) = Some (None, l') \<and> log_ok l' \<and>
    entries l' = merged (entries l) (Suc p) (mEntries m) \<and> commitIndex l' \<le> commitIndex l"
proof -
  obtain k j where kj: "k < j" "j \<le> length b" "mPrevLogIndex m = of_nat k"
      "mPrevLogTerm m = eTerm (b ! k)" "mEntries m = drop (Suc k) (take j b)"
    using c by (auto simp: carries_def)
  have ix: "indexed (entries l)" using ok by (simp add: log_ok_def)
  have k63: "k < 2 ^ 63" using kj indexedD(4) [OF b] by simp
  have k: "k < length (entries l) \<and> eTerm (entries l ! k) = mPrevLogTerm m"
  proof (cases "k = 0")
    case True
    then show ?thesis using indexedD(2,3) [OF ix] indexedD(3) [OF b] kj(4) by simp
  next
    case False
    with k63 have "mPrevLogIndex m \<noteq> 0" by (metis kj(3) unat_0 unat_of_nat_len)
    with match k63 show ?thesis by (simp add: rl.matches_iff [OF ok] kj(3))
  qed
  have "numbered (Suc k) (mEntries m)"
    using kj indexedD(4,5) [OF b] by (auto simp: numbered_def)
  from rl.append_merges [OF ok this] k kj(3) show ?thesis by fastforce
qed

text \<open>A node that has taken an append as one of the leader of its term, and refused or stored it.\<close>

lemma simulated_refuse:
  assumes i: "i \<in> set ids" and ok: "node_ok ids i (nodes s i)" and m: "m \<in> sent s" "is_ae m" "mTo m = i"
    and t: "\<not> mTerm m < currentTerm (nodes s i)" and out: "\<forall>m' \<in> set out. harmless (set ids) i m'"
  shows "simulated adm ids s i (ae_accept (nodes s i) m) out"
proof (rule simulatedI)
  let ?n = "nodes s i"
  have ab: "abs_node (ae_accept ?n m) = (anodes (abs_net s) i)\<lparr>aterm := mTerm m,
      avote := (if nstate ?n = StateFollower \<and> currentTerm ?n = mTerm m then avote (anodes (abs_net s) i) else 0),
      arole := StateFollower, avotes := {}\<rparr>"
    using t by (auto simp: abs_node_def)
  show "astep adm (set ids) (abs_net s) (aupd (abs_net s) i (abs_node (ae_accept ?n m)) (set out))"
    unfolding ab using i m t out by (intro astep.refuse) simp_all
  show "node_ok ids i (ae_accept ?n m)" "tracked (sent s) (ae_accept ?n m)" using ok by (simp_all add: node_ok_def)
qed

lemma abs_ae_commit:
  assumes "log_ok (raftLog n)"
  shows "\<exists>c \<le> max (unat (commitIndex (raftLog n))) (unat (mLeaderCommit m)).
    abs_node (ae_commit n m) = (abs_node n)\<lparr>acommit := c\<rparr> \<and> c < length (entries (raftLog n))"
proof -
  let ?c = "commitIndex (raftLog (ae_commit n m))"
  have "?c \<le> commitIndex (raftLog n) \<or> ?c \<le> mLeaderCommit m"
    by (auto simp: ae_commit_def Let_def CommitTo_def)
  then have "unat ?c \<le> max (unat (commitIndex (raftLog n))) (unat (mLeaderCommit m))"
    by (auto simp: word_le_nat_alt)
  moreover have "unat ?c < length (entries (raftLog n))"
    using ae_commit_ok [OF assms, of m] by (simp add: log_ok_def)
  ultimately show ?thesis by (auto simp: abs_node_def)
qed

lemma simulated_accept:
  assumes i: "i \<in> set ids" and ok: "node_ok ids i (nodes s i)" and m: "m \<in> sent s" "is_ae m" "mTo m = i"
    and frm: "mFrom m \<in> set ids" "mFrom m \<noteq> i" and t: "\<not> mTerm m < currentTerm (nodes s i)"
    and p: "mPrevLogIndex m = of_nat p" "p < length (entries (raftLog (nodes s i)))"
      "eTerm (entries (raftLog (nodes s i)) ! p) = mPrevLogTerm m"
    and l: "log_ok l" "entries l = merged (entries (raftLog (nodes s i))) (Suc p) (mEntries m)"
      "commitIndex l \<le> commitIndex (raftLog (nodes s i))"
    and n': "n' = ae_commit ((ae_accept (nodes s i) m)\<lparr>raftLog := l\<rparr>) m"
    and adm: "adm m (entries l)"
  shows "simulated adm ids s i n' [NewAppendEntriesResp i (mFrom m) (mTerm m) True (fst (Last l))]"
proof (rule simulatedI)
  let ?n = "nodes s i" and ?n2 = "(ae_accept (nodes s i) m)\<lparr>raftLog := l\<rparr>"
  obtain c where c: "c \<le> max (unat (commitIndex l)) (unat (mLeaderCommit m))" "c < length (entries l)"
      "abs_node n' = (abs_node ?n2)\<lparr>acommit := c\<rparr>"
    using abs_ae_commit [of ?n2 m] l(1) n' by auto
  have le: "c \<le> max (acommit (anodes (abs_net s) i)) (unat (mLeaderCommit m))"
    using c(1) l(3) by (auto simp: word_le_nat_alt)
  have ack: "\<forall>r \<in> set [NewAppendEntriesResp i (mFrom m) (mTerm m) True (fst (Last l))].
      ack_msg (set ids) i (mTerm m) (entries l) r"
    using i frm rl.last_of_eq [OF l(1)] by (simp add: ack_msg_def routed_def msg_defs)
  have ab: "abs_node n' = (anodes (abs_net s) i)\<lparr>aterm := mTerm m,
      avote := (if nstate ?n = StateFollower \<and> currentTerm ?n = mTerm m then avote (anodes (abs_net s) i) else 0),
      arole := StateFollower, avotes := {}, aents := entries l, acommit := c\<rparr>"
    unfolding c(3) using t by (auto simp: abs_node_def)
  show "astep adm (set ids) (abs_net s)
      (aupd (abs_net s) i (abs_node n') (set [NewAppendEntriesResp i (mFrom m) (mTerm m) True (fst (Last l))]))"
    unfolding ab using i m t p l(2) le c(2) adm ack by (intro astep.accept) simp_all
  show "node_ok ids i n'" using ok l(1) by (auto simp: node_ok_def n' intro: ae_commit_ok)
  show "tracked (sent s) n'" by (simp add: n')
qed

lemma sim_AppendEntries:
  assumes i: "i \<in> set ids" and ok: "node_ok ids i (nodes s i)" and tr: "tracked (sent s) (nodes s i)"
    and inv: "safe_inv (set ids) (abs_net s) ld h"
    and m: "m \<in> sent s" "mType m = MsgAppendEntries" "mTo m = i"
    and frm: "mFrom m \<in> set ids" "mFrom m \<noteq> i"
    and step: "handleAppendEntries (nodes s i) m = Some (n', out)"
    and adm: "\<forall>r \<in> set out. is_ack r \<longrightarrow> adm m (entries (raftLog n'))"
  shows "simulated adm ids s i n' out"
proof (cases "mTerm m < currentTerm (nodes s i)")
  case True
  with step i ok tr frm show ?thesis
    by (intro simulated_quiet) (auto simp: handleAppendEntries_def node_ok_def intro: harmless_resp)
next
  case False
  let ?n = "nodes s i" and ?n1 = "ae_accept (nodes s i) m"
  have b: "carries m (h (mTerm m))" "indexed (h (mTerm m))"
    using log_invD(1,5) [OF safe_invD(2) [OF inv]] m by (auto intro: path_indexed)
  have l: "log_ok (raftLog ?n)" and nid: "nid ?n = i" using ok by (auto simp: node_ok_def)
  have ct: "currentTerm ?n1 = mTerm m" using False by auto
  show ?thesis
  proof (cases "MatchesPrevLogTerm (raftLog ?n) (mPrevLogIndex m) (mPrevLogTerm m)")
    case no: False
    then have "n' = ?n1" "out = [NewAppendEntriesResp i (mFrom m) (mTerm m) False (fst (Last (raftLog ?n)))]"
      using step False nid ct by (auto simp: handleAppendEntries_def Let_def)
    with i frm show ?thesis by (auto intro!: simulated_refuse [OF i ok m False] harmless_resp)
  next
    case True
    obtain p l' where p: "mPrevLogIndex m = of_nat p" "p < length (entries (raftLog ?n))"
        "eTerm (entries (raftLog ?n) ! p) = mPrevLogTerm m"
        "Append (raftLog ?n) (mEntries m) = Some (None, l')" "log_ok l'"
        "entries l' = merged (entries (raftLog ?n)) (Suc p) (mEntries m)" "commitIndex l' \<le> commitIndex (raftLog ?n)"
      using Append_sent [OF l b True] by blast
    have "(if mEntries m = [] then Some (None, raftLog ?n1) else Append (raftLog ?n1) (deepCopyEntries (mEntries m))) =
        Some (None, l')"
      using p(4) by (simp add: Append_def split: if_splits)
    with step False True nid ct have n': "n' = ae_commit (?n1\<lparr>raftLog := l'\<rparr>) m"
      and out: "out = [NewAppendEntriesResp i (mFrom m) (mTerm m) True (fst (Last l'))]"
      by (simp_all add: handleAppendEntries_def Let_def)
    have "adm m (entries l')" using adm by (simp add: out n' msg_defs)
    with simulated_accept [OF i ok m frm False p(1,2,3,5,6,7) n'] show ?thesis unfolding out .
  qed
qed

lemma sim_Propose:
  assumes i: "i \<in> set ids" and ok: "node_ok ids i (nodes s i)" and tr: "tracked (sent s) (nodes s i)"
    and len: "Suc (length (entries (raftLog (nodes s i)))) < 2 ^ 63" "length cmd < 2 ^ 63"
    and step: "Propose (nodes s i) cmd = Some (e, n')"
  shows "simulated adm ids s i n' []"
proof (cases "crashed (nodes s i) \<or> nstate (nodes s i) \<noteq> StateLeader")
  case True
  with step have "n' = nodes s i" by (auto simp: Propose_def split: if_splits)
  with i ok tr show ?thesis by (intro simulated_quiet) auto
next
  case False
  let ?e = "\<lparr>eTerm = currentTerm (nodes s i), eIndex = of_nat (length (entries (raftLog (nodes s i)))),
    eCommand = cmd\<rparr>"
  from False obtain n where n: "Propose (nodes s i) cmd = Some (None, n)"
      "entries (raftLog n) = entries (raftLog (nodes s i)) @ [?e]" "log_ok (raftLog n)"
      "nid n = nid (nodes s i)" "peers n = peers (nodes s i)" "currentTerm n = currentTerm (nodes s i)"
      "votedFor n = votedFor (nodes s i)" "nstate n = StateLeader" "matchIndex n = matchIndex (nodes s i)"
      "commitIndex (raftLog n) = commitIndex (raftLog (nodes s i))"
    using Propose_leader [OF node_ok_simps(3) [OF ok] _ _ len(1)] by blast
  with step have n': "n' = n" by simp
  have "abs_node n = (abs_node (nodes s i))\<lparr>aents := aents (abs_node (nodes s i)) @ [?e]\<rparr>"
    using n False by (simp add: abs_node_def)
  moreover have "node_ok ids i n" "tracked (sent s) n" using n ok tr False by (auto simp: node_ok_def intro: tracked_cong)
  ultimately show ?thesis
    using astep.propose [of i "set ids" "abs_net s" ?e adm] i False len n' by (intro simulatedI) simp_all
qed

lemma sim_ReplicateNow:
  assumes "i \<in> set ids" and "node_ok ids i (nodes s i)" and "tracked (sent s) (nodes s i)"
    and "ReplicateNow (nodes s i) = Some out"
  shows "simulated adm ids s i (nodes s i) out"
proof (cases "nstate (nodes s i) \<noteq> StateLeader \<or> crashed (nodes s i)")
  case True
  with assms show ?thesis by (intro simulated_quiet) (auto simp: ReplicateNow_def)
next
  case False
  with assms show ?thesis by (intro simulated_heartbeat) (auto simp: ReplicateNow_def)
qed

lemma simulated_crash:
  assumes "i \<in> set ids" and "node_ok ids i n'" and "nstate n' = StateFollower"
    and "currentTerm n' = currentTerm (nodes s i)" and "votedFor n' = votedFor (nodes s i)"
    and "entries (raftLog n') = entries (raftLog (nodes s i))"
    and "commitIndex (raftLog n') \<le> commitIndex (raftLog (nodes s i))"
  shows "simulated adm ids s i n' []"
proof (rule simulatedI [OF _ assms(2)])
  have "abs_node n' = (abs_node (nodes s i))\<lparr>arole := StateFollower, avotes := {},
      acommit := unat (commitIndex (raftLog n'))\<rparr>"
    using assms by (simp add: abs_node_def)
  then show "astep adm (set ids) (abs_net s) (aupd (abs_net s) i (abs_node n') (set []))"
    using astep.crash [OF assms(1), of "unat (commitIndex (raftLog n'))" "abs_net s" adm] assms(7)
    by (simp add: word_le_nat_alt)
  show "tracked (sent s) n'" using assms(3) by simp
qed

lemma sim_Crash:
  assumes "i \<in> set ids" and "node_ok ids i (nodes s i)" and "tracked (sent s) (nodes s i)"
  shows "simulated adm ids s i (Crash (nodes s i)) []"
proof (cases "crashed (nodes s i)")
  case True
  with assms show ?thesis by (intro simulated_quiet) (auto simp: Crash_def)
next
  case False
  with assms show ?thesis by (intro simulated_crash) (auto simp: Crash_def node_ok_def)
qed

lemma sim_Restart:
  assumes i: "i \<in> set ids" and ok: "node_ok ids i (nodes s i)" and tr: "tracked (sent s) (nodes s i)"
    and inv: "safe_inv (set ids) (abs_net s) ld h"
    and step: "Restart (nodes s i) = Some (e, n')"
  shows "simulated adm ids s i n' []"
proof (cases "crashed (nodes s i)")
  case False
  with assms show ?thesis by (intro simulated_quiet) (auto simp: Restart_def)
next
  case True
  have "\<forall>e \<in> set (entries (raftLog (nodes s i))). length (eCommand e) < 2 ^ 63"
    using safe_invD(8) [OF inv i] by (simp add: path_def)
  from Restart_eq [OF node_ok_simps(3) [OF ok] True this] step have
    "nid n' = nid (nodes s i)" "peers n' = peers (nodes s i)" "currentTerm n' = currentTerm (nodes s i)"
    "votedFor n' = votedFor (nodes s i)" "nstate n' = StateFollower"
    "raftLog n' = \<lparr>entries = entries (raftLog (nodes s i)), commitIndex = 0\<rparr>"
    by auto
  with i ok show ?thesis by (intro simulated_crash) (auto simp: node_ok_def log_ok_def)
qed

lemma sim_Step:
  assumes ids: "members_ok ids" and i: "i \<in> set ids" and ok: "node_ok ids i (nodes s i)"
    and tr: "tracked (sent s) (nodes s i)"
    and inv: "safe_inv (set ids) (abs_net s) ld h" and m: "m \<in> sent s" "mTo m = i"
    and step: "Step (nodes s i) m = Some (n', out)"
    and adm: "is_ae m \<Longrightarrow> \<forall>r \<in> set out. is_ack r \<longrightarrow> adm m (entries (raftLog n'))"
  shows "simulated adm ids s i n' out"
proof (cases "crashed (nodes s i)")
  case True
  with step i ok tr show ?thesis by (intro simulated_quiet) (auto simp: Step_def)
next
  case False
  have frm: "mFrom m \<in> set ids" "mFrom m \<noteq> i"
    using safe_invD(4) [OF inv] m by (auto simp: addressed_def routed_def)
  note ops = sim_RequestVote [OF i ok tr m(1) _ frm] sim_RequestVoteResp [OF ids i ok tr inv m(1)]
    sim_AppendEntries [OF i ok tr inv m(1) _ m(2) frm] sim_AppendEntriesResp [OF ids i ok tr m(1)]
  show ?thesis
  proof (cases "mType m")
    case (MsgOther k)
    with step False show ?thesis by (intro simulated_quiet [OF i]) (auto simp: Step_def ok tr)
  qed (use step False m ops adm in \<open>auto simp: Step_def\<close>)
qed

subsection \<open>The simulation\<close>

text \<open>The steps a node takes by itself, without receiving a message.\<close>

definition local_step :: "node \<Rightarrow> node \<Rightarrow> message list \<Rightarrow> bool" where
  "local_step n n' out \<longleftrightarrow>
     currentTerm n \<noteq> - 1 \<and> Tick n = Some (n', out) \<or>
     (\<exists>cmd e. Suc (length (entries (raftLog n))) < 2 ^ 63 \<and> length cmd < 2 ^ 63 \<and>
        Propose n cmd = Some (e, n') \<and> out = []) \<or>
     ReplicateNow n = Some out \<and> n' = n \<or> n' = Crash n \<and> out = [] \<or>
     (\<exists>e. Restart n = Some (e, n') \<and> out = [])"

lemma sim_local:
  assumes i: "i \<in> set ids" and ok: "node_ok ids i (nodes s i)" and tr: "tracked (sent s) (nodes s i)"
    and inv: "safe_inv (set ids) (abs_net s) ld h" and step: "local_step (nodes s i) n' out"
  shows "simulated adm ids s i n' out"
  using step sim_Tick [OF i ok tr] sim_Propose [OF i ok tr] sim_ReplicateNow [OF i ok tr] sim_Crash [OF i ok tr]
    sim_Restart [OF i ok tr inv]
  unfolding local_step_def by blast

text \<open>A step of the network is a step of one of its nodes, alone or on a message.\<close>

lemma net_step_local: "i \<in> set ids \<Longrightarrow> local_step (nodes s i) n' out \<Longrightarrow> net_step ids s (net_upd s i n' out)"
  unfolding local_step_def by (elim disjE exE conjE) (blast intro: net_step.intros)+

lemma net_step_cases:
  assumes "net_step ids s s'"
  obtains i n' out where "i \<in> set ids" "s' = net_upd s i n' out" "local_step (nodes s i) n' out"
  | m n' out where "mTo m \<in> set ids" "m \<in> sent s" "Step (nodes s (mTo m)) m = Some (n', out)"
      "s' = net_upd s (mTo m) n' out"
  using assms unfolding local_step_def by cases blast+

lemma simulated_net:
  assumes "net_ok ids s" and "simulated adm ids s i n' out"
  shows "(astep adm (set ids))\<^sup>*\<^sup>* (abs_net s) (abs_net (net_upd s i n' out)) \<and> net_ok ids (net_upd s i n' out)"
  using assms by (auto simp: simulated_def net_ok_def net_upd_def abs_net_upd [unfolded net_upd_def] intro: tracked_mono)

lemma net_step_simulated:
  assumes step: "net_step ids s s'" and ok: "net_ok ids s" and inv: "safe_inv (set ids) (abs_net s) ld h"
  shows "(astep (\<lambda>_ _. True) (set ids))\<^sup>*\<^sup>* (abs_net s) (abs_net s') \<and> net_ok ids s'"
proof -
  from ok have ids: "members_ok ids" and n: "node_ok ids i (nodes s i)" "tracked (sent s) (nodes s i)" for i
    by (auto simp: net_ok_def)
  show ?thesis
    using step
  proof (cases rule: net_step_cases)
    case (1 i n' out)
    with simulated_net [OF ok sim_local [OF _ n inv]] show ?thesis by blast
  next
    case (2 m n' out)
    with simulated_net [OF ok sim_Step [OF ids _ n inv, where adm = "\<lambda>_ _. True"]] show ?thesis by blast
  qed
qed

text \<open>The auxiliary state of the specification: the leader of each term, and the log it wrote.\<close>

type_synonym ghost = "(u64 \<rightharpoonup> u64) \<times> (u64 \<Rightarrow> entry list)"

definition ghost_inv :: "u64 list \<Rightarrow> ghost \<Rightarrow> anet \<Rightarrow> bool" where
  "ghost_inv ids g a \<longleftrightarrow> safe_inv (set ids) a (fst g) (snd g)"

definition ghost_fwd :: "ghost \<Rightarrow> ghost \<Rightarrow> bool" where
  "ghost_fwd g g' \<longleftrightarrow> extends (fst g) (snd g) (fst g') (snd g')"

interpretation raft: simulation abs_net "net_step ids" "astep (\<lambda>_ _. True) (set ids)" "net_ok ids"
    "ghost_inv ids" ghost_fwd for ids
proof unfold_locales
  show "ghost_fwd g g" for g by (simp add: ghost_fwd_def)
  show "ghost_fwd g1 g2 \<Longrightarrow> ghost_fwd g2 g3 \<Longrightarrow> ghost_fwd g1 g3" for g1 g2 g3
    unfolding ghost_fwd_def by (rule extends_trans)
  show "astep (\<lambda>_ _. True) (set ids) a a' \<Longrightarrow> ghost_inv ids g a \<Longrightarrow> \<exists>g'. ghost_inv ids g' a' \<and> ghost_fwd g g'" for a a' g
    using astep_safe by (fastforce simp: ghost_inv_def ghost_fwd_def)
  show "net_step ids c c' \<Longrightarrow> net_ok ids c \<Longrightarrow> ghost_inv ids g (abs_net c) \<Longrightarrow>
      (astep (\<lambda>_ _. True) (set ids))\<^sup>*\<^sup>* (abs_net c) (abs_net c') \<and> net_ok ids c'" for c c' g
    unfolding ghost_inv_def by (rule net_step_simulated)
qed

end
