(* ===== verification/Runs.thy ===== *)
theory Runs
  imports Network
begin

text \<open>
  Concrete runs. A schedule is a list of actions, executed one after the other; every action that
  executes is a step of \<open>Network\<close>. Messages are kept in the order in which they were sent, so that a
  schedule names the message it delivers by its number.
\<close>

datatype action =
    DoTick u64
  | DoDeliver nat
  | DoPropose u64 "byte list"
  | DoReplicate u64
  | DoCrash u64
  | DoRestart u64

record trace =
  tnodes :: "u64 \<Rightarrow> node"
  tsent :: "message list"

definition net_of :: "trace \<Rightarrow> net" where
  "net_of tr = \<lparr>nodes = tnodes tr, sent = set (tsent tr)\<rparr>"

definition trace_init :: "u64 list \<Rightarrow> (u64 \<Rightarrow> rng) \<Rightarrow> trace" where
  "trace_init ids rs = \<lparr>tnodes = (\<lambda>i. New i (others ids i) (rs i)), tsent = []\<rparr>"

definition trace_upd :: "trace \<Rightarrow> u64 \<Rightarrow> node \<times> message list \<Rightarrow> trace" where
  "trace_upd tr i r = \<lparr>tnodes = (tnodes tr)(i := fst r), tsent = tsent tr @ snd r\<rparr>"

fun exec_action :: "u64 list \<Rightarrow> trace \<Rightarrow> action \<Rightarrow> trace option" where
  "exec_action ids tr (DoTick i) =
     (if i \<in> set ids \<and> currentTerm (tnodes tr i) \<noteq> - 1
      then map_option (trace_upd tr i) (Tick (tnodes tr i)) else None)"
| "exec_action ids tr (DoDeliver k) =
     (if k < length (tsent tr) then
        (let m = tsent tr ! k; i = mTo m
         in if i \<in> set ids then map_option (trace_upd tr i) (Step (tnodes tr i) m) else None)
      else None)"
| "exec_action ids tr (DoPropose i cmd) =
     (if i \<in> set ids \<and> int (Suc (length (entries (raftLog (tnodes tr i))))) < 2 ^ 63 \<and>
         int (length cmd) < 2 ^ 63
      then map_option (\<lambda>(_, n'). trace_upd tr i (n', [])) (Propose (tnodes tr i) cmd) else None)"
| "exec_action ids tr (DoReplicate i) =
     (if i \<in> set ids
      then map_option (\<lambda>out. trace_upd tr i (tnodes tr i, out)) (ReplicateNow (tnodes tr i)) else None)"
| "exec_action ids tr (DoCrash i) =
     (if i \<in> set ids then Some (trace_upd tr i (Crash (tnodes tr i), [])) else None)"
| "exec_action ids tr (DoRestart i) =
     (if i \<in> set ids
      then map_option (\<lambda>(_, n'). trace_upd tr i (n', [])) (Restart (tnodes tr i)) else None)"

fun exec_run :: "u64 list \<Rightarrow> trace \<Rightarrow> action list \<Rightarrow> trace option" where
  "exec_run ids tr [] = Some tr"
| "exec_run ids tr (a # as) =
     (case exec_action ids tr a of None \<Rightarrow> None | Some tr' \<Rightarrow> exec_run ids tr' as)"

lemma net_of_init [simp]: "net_of (trace_init ids rs) = net_init ids rs"
  by (simp add: net_of_def trace_init_def net_init_def)

lemma net_of_simps [simp]: "nodes (net_of tr) = tnodes tr" "sent (net_of tr) = set (tsent tr)"
  by (simp_all add: net_of_def)

lemma net_of_upd: "net_of (trace_upd tr i r) = net_upd (net_of tr) i (fst r) (snd r)"
  by (auto simp: net_of_def trace_upd_def net_upd_def)

lemma int_bound: "int k < 2 ^ 63 \<longleftrightarrow> k < 2 ^ 63"
  by simp

text \<open>An action is a step of a node by itself, or the delivery of a message.\<close>

lemma exec_action_cases:
  assumes "exec_action ids tr a = Some tr'"
  obtains i n' out where "i \<in> set ids" "local_step (tnodes tr i) n' out" "tr' = trace_upd tr i (n', out)"
  | k r where "a = DoDeliver k" "k < length (tsent tr)" "mTo (tsent tr ! k) \<in> set ids"
      "Step (tnodes tr (mTo (tsent tr ! k))) (tsent tr ! k) = Some r" "tr' = trace_upd tr (mTo (tsent tr ! k)) r"
proof (cases a)
  case (DoDeliver k)
  with assms obtain r where "k < length (tsent tr)" "mTo (tsent tr ! k) \<in> set ids"
      "Step (tnodes tr (mTo (tsent tr ! k))) (tsent tr ! k) = Some r" "tr' = trace_upd tr (mTo (tsent tr ! k)) r"
    by (auto simp: Let_def split: if_splits)
  then show ?thesis by (rule that(2) [OF DoDeliver])
next
  case (DoPropose i cmd)
  from assms obtain e n' where "i \<in> set ids" "Suc (length (entries (raftLog (tnodes tr i)))) < 2 ^ 63"
      "length cmd < 2 ^ 63" "Propose (tnodes tr i) cmd = Some (e, n')" "tr' = trace_upd tr i (n', [])"
    unfolding DoPropose exec_action.simps int_bound by (auto split: if_splits)
  then show ?thesis unfolding local_step_def by (intro that(1) [of i n' "[]", unfolded local_step_def]) blast+
qed (use assms that(1) in \<open>auto simp: local_step_def split: if_splits\<close>)

lemma exec_action_sound:
  assumes "exec_action ids tr a = Some tr'"
  shows "net_step ids (net_of tr) (net_of tr')"
  using assms
proof (cases rule: exec_action_cases)
  case (1 i n' out)
  with net_step_local [of i ids "net_of tr" n' out] show ?thesis by (simp add: net_of_upd)
next
  case (2 k r)
  with net_step.deliver [of "tsent tr ! k" ids "net_of tr" "fst r" "snd r"] show ?thesis by (simp add: net_of_upd)
qed

lemma exec_run_sound: "exec_run ids tr as = Some tr' \<Longrightarrow> (net_step ids)\<^sup>*\<^sup>* (net_of tr) (net_of tr')"
proof (induction ids tr as rule: exec_run.induct)
  case (2 ids tr a as)
  then obtain tr1 where "exec_action ids tr a = Some tr1" "exec_run ids tr1 as = Some tr'"
    by (auto split: option.splits)
  then show ?case using 2 exec_action_sound converse_rtranclp_into_rtranclp by metis
qed simp

lemma exec_run_append:
  "exec_run ids tr (as @ bs) = Option.bind (exec_run ids tr as) (\<lambda>tr'. exec_run ids tr' bs)"
  by (induction ids tr as rule: exec_run.induct) (auto split: option.splits)

text \<open>A schedule in two parts, and a check of the states in which they end.\<close>

definition runs_to :: "u64 list \<Rightarrow> action list \<Rightarrow> action list \<Rightarrow> (trace \<Rightarrow> trace \<Rightarrow> bool) \<Rightarrow> bool" where
  "runs_to ids as bs P =
     (case exec_run ids (trace_init ids (\<lambda>_. \<lparr>draws = (\<lambda>_ _. 0), drawn = 0\<rparr>)) as of
        None \<Rightarrow> False
      | Some tr \<Rightarrow> (case exec_run ids tr bs of None \<Rightarrow> False | Some tr' \<Rightarrow> P tr tr'))"

definition reachable :: "u64 list \<Rightarrow> net \<Rightarrow> bool" where
  "reachable ids s \<longleftrightarrow> (\<exists>rs. (net_step ids)\<^sup>*\<^sup>* (net_init ids rs) s)"

lemma reachable_step: "reachable ids s \<Longrightarrow> (net_step ids)\<^sup>*\<^sup>* s s' \<Longrightarrow> reachable ids s'"
  unfolding reachable_def by (meson rtranclp_trans)

lemma reachable_run:
  "exec_run ids (trace_init ids rs) as = Some tr \<Longrightarrow> reachable ids (net_of tr)"
  unfolding reachable_def using exec_run_sound [of ids "trace_init ids rs" as tr] by auto

lemma runs_toE:
  assumes "runs_to ids as bs P"
  obtains tr tr' where "reachable ids (net_of tr)" "reachable ids (net_of tr')"
    "(net_step ids)\<^sup>*\<^sup>* (net_of tr) (net_of tr')" "P tr tr'"
proof -
  obtain tr tr' where tr: "exec_run ids (trace_init ids (\<lambda>_. \<lparr>draws = (\<lambda>_ _. 0), drawn = 0\<rparr>)) as = Some tr"
      "exec_run ids tr bs = Some tr'" "P tr tr'"
    using assms by (auto simp: runs_to_def split: option.splits)
  with that reachable_run [OF tr(1)] exec_run_sound [OF tr(2)] reachable_step show ?thesis by metis
qed

text \<open>
  Schedules of a cluster of three. With every random draw 0 the election timeout is ten ticks.
  \<open>elect2\<close>: member 2 times out and is elected in term 1 by member 3. \<open>replicate2\<close>: it appends a
  command, sends it to member 3 and commits it on the answer.
\<close>

definition elect2 :: "action list" where
  "elect2 = replicate 10 (DoTick 2) @ [DoDeliver 1, DoDeliver 2]"

definition replicate2 :: "action list" where
  "replicate2 = [DoPropose 2 [65], DoDeliver 4, DoDeliver 5, DoReplicate 2, DoDeliver 7, DoDeliver 8]"

text \<open>
  \<open>diverge\<close>: member 2 leads term 1 and appends command 65, which it sends to nobody. Member 1 is
  elected in term 2 by member 3, and its first heartbeat, empty, reaches member 2, which answers
  that its log matches up to index 1. Member 1 appends command 66 at index 1, takes the answer for
  an acknowledgement of it and commits. Member 2 is elected in term 3 by member 3, appends command
  67 and replicates its log, 65 and 67, to member 3: both commit it.
\<close>

definition diverge :: "action list" where
  "diverge = elect2 @ [DoPropose 2 [65]] @
     replicate 20 (DoTick 1) @ [DoDeliver 8, DoDeliver 9, DoDeliver 10, DoPropose 1 [66], DoDeliver 12] @
     replicate 10 (DoTick 2) @ [DoDeliver 14, DoDeliver 15, DoPropose 2 [67], DoDeliver 17, DoDeliver 18,
       DoReplicate 2, DoDeliver 20, DoDeliver 21]"

end
