(* ===== verification/Safety.thy ===== *)
theory Safety
  imports Runs
begin

text \<open>
  What holds in every reachable state of a cluster whose nodes know the other members as their
  peers: the properties Raft promises that the code keeps, and the one it does not keep.
\<close>

lemma net_init_ok: "members_ok ids \<Longrightarrow> net_ok ids (net_init ids rs)"
  by (auto simp: net_ok_def node_ok_def net_init_def log_ok_def log_New_def indexed_def dummy_def)

lemma net_init_ainit: "ainit (abs_net (net_init ids rs))"
  by (simp add: ainit_def net_init_def abs_net_def abs_node_def log_New_def)

lemma net_init_inv: "members_ok ids \<Longrightarrow> ghost_inv ids (Map.empty, \<lambda>_. [dummy]) (abs_net (net_init ids rs))"
  using ainit_safe [OF net_init_ainit] by (simp add: ghost_inv_def members_ok_def)

lemma reachable_inv:
  assumes "reachable ids s" and "members_ok ids"
  shows "net_ok ids s" and "\<exists>g. ghost_inv ids g (abs_net s)"
  using raft.run_inv [OF _ net_init_ok net_init_inv] assms unfolding reachable_def by blast+

lemma reachable_node:
  assumes "reachable ids s" and "members_ok ids"
  shows "node_ok ids i (nodes s i)" and "log_ok (raftLog (nodes s i))"
  using reachable_inv(1) [OF assms] by (simp_all add: net_ok_def node_ok_def)

text \<open>Two states of one run share the auxiliary state, up to what the later one adds.\<close>

lemma reachable_later:
  assumes "reachable ids s" and "members_ok ids" and "(net_step ids)\<^sup>*\<^sup>* s s'"
  obtains ld h ld' h' where "safe_inv (set ids) (abs_net s) ld h" "safe_inv (set ids) (abs_net s') ld' h'"
    "extends ld h ld' h'"
proof -
  obtain g where g: "ghost_inv ids g (abs_net s)" using reachable_inv(2) [OF assms(1,2)] by blast
  with raft.run_inv [OF assms(3) reachable_inv(1) [OF assms(1,2)]] obtain g'
    where "ghost_inv ids g' (abs_net s')" "ghost_fwd g g'" by blast
  with g that show ?thesis by (auto simp: ghost_inv_def ghost_fwd_def)
qed

subsection \<open>Leaders\<close>

lemma leader_of_term:
  assumes "safe_inv (set ids) (abs_net s) ld h" and "i \<in> set ids" and "nstate (nodes s i) = StateLeader"
  shows "ld (currentTerm (nodes s i)) = Some i"
    and "entries (raftLog (nodes s i)) = h (currentTerm (nodes s i))"
  using safe_invD(6) [OF assms(1)] log_invD(4) [OF safe_invD(2) [OF assms(1)]] assms(2,3) by auto

text \<open>C1: Election Safety. Whenever two members are leaders of the same term, in one state or at
  different moments of a run, they are the same member.\<close>

theorem election_safety:
  assumes "members_ok ids" and "reachable ids s" and "(net_step ids)\<^sup>*\<^sup>* s s'"
    and "i \<in> set ids" and "j \<in> set ids"
    and "nstate (nodes s i) = StateLeader" and "nstate (nodes s' j) = StateLeader"
    and "currentTerm (nodes s i) = currentTerm (nodes s' j)"
  shows "i = j"
proof -
  obtain ld h ld' h' where inv: "safe_inv (set ids) (abs_net s) ld h" "safe_inv (set ids) (abs_net s') ld' h'"
    "extends ld h ld' h'"
    using reachable_later [OF assms(2,1,3)] by metis
  have "ld' (currentTerm (nodes s i)) = Some i"
    using leader_of_term(1) [OF inv(1) assms(4,6)] inv(3) by (force simp: extends_def map_le_def)
  with leader_of_term(1) [OF inv(2) assms(5,7)] assms(8) show ?thesis by simp
qed

text \<open>C4: Leader Append-Only. As long as a member leads in a term, its log only grows: what it
  held when first seen as leader of the term is a prefix of what it holds later.\<close>

theorem leader_append_only:
  assumes "members_ok ids" and "reachable ids s" and "(net_step ids)\<^sup>*\<^sup>* s s'" and "i \<in> set ids"
    and "nstate (nodes s i) = StateLeader" and "nstate (nodes s' i) = StateLeader"
    and "currentTerm (nodes s i) = currentTerm (nodes s' i)"
  shows "prefix (entries (raftLog (nodes s i))) (entries (raftLog (nodes s' i)))"
proof -
  obtain ld h ld' h' where inv: "safe_inv (set ids) (abs_net s) ld h" "safe_inv (set ids) (abs_net s') ld' h'"
    "extends ld h ld' h'"
    using reachable_later [OF assms(2,1,3)] by metis
  show ?thesis
    using leader_of_term [OF inv(1) assms(4,5)] leader_of_term(2) [OF inv(2) assms(4,6)] inv(3) assms(7)
    by (auto simp: extends_def)
qed

subsection \<open>Logs\<close>

text \<open>C2: Log Matching. If the logs of two members hold entries with the same term at the same
  index, the logs are identical up to that index.\<close>

theorem log_matching:
  assumes "members_ok ids" and "reachable ids s" and "i \<in> set ids" and "j \<in> set ids"
    and "k < length (entries (raftLog (nodes s i)))" and "k < length (entries (raftLog (nodes s j)))"
    and "eTerm (entries (raftLog (nodes s i)) ! k) = eTerm (entries (raftLog (nodes s j)) ! k)"
  shows "take (Suc k) (entries (raftLog (nodes s i))) = take (Suc k) (entries (raftLog (nodes s j)))"
proof -
  obtain g where "ghost_inv ids g (abs_net s)" using reachable_inv(2) [OF assms(2,1)] by blast
  then have inv: "safe_inv (set ids) (abs_net s) (fst g) (snd g)" by (simp add: ghost_inv_def)
  show ?thesis
    using safe_invD(8) [OF inv assms(3)] safe_invD(8) [OF inv assms(4)] assms(5-7)
    by (simp add: path_def)
qed

text \<open>In every reachable state the log of every node is well formed: it starts with the sentinel
  entry, the entry at position k carries index k, and the commit index points into the log.\<close>

theorem reachable_log_ok:
  assumes "members_ok ids" and "reachable ids s"
  shows "let es = entries (raftLog (nodes s i)) in
    es \<noteq> [] \<and> es ! 0 = dummy \<and> (\<forall>k < length es. eIndex (es ! k) = of_nat k) \<and>
    unat (commitIndex (raftLog (nodes s i))) < length es"
  using reachable_node(2) [OF assms(2,1), of i] by (auto simp: Let_def log_ok_def indexed_def)

subsection \<open>No operation panics\<close>

lemma Tick_defined: "log_ok (raftLog n) \<Longrightarrow> \<exists>r. Tick n = Some r"
  using broadcast_ok [of "n\<lparr>electionElapsed := electionElapsed n + 1, heartbeatElapsed := 0\<rparr>"]
  by (auto simp: Tick_def Let_def split: State.splits)

lemma ReplicateNow_defined: "log_ok (raftLog n) \<Longrightarrow> \<exists>r. ReplicateNow n = Some r"
  using broadcast_ok [of n] by (auto simp: ReplicateNow_def)

lemma Propose_defined:
  assumes "log_ok (raftLog n)"
  shows "\<exists>r. Propose n cmd = Some r"
proof -
  have "unat (fst (Last (raftLog n)) + 1) = length (entries (raftLog n))"
    using unat_Last_Suc assms by (simp add: log_ok_def)
  then show ?thesis by (simp add: Propose_def Append_def Let_def)
qed

lemma handleAppendEntries_defined:
  assumes ok: "log_ok (raftLog n)" and m: "carries m b" "indexed b"
  shows "\<exists>r. handleAppendEntries n m = Some r"
  using Append_sent [of "raftLog n", OF ok m] by (auto simp: handleAppendEntries_def Let_def)

lemma handleRequestVoteResp_defined: "log_ok (raftLog n) \<Longrightarrow> \<exists>r. handleRequestVoteResp n m = Some r"
  using becomeLeader_ok [of n] becomeLeader_ok [of "n\<lparr>votesGranted := (votesGranted n)(mFrom m \<mapsto> True)\<rparr>"]
  by (auto simp: handleRequestVoteResp_def Let_def)

lemma Step_defined:
  assumes "log_ok (raftLog n)" and "mType m = MsgAppendEntries \<longrightarrow> carries m b \<and> indexed b"
  shows "\<exists>r. Step n m = Some r"
  using handleAppendEntries_defined [OF assms(1)] handleRequestVoteResp_defined [OF assms(1)] assms(2)
  by (cases "mType m") (auto simp: Step_def)

text \<open>C5: No operation panics. In every reachable state each member can tick, handle any message it
  was sent, take a client command, replicate and restart: none of these indexes a log out of range,
  and a restart after a crash reads back what was persisted without an error.\<close>

theorem no_panic:
  assumes "members_ok ids" and "reachable ids s" and "i \<in> set ids"
  shows "Tick (nodes s i) \<noteq> None \<and> ReplicateNow (nodes s i) \<noteq> None \<and> Propose (nodes s i) cmd \<noteq> None \<and>
    (\<forall>m \<in> sent s. mTo m = i \<longrightarrow> Step (nodes s i) m \<noteq> None) \<and>
    (\<exists>n'. Restart (nodes s i) = Some (None, n'))"
proof -
  note ok = reachable_node(2) [OF assms(2,1), of i]
  obtain g where "ghost_inv ids g (abs_net s)" using reachable_inv(2) [OF assms(2,1)] by blast
  then have inv: "safe_inv (set ids) (abs_net s) (fst g) (snd g)" by (simp add: ghost_inv_def)
  have "Step (nodes s i) m \<noteq> None" if "m \<in> sent s" for m
    using Step_defined [OF ok, of m "snd g (mTerm m)"] log_invD(1,5) [OF safe_invD(2) [OF inv]] that
    by (auto intro: path_indexed)
  moreover have "\<exists>n'. Restart (nodes s i) = Some (None, n')"
  proof (cases "crashed (nodes s i)")
    case True
    then show ?thesis
      using Restart_eq [OF ok True] safe_invD(8) [OF inv assms(3)] by (auto simp: path_def)
  qed (simp add: Restart_def)
  ultimately show ?thesis
    using Tick_defined [OF ok] ReplicateNow_defined [OF ok] Propose_defined [OF ok] by auto
qed

subsection \<open>Terms and persistent state\<close>

lemma aterm_mono: "(astep ok N)\<^sup>*\<^sup>* a a' \<Longrightarrow> aterm (anodes a i) \<le> aterm (anodes a' i)"
proof (induction rule: rtranclp_induct)
  case (step b c)
  from step.hyps(2) have "aterm (anodes b i) \<le> aterm (anodes c i)"
  proof cases
    case (timeout j M)
    then show ?thesis using word_less_Suc [of "aterm (anodes b i)"] by (auto simp: less_imp_le)
  qed auto
  with step.IH show ?case by simp
qed simp

text \<open>Terms never go back: along every run, crashes and restarts included, the current term of a
  node only grows.\<close>

theorem term_monotone:
  assumes "members_ok ids" and "reachable ids s" and "(net_step ids)\<^sup>*\<^sup>* s s'"
  shows "currentTerm (nodes s i) \<le> currentTerm (nodes s' i)"
proof -
  obtain g where g: "ghost_inv ids g (abs_net s)" using reachable_inv(2) [OF assms(2,1)] by blast
  from raft.run_inv [OF assms(3) reachable_inv(1) [OF assms(2,1)] this]
  have "(astep (\<lambda>_ _. True) (set ids))\<^sup>*\<^sup>* (abs_net s) (abs_net s')" by blast
  from aterm_mono [OF this, of i] show ?thesis by simp
qed

text \<open>C3: The implementation refines the specification: every run of the nodes' code from the initial
  state is a run of the abstract protocol, under the abstraction that forgets timers and replication
  bookkeeping.\<close>

theorem raft_refinement:
  assumes "members_ok ids" and "(net_step ids)\<^sup>*\<^sup>* (net_init ids rs) s"
  shows "ainit (abs_net (net_init ids rs)) \<and> (astep (\<lambda>_ _. True) (set ids))\<^sup>*\<^sup>* (abs_net (net_init ids rs)) (abs_net s)"
  using raft.run_inv [OF assms(2) net_init_ok net_init_inv] net_init_ainit assms(1) by blast

subsection \<open>State Machine Safety\<close>

text \<open>C6: The code does not keep State Machine Safety: in a cluster of three, without loss of
  persistent state, two members commit different entries at index 1. A follower acknowledges the
  whole of its log, not the part the leader has compared, so a leader counts an entry as
  replicated where the follower holds another.\<close>

theorem state_machine_safety_fails:
  "\<exists>s. reachable [1, 2, 3] s \<and>
     (\<exists>k i j. i \<in> {1, 2, 3} \<and> j \<in> {1, 2, 3} \<and>
        k \<le> unat (commitIndex (raftLog (nodes s i))) \<and> k \<le> unat (commitIndex (raftLog (nodes s j))) \<and>
        entries (raftLog (nodes s i)) ! k \<noteq> entries (raftLog (nodes s j)) ! k)"
proof -
  have "runs_to [1, 2, 3] diverge [] (\<lambda>tr _.
      (let l1 = raftLog (tnodes tr 1); l2 = raftLog (tnodes tr 2)
       in 1 \<le> unat (commitIndex l1) \<and> 1 \<le> unat (commitIndex l2) \<and> entries l1 ! 1 \<noteq> entries l2 ! 1))"
    by code_simp
  then show ?thesis
    by (rule runs_toE) (intro exI [of _ "net_of _"] conjI exI [of _ 1] exI [of _ 2], auto simp: Let_def)
qed

subsection \<open>Witnesses\<close>

lemma leader_run:
  obtains s s' where "reachable [1, 2, 3] s" "(net_step [1, 2, 3])\<^sup>*\<^sup>* s s'"
    "nstate (nodes s 2) = StateLeader" "currentTerm (nodes s 2) = 1"
    "nstate (nodes s' 2) = StateLeader" "currentTerm (nodes s' 2) = 1"
    "length (entries (raftLog (nodes s' 2))) = 2" "length (entries (raftLog (nodes s' 3))) = 2"
    "eTerm (entries (raftLog (nodes s' 2)) ! 1) = 1" "eTerm (entries (raftLog (nodes s' 3)) ! 1) = 1"
    "commitIndex (raftLog (nodes s' 2)) = 1"
proof -
  have "runs_to [1, 2, 3] elect2 replicate2 (\<lambda>tr tr'.
      nstate (tnodes tr 2) = StateLeader \<and> currentTerm (tnodes tr 2) = 1 \<and>
      nstate (tnodes tr' 2) = StateLeader \<and> currentTerm (tnodes tr' 2) = 1 \<and>
      length (entries (raftLog (tnodes tr' 2))) = 2 \<and> length (entries (raftLog (tnodes tr' 3))) = 2 \<and>
      eTerm (entries (raftLog (tnodes tr' 2)) ! 1) = 1 \<and> eTerm (entries (raftLog (tnodes tr' 3)) ! 1) = 1 \<and>
      commitIndex (raftLog (tnodes tr' 2)) = 1)"
    by code_simp
  then show ?thesis by (rule runs_toE) (rule that, auto)
qed

lemma members3: "members_ok [1, 2, 3]"
  by (simp add: members_ok_def)

theorem election_safety_witness:
  "\<exists>s s'. reachable [1, 2, 3] s \<and> (net_step [1, 2, 3])\<^sup>*\<^sup>* s s' \<and>
     nstate (nodes s 2) = StateLeader \<and> currentTerm (nodes s 2) = 1 \<and>
     \<not> (nstate (nodes s' 1) = StateLeader \<and> currentTerm (nodes s' 1) = 1)"
proof (rule leader_run)
  fix s s'
  assume r: "reachable [1, 2, 3] s" "(net_step [1, 2, 3])\<^sup>*\<^sup>* s s'" "nstate (nodes s 2) = StateLeader"
    "currentTerm (nodes s 2) = 1"
  have "(2 :: u64) = 1" if "nstate (nodes s' 1) = StateLeader \<and> currentTerm (nodes s' 1) = 1"
    using election_safety [OF members3 r(1,2), of 2 1] r that by simp
  with r show ?thesis by fastforce
qed

theorem leader_append_only_witness:
  "\<exists>s s'. reachable [1, 2, 3] s \<and> (net_step [1, 2, 3])\<^sup>*\<^sup>* s s' \<and> nstate (nodes s 2) = StateLeader \<and>
     prefix (entries (raftLog (nodes s 2))) (entries (raftLog (nodes s' 2))) \<and>
     length (entries (raftLog (nodes s' 2))) = 2"
proof (rule leader_run)
  fix s s'
  assume r: "reachable [1, 2, 3] s" "(net_step [1, 2, 3])\<^sup>*\<^sup>* s s'" "nstate (nodes s 2) = StateLeader"
    "currentTerm (nodes s 2) = 1" "nstate (nodes s' 2) = StateLeader" "currentTerm (nodes s' 2) = 1"
    "length (entries (raftLog (nodes s' 2))) = 2"
  then have "prefix (entries (raftLog (nodes s 2))) (entries (raftLog (nodes s' 2)))"
    by (intro leader_append_only [OF members3 r(1,2)]) auto
  with r show ?thesis by blast
qed

theorem log_matching_witness:
  "\<exists>s. reachable [1, 2, 3] s \<and> length (entries (raftLog (nodes s 2))) = 2 \<and>
     take 2 (entries (raftLog (nodes s 2))) = take 2 (entries (raftLog (nodes s 3)))"
proof (rule leader_run)
  fix s s'
  assume r: "reachable [1, 2, 3] s" "(net_step [1, 2, 3])\<^sup>*\<^sup>* s s'"
    "length (entries (raftLog (nodes s' 2))) = 2" "length (entries (raftLog (nodes s' 3))) = 2"
    "eTerm (entries (raftLog (nodes s' 2)) ! 1) = 1" "eTerm (entries (raftLog (nodes s' 3)) ! 1) = 1"
  then have "take (Suc 1) (entries (raftLog (nodes s' 2))) = take (Suc 1) (entries (raftLog (nodes s' 3)))"
    by (intro log_matching [OF members3 reachable_step [OF r(1,2)]]) auto
  with r(3) reachable_step [OF r(1,2)] show ?thesis unfolding numeral_2_eq_2 by auto
qed

theorem reachable_log_ok_witness:
  "\<exists>s. reachable [1, 2, 3] s \<and> commitIndex (raftLog (nodes s 2)) = 1 \<and>
     unat (commitIndex (raftLog (nodes s 2))) < length (entries (raftLog (nodes s 2)))"
proof (rule leader_run)
  fix s s'
  assume r: "reachable [1, 2, 3] s" "(net_step [1, 2, 3])\<^sup>*\<^sup>* s s'" "commitIndex (raftLog (nodes s' 2)) = 1"
  with reachable_log_ok [OF members3 reachable_step [OF r(1,2)], of 2] reachable_step
  show ?thesis unfolding Let_def by blast
qed

theorem no_panic_witness:
  "\<exists>s. reachable [1, 2, 3] s \<and> nstate (nodes s 2) = StateLeader \<and> Tick (nodes s 2) \<noteq> None"
proof (rule leader_run)
  fix s s'
  assume r: "reachable [1, 2, 3] s" "nstate (nodes s 2) = StateLeader"
  with no_panic [OF members3 r(1), of 2 "[]"] show ?thesis by auto
qed

theorem term_monotone_witness:
  "\<exists>s s'. reachable [1, 2, 3] s \<and> (net_step [1, 2, 3])\<^sup>*\<^sup>* s s' \<and> currentTerm (nodes s 2) = 1 \<and>
     1 \<le> currentTerm (nodes s' 2)"
proof (rule leader_run)
  fix s s'
  assume r: "reachable [1, 2, 3] s" "(net_step [1, 2, 3])\<^sup>*\<^sup>* s s'" "currentTerm (nodes s 2) = 1"
  from term_monotone [OF members3 r(1,2), of 2] r show ?thesis by auto
qed

theorem raft_refinement_witness:
  "\<exists>rs s. (net_step [1, 2, 3])\<^sup>*\<^sup>* (net_init [1, 2, 3] rs) s \<and> nstate (nodes s 2) = StateLeader \<and>
     (astep (\<lambda>_ _. True) {1, 2, 3})\<^sup>*\<^sup>* (abs_net (net_init [1, 2, 3] rs)) (abs_net s)"
proof (rule leader_run)
  fix s s'
  assume r: "reachable [1, 2, 3] s" "nstate (nodes s 2) = StateLeader"
  then obtain rs where rs: "(net_step [1, 2, 3])\<^sup>*\<^sup>* (net_init [1, 2, 3] rs) s" unfolding reachable_def by blast
  with raft_refinement [OF members3 rs] r show ?thesis by auto
qed

end
