(* ===== verification/Cluster.thy ===== *)
theory Cluster
  imports Safety Transport
begin

text \<open>
  internal/cluster: the simulated cluster (cluster.go) and its partitions (partition.go). The nodes
  are a list, the queues a map from the addressee to its pending messages. Go iterates over the map
  of queues in an unspecified order, so the delivery operations take the order as an argument; the
  pending messages of an addressee are read when its turn comes, and are cleared after its turn,
  with whatever was added to them meanwhile.
\<close>

record cluster =
  cnodes :: "node list"
  cqueues :: "u64 \<rightharpoonup> message list"
  csize :: nat

subsection \<open>The cluster\<close>

definition cluster_peers :: "nat \<Rightarrow> u64 list" where
  "cluster_peers n = map (\<lambda>i. of_nat (i + 1)) [0..<n]"

text \<open>
  The largest slice of eight-byte elements, pointers or numbers, that \<open>make\<close> can be asked for: the runtime of Go 1.21 on
  64-bit Linux, for which the build file builds, panics for more than \<open>2 ^ 48\<close> bytes. That memory runs out
  before is not modelled.
\<close>

definition max_elems :: int where
  "max_elems = 2 ^ 45"

definition fill_cluster :: "nat \<Rightarrow> (nat \<Rightarrow> rng) \<Rightarrow> cluster" where
  "fill_cluster n rngs =
     \<lparr>cnodes = map (\<lambda>i. New (of_nat (i + 1)) (cluster_peers n) (rngs i)) [0..<n],
      cqueues = set_all Map.empty (cluster_peers n) [], csize = n\<rparr>"

text \<open>\<open>New\<close> panics when \<open>make\<close> does. The generators, which the source seeds with the seed and the number of the node,
  are arguments.\<close>

definition cluster_New :: "int \<Rightarrow> (nat \<Rightarrow> rng) \<Rightarrow> cluster run" where
  "cluster_New n rngs = (if n < 0 \<or> n > max_elems then None else Some (fill_cluster (nat n) rngs))"

fun route :: "message list \<Rightarrow> cluster \<Rightarrow> cluster" where
  "route [] c = c"
| "route (m # ms) c =
     route ms (c\<lparr>cqueues := (cqueues c)(mTo m \<mapsto> mget (cqueues c) [] (mTo m) @ [m])\<rparr>)"

definition nodeByID :: "cluster \<Rightarrow> u64 \<Rightarrow> node option" where
  "nodeByID c i = find (\<lambda>n. node_ID n = i) (cnodes c)"

text \<open>The node found by \<open>nodeByID\<close> is changed in place.\<close>

fun set_node :: "u64 \<Rightarrow> node \<Rightarrow> node list \<Rightarrow> node list" where
  "set_node i n' [] = []"
| "set_node i n' (n # ns) = (if nid n = i then n' # ns else n # set_node i n' ns)"

fun tick_nodes :: "nat list \<Rightarrow> cluster \<Rightarrow> cluster run" where
  "tick_nodes [] c = Some c"
| "tick_nodes (i # is) c =
     do {
       n \<leftarrow> go_index (cnodes c) i;
       (n', msgs) \<leftarrow> Tick n;
       tick_nodes is (route msgs (c\<lparr>cnodes := (cnodes c)[i := n']\<rparr>))
     }"

definition TickAll :: "cluster \<Rightarrow> cluster run" where
  "TickAll c = tick_nodes [0..<length (cnodes c)] c"

fun deliver_msgs :: "u64 \<Rightarrow> message list \<Rightarrow> cluster \<Rightarrow> cluster run" where
  "deliver_msgs i [] c = Some c"
| "deliver_msgs i (m # ms) c =
     do {
       n \<leftarrow> nodeByID c i;
       (n', replies) \<leftarrow> Step n m;
       deliver_msgs i ms (route replies (c\<lparr>cnodes := set_node i n' (cnodes c)\<rparr>))
     }"

fun DeliverAll :: "u64 list \<Rightarrow> cluster \<Rightarrow> cluster run" where
  "DeliverAll [] c = Some c"
| "DeliverAll (i # order) c =
     (let msgs = mget (cqueues c) [] i in
      if msgs = [] then DeliverAll order c
      else if Option.is_none (nodeByID c i) then DeliverAll order (c\<lparr>cqueues := (cqueues c)(i \<mapsto> [])\<rparr>)
      else do {
        c1 \<leftarrow> deliver_msgs i msgs c;
        DeliverAll order (c1\<lparr>cqueues := (cqueues c1)(i \<mapsto> [])\<rparr>)
      })"

definition Leader :: "cluster \<Rightarrow> u64" where
  "Leader c =
     (case find (\<lambda>n. node_State n = StateLeader) (cnodes c) of None \<Rightarrow> 0 | Some n \<Rightarrow> node_ID n)"

definition cluster_Propose :: "cluster \<Rightarrow> byte list \<Rightarrow> (node_error err \<times> cluster) run" where
  "cluster_Propose c cmd =
     (let leader = Leader c in
      if leader = 0 then Some (Some ErrNotLeader, c)
      else do {
        n \<leftarrow> nodeByID c leader;
        (e, n') \<leftarrow> Propose n cmd;
        let c1 = c\<lparr>cnodes := set_node leader n' (cnodes c)\<rparr>;
        if e \<noteq> None then Some (e, c1)
        else do { msgs \<leftarrow> ReplicateNow n'; Some (None, route msgs c1) }
      })"

definition cluster_CommittedEntries :: "cluster \<Rightarrow> u64 \<Rightarrow> entry list run" where
  "cluster_CommittedEntries c i =
     (case nodeByID c i of None \<Rightarrow> Some [] | Some n \<Rightarrow> node_CommittedEntries n)"

definition Size :: "cluster \<Rightarrow> nat" where
  "Size c = csize c"

text \<open>\<open>Node\<close> returns a pointer, here the node it points to; \<open>AllNodes\<close> copies the slice of pointers.\<close>

definition cluster_Node :: "cluster \<Rightarrow> u64 \<Rightarrow> node option" where
  "cluster_Node c i = nodeByID c i"

definition AllNodes :: "cluster \<Rightarrow> node list" where
  "AllNodes c = cnodes c"

definition DrainAllEvents :: "cluster \<Rightarrow> (u64 \<rightharpoonup> string list) \<times> cluster" where
  "DrainAllEvents c =
     (foldl (\<lambda>evs n. if events n \<noteq> [] then evs(nid n \<mapsto> events n) else evs) Map.empty (cnodes c),
      c\<lparr>cnodes := map (\<lambda>n. snd (DrainEvents n)) (cnodes c)\<rparr>)"

subsection \<open>Partitions\<close>

record partitioned =
  pcluster :: cluster
  partitions :: "u64 \<rightharpoonup> (u64 \<rightharpoonup> bool)"

definition NewPartitioned :: "int \<Rightarrow> (nat \<Rightarrow> rng) \<Rightarrow> partitioned run" where
  "NewPartitioned n rngs = do { c \<leftarrow> cluster_New n rngs; Some \<lparr>pcluster = c, partitions = Map.empty\<rparr> }"

text \<open>Setting \<open>partitions[src][dst]\<close>, with the inner map made if it was missing.\<close>

definition set_blocked :: "u64 \<Rightarrow> u64 \<Rightarrow> (u64 \<rightharpoonup> (u64 \<rightharpoonup> bool)) \<Rightarrow> (u64 \<rightharpoonup> (u64 \<rightharpoonup> bool))" where
  "set_blocked src dst ps = ps(src \<mapsto> (mget ps Map.empty src)(dst \<mapsto> True))"

fun partition_loop :: "u64 \<Rightarrow> node list \<Rightarrow> (u64 \<rightharpoonup> (u64 \<rightharpoonup> bool)) \<Rightarrow> (u64 \<rightharpoonup> (u64 \<rightharpoonup> bool))" where
  "partition_loop i [] ps = ps"
| "partition_loop i (n # ns) ps =
     partition_loop i ns
       (if nid n \<noteq> i then set_blocked (nid n) i (set_blocked i (nid n) ps) else ps)"

definition Partition :: "u64 \<Rightarrow> partitioned \<Rightarrow> partitioned" where
  "Partition i pc =
     (let ps = (if partitions pc i = None then (partitions pc)(i \<mapsto> Map.empty) else partitions pc)
      in pc\<lparr>partitions := partition_loop i (cnodes (pcluster pc)) ps\<rparr>)"

definition Heal :: "u64 \<Rightarrow> partitioned \<Rightarrow> partitioned" where
  "Heal i pc =
     pc\<lparr>partitions := (\<lambda>src. map_option (\<lambda>m. m(i := None)) (((partitions pc)(i := None)) src))\<rparr>"

definition HealAll :: "partitioned \<Rightarrow> partitioned" where
  "HealAll pc = pc\<lparr>partitions := Map.empty\<rparr>"

definition IsBlocked :: "partitioned \<Rightarrow> u64 \<Rightarrow> u64 \<Rightarrow> bool" where
  "IsBlocked pc src dst =
     (case partitions pc src of None \<Rightarrow> False | Some m \<Rightarrow> mget m False dst)"

fun deliver_filtered :: "u64 \<Rightarrow> message list \<Rightarrow> partitioned \<Rightarrow> partitioned run" where
  "deliver_filtered i [] pc = Some pc"
| "deliver_filtered i (m # ms) pc =
     (if IsBlocked pc (mFrom m) (mTo m) then deliver_filtered i ms pc
      else do {
        n \<leftarrow> nodeByID (pcluster pc) i;
        (n', replies) \<leftarrow> Step n m;
        let c1 = (pcluster pc)\<lparr>cnodes := set_node i n' (cnodes (pcluster pc))\<rparr>;
        deliver_filtered i ms
          (pc\<lparr>pcluster := route (filter (\<lambda>r. \<not> IsBlocked pc (mFrom r) (mTo r)) replies) c1\<rparr>)
      })"

definition clear_queue :: "u64 \<Rightarrow> partitioned \<Rightarrow> partitioned" where
  "clear_queue i pc = pc\<lparr>pcluster := (pcluster pc)\<lparr>cqueues := (cqueues (pcluster pc))(i \<mapsto> [])\<rparr>\<rparr>"

fun DeliverAllFiltered :: "u64 list \<Rightarrow> partitioned \<Rightarrow> partitioned run" where
  "DeliverAllFiltered [] pc = Some pc"
| "DeliverAllFiltered (i # order) pc =
     (let msgs = mget (cqueues (pcluster pc)) [] i in
      if msgs = [] then DeliverAllFiltered order pc
      else if Option.is_none (nodeByID (pcluster pc) i) then DeliverAllFiltered order (clear_queue i pc)
      else do {
        pc1 \<leftarrow> deliver_filtered i msgs pc;
        DeliverAllFiltered order (clear_queue i pc1)
      })"

subsection \<open>Driving the cluster\<close>

text \<open>
  The two loops of main.go. \<open>elect\<close> ticks and delivers until there is a leader, at most \<open>k\<close> times;
  \<open>drive\<close> ticks and delivers \<open>k\<close> times. \<open>order k\<close> is the order in
  which the queues are visited when \<open>k\<close> further rounds remain.
\<close>

fun elect :: "nat \<Rightarrow> (nat \<Rightarrow> u64 list) \<Rightarrow> cluster \<Rightarrow> cluster run" where
  "elect 0 order c = Some c"
| "elect (Suc k) order c =
     do {
       c1 \<leftarrow> TickAll c;
       c2 \<leftarrow> DeliverAll (order k) c1;
       if Leader c2 > 0 then Some c2 else elect k order c2
     }"

fun drive :: "nat \<Rightarrow> (nat \<Rightarrow> u64 list) \<Rightarrow> cluster \<Rightarrow> cluster run" where
  "drive 0 order c = Some c"
| "drive (Suc k) order c = do { c1 \<leftarrow> TickAll c; c2 \<leftarrow> DeliverAll (order k) c1; drive k order c2 }"

subsection \<open>Queues\<close>

text \<open>The queues of the cluster are a message bus.\<close>

definition post_msg :: "message \<Rightarrow> cluster \<Rightarrow> cluster" where
  "post_msg m c = route [m] c"

definition cqueue :: "cluster \<Rightarrow> u64 \<Rightarrow> message list" where
  "cqueue c i = mget (cqueues c) [] i"

definition empty_queue :: "u64 \<Rightarrow> cluster \<Rightarrow> cluster" where
  "empty_queue i c = c\<lparr>cqueues := (cqueues c)(i \<mapsto> [])\<rparr>"

interpretation cbus: message_bus post_msg empty_queue cqueue "\<lambda>_ _. True"
  by unfold_locales (auto simp: post_msg_def cqueue_def empty_queue_def)

lemma route_post_all: "route ms c = cbus.post_all ms c"
proof (induction ms arbitrary: c)
  case (Cons m ms)
  have "route (m # ms) c = route ms (post_msg m c)" by (simp add: post_msg_def)
  also have "\<dots> = cbus.post_all ms (post_msg m c)" by (rule Cons.IH)
  also have "\<dots> = cbus.post_all (m # ms) c" by (simp only: cbus.post_all.simps)
  finally show ?case .
qed simp

lemma cqueue_route: "cqueue (route ms c) i = cqueue c i @ filter (\<lambda>m. mTo m = i) ms"
  unfolding route_post_all by (rule cbus.queue_post_all) simp

lemmas mget_route = cqueue_route [unfolded cqueue_def]

lemma cnodes_route [simp]: "cnodes (route ms c) = cnodes c"
  by (induction ms c rule: route.induct) auto

text \<open>Routing. \<open>route\<close> appends to every queue exactly the messages addressed to it, in order, and
  changes no node.\<close>

theorem route_spec:
  "cqueue (route ms c) i = cqueue c i @ filter (\<lambda>m. mTo m = i) ms \<and> cnodes (route ms c) = cnodes c"
  by (simp add: cqueue_route)

subsection \<open>The links a partition blocks\<close>

lemma IsBlocked_set:
  "IsBlocked (pc\<lparr>partitions := set_blocked a b ps\<rparr>) src dst \<longleftrightarrow>
     src = a \<and> dst = b \<or> IsBlocked (pc\<lparr>partitions := ps\<rparr>) src dst"
  by (auto simp: IsBlocked_def set_blocked_def mget_def split: option.splits)

lemma IsBlocked_loop:
  "IsBlocked (pc\<lparr>partitions := partition_loop i ns ps\<rparr>) src dst \<longleftrightarrow>
     IsBlocked (pc\<lparr>partitions := ps\<rparr>) src dst \<or>
     src \<noteq> dst \<and> (src = i \<and> dst \<in> nid ` set ns \<or> dst = i \<and> src \<in> nid ` set ns)"
  by (induction i ns ps rule: partition_loop.induct) (auto simp: IsBlocked_set)

lemma IsBlocked_Partition:
  "IsBlocked (Partition i pc) src dst \<longleftrightarrow> IsBlocked pc src dst \<or>
     src \<noteq> dst \<and> (src = i \<and> dst \<in> nid ` set (cnodes (pcluster pc)) \<or>
       dst = i \<and> src \<in> nid ` set (cnodes (pcluster pc)))"
proof -
  have "IsBlocked (pc\<lparr>partitions := if partitions pc i = None then (partitions pc)(i \<mapsto> Map.empty) else partitions pc\<rparr>) src dst
      \<longleftrightarrow> IsBlocked pc src dst"
    by (auto simp: IsBlocked_def mget_def split: option.splits)
  then show ?thesis by (simp add: Partition_def Let_def IsBlocked_loop)
qed

lemma IsBlocked_Heal: "IsBlocked (Heal i pc) src dst \<longleftrightarrow> src \<noteq> i \<and> dst \<noteq> i \<and> IsBlocked pc src dst"
  by (auto simp: IsBlocked_def Heal_def mget_def split: option.splits)

text \<open>Partitions. Isolating a node blocks exactly the links between it and the other nodes, in both
  directions, on top of what was blocked; healing it unblocks every link to and from it and no
  other; healing everything unblocks every link.\<close>

theorem Partition_Heal:
  "(IsBlocked (Partition i pc) src dst \<longleftrightarrow> IsBlocked pc src dst \<or>
      src \<noteq> dst \<and> (src = i \<and> dst \<in> nid ` set (cnodes (pcluster pc)) \<or>
        dst = i \<and> src \<in> nid ` set (cnodes (pcluster pc)))) \<and>
   (IsBlocked (Heal i pc) src dst \<longleftrightarrow> src \<noteq> i \<and> dst \<noteq> i \<and> IsBlocked pc src dst) \<and>
   \<not> IsBlocked (HealAll pc) src dst"
  using IsBlocked_Partition IsBlocked_Heal by (simp add: IsBlocked_def HealAll_def)

text \<open>Healing one node ends part of another node's isolation. When two nodes have been isolated, and
  one of them is healed, messages pass between the two again, although the other one has not been
  healed.\<close>

theorem Heal_other_isolation:
  assumes "a \<in> nid ` set (cnodes (pcluster pc))" and "b \<in> nid ` set (cnodes (pcluster pc))" and "a \<noteq> b"
  shows "IsBlocked (Partition b pc) b a \<and> \<not> IsBlocked (Heal a (Partition b (Partition a pc))) b a \<and>
    \<not> IsBlocked (Heal a (Partition b (Partition a pc))) a b"
  using assms by (auto simp: IsBlocked_Partition IsBlocked_Heal)

lemma deliver_filtered_open:
  "partitions pc = Map.empty \<Longrightarrow>
     deliver_filtered i ms pc = map_option (\<lambda>c. pc\<lparr>pcluster := c\<rparr>) (deliver_msgs i ms (pcluster pc))"
proof (induction ms arbitrary: pc)
  case (Cons m ms)
  then have "\<not> IsBlocked pc src dst" for src dst by (simp add: IsBlocked_def)
  with Cons show ?case by (auto simp: bind_eq_None_conv Let_def split: bind_split)
qed simp

text \<open>Without partitions, filtered delivery is delivery: for every order of the queues it leaves the
  same nodes and queues.\<close>

theorem DeliverAllFiltered_DeliverAll:
  assumes "partitions pc = Map.empty"
  shows "DeliverAllFiltered order pc =
    map_option (\<lambda>c. \<lparr>pcluster = c, partitions = Map.empty\<rparr>) (DeliverAll order (pcluster pc))"
  using assms
proof (induction order arbitrary: pc)
  case Nil
  then show ?case by (cases pc) simp
next
  case (Cons i order)
  let ?c = "pcluster pc"
  show ?case
  proof (cases "mget (cqueues ?c) [] i = [] \<or> Option.is_none (nodeByID ?c i)")
    case True
    with Cons show ?thesis by (auto simp: clear_queue_def Let_def)
  next
    case False
    with Cons show ?thesis
      by (cases "deliver_msgs i (mget (cqueues ?c) [] i) ?c")
        (auto simp: deliver_filtered_open clear_queue_def Let_def)
  qed
qed

subsection \<open>Deliveries never panic\<close>

text \<open>An append that carries a run of some well-numbered log of at most \<open>L\<close> entries. Every append a node
  with such a log sends is one, whoever else leads. \<open>L\<close> bounds all the logs of a cluster; only a client
  command can exceed it.\<close>

definition msg_ok :: "nat \<Rightarrow> message \<Rightarrow> bool" where
  "msg_ok L m \<longleftrightarrow> (mType m = MsgAppendEntries \<longrightarrow> (\<exists>b. carries m b \<and> indexed b \<and> length b \<le> L))"

definition log_fits :: "nat \<Rightarrow> log \<Rightarrow> bool" where
  "log_fits L l \<longleftrightarrow> log_ok l \<and> length (entries l) \<le> L"

lemma log_fitsD: "log_fits L l \<Longrightarrow> log_ok l"
  by (simp add: log_fits_def)

lemma ae_from_msg_ok: "log_fits L (raftLog n) \<Longrightarrow> ae_from n m \<Longrightarrow> msg_ok L m"
  by (auto simp: msg_ok_def ae_from_def log_fits_def log_ok_def)

lemma broadcast_msg_ok:
  assumes "log_fits L (raftLog n)" and "broadcastAppendEntries n = Some out"
  shows "\<forall>m \<in> set out. msg_ok L m"
  using broadcast_ok [OF log_fitsD [OF assms(1)]] assms(2) ae_from_msg_ok [OF assms(1)] by auto

lemma resp_msg_ok:
  "msg_ok L (NewRequestVote a b t i j)" "msg_ok L (NewRequestVoteResp a b t g)" "msg_ok L (NewAppendEntriesResp a b t s k)"
  by (simp_all add: msg_ok_def msg_defs)

text \<open>What every operation of a node keeps: its identity and the form of its log; what it sends is
  well formed.\<close>

definition kept_ok :: "nat \<Rightarrow> node \<Rightarrow> (node \<times> message list) run \<Rightarrow> bool" where
  "kept_ok L n r \<longleftrightarrow>
     (\<exists>n' out. r = Some (n', out) \<and> nid n' = nid n \<and> log_fits L (raftLog n') \<and> (\<forall>m \<in> set out. msg_ok L m))"

lemma kept_okI:
  "nid n' = nid n \<Longrightarrow> log_fits L (raftLog n') \<Longrightarrow> \<forall>m \<in> set out. msg_ok L m \<Longrightarrow> kept_ok L n (Some (n', out))"
  by (auto simp: kept_ok_def)

lemma Tick_kept:
  assumes ok: "log_fits L (raftLog n)"
  shows "kept_ok L n (Tick n)"
proof -
  consider "crashed n" | "\<not> crashed n" "nstate n = StateLeader" | "\<not> crashed n" "nstate n \<noteq> StateLeader" by blast
  then show ?thesis
  proof cases
    case 1
    then show ?thesis using ok by (simp add: Tick_crashed kept_okI)
  next
    case 2
    let ?n = "n\<lparr>electionElapsed := electionElapsed n + 1, heartbeatElapsed := 0\<rparr>"
    obtain ms where ms: "broadcastAppendEntries ?n = Some ms" using broadcast_ok [of ?n] log_fitsD [OF ok] by auto
    then have "\<forall>m \<in> set ms. msg_ok L m" using broadcast_msg_ok [OF _ ms] ok by simp
    with ms ok show ?thesis by (simp add: Tick_leader [OF 2] kept_okI)
  next
    case 3
    let ?n = "n\<lparr>electionElapsed := electionElapsed n + 1\<rparr>"
    have "\<forall>m \<in> set (snd (startElection ?n)). msg_ok L m"
      using snd_startElection [of _ ?n] by (fastforce simp: msg_ok_def)
    then have "kept_ok L n (Some (fst (startElection ?n), snd (startElection ?n)))"
      using ok by (intro kept_okI) auto
    with ok show ?thesis by (simp add: Tick_other [OF 3] kept_okI)
  qed
qed

lemma handleRequestVote_kept:
  assumes "log_fits L (raftLog n)"
  shows "kept_ok L n (Some (handleRequestVote n m))"
proof -
  obtain n' out where h: "handleRequestVote n m = (n', out)" by fastforce
  then have "nid n' = nid n" "raftLog n' = raftLog n" "\<forall>m \<in> set out. msg_ok L m"
    by (auto simp: handleRequestVote_def Let_def resp_msg_ok split: if_splits)
  with assms h show ?thesis by (simp add: kept_okI)
qed

lemma handleRequestVoteResp_kept:
  assumes ok: "log_fits L (raftLog n)"
  shows "kept_ok L n (handleRequestVoteResp n m)"
proof -
  let ?n1 = "if mGranted m then n\<lparr>votesGranted := (votesGranted n)(mFrom m \<mapsto> True)\<rparr> else n"
  have l1: "log_fits L (raftLog ?n1)" "nid ?n1 = nid n" using ok by simp_all
  obtain out where b: "becomeLeader ?n1 = Some (leaderState ?n1, out)" "\<forall>m \<in> set out. ae_from (leaderState ?n1) m"
    using becomeLeader_ok [OF log_fitsD [OF l1(1)]] by blast
  have "\<forall>m \<in> set out. msg_ok L m" using b(2) ae_from_msg_ok [of L "leaderState ?n1"] l1(1) by auto
  then have "kept_ok L n (becomeLeader ?n1)" using b(1) l1 by (simp only: b(1)) (intro kept_okI, auto)
  moreover have "kept_ok L n (Some (?n1, []))" using l1 by (intro kept_okI) auto
  ultimately show ?thesis
    using ok by (simp add: handleRequestVoteResp_def Let_def kept_okI)
qed

lemma handleAppendEntriesResp_kept:
  assumes "log_fits L (raftLog n)"
  shows "kept_ok L n (Some (handleAppendEntriesResp n m))"
  using assms by (auto simp: handleAppendEntriesResp_def log_fits_def intro!: kept_okI advanceCommit_ok)

lemma merged_le: "p \<le> length es \<Longrightarrow> length (merged es p ns) \<le> max (length es) (p + length ns)"
  by (auto simp: merged_def split: option.splits dest: first_diff_bounds)

lemma Append_sent_fits:
  assumes ok: "log_fits L l" and b: "carries m b" "indexed b" "length b \<le> L"
    and match: "MatchesPrevLogTerm l (mPrevLogIndex m) (mPrevLogTerm m)"
  shows "\<exists>l'. Append l (mEntries m) = Some (None, l') \<and> log_fits L l'"
proof -
  obtain p l' where l': "mPrevLogIndex m = of_nat p" "p < length (entries l)" "Append l (mEntries m) = Some (None, l')"
      "log_ok l'" "entries l' = merged (entries l) (Suc p) (mEntries m)"
    using Append_sent [OF log_fitsD [OF ok] b(1,2) match] by blast
  have len: "length (entries l) \<le> L" "length (entries l) < 2 ^ 63"
    using ok by (auto simp: log_fits_def log_ok_def dest: indexedD(4))
  obtain k j where kj: "k < j" "j \<le> length b" "mPrevLogIndex m = of_nat k" "mEntries m = drop (Suc k) (take j b)"
    using b(1) by (auto simp: carries_def)
  have "k < 2 ^ 64" "p < 2 ^ 64" using kj indexedD(4) [OF b(2)] l'(2) len by auto
  then have "k = p" using kj(3) l'(1) by (metis unat_of_nat64)
  then have "Suc p + length (mEntries m) \<le> L" using kj b(3) by auto
  then have "length (entries l') \<le> L" using merged_le [of "Suc p" "entries l" "mEntries m"] l'(2,5) len(1) by simp
  with l'(3,4) show ?thesis by (auto simp: log_fits_def)
qed

lemma handleAppendEntries_kept:
  assumes ok: "log_fits L (raftLog n)" and m: "mType m = MsgAppendEntries" "msg_ok L m"
  shows "kept_ok L n (handleAppendEntries n m)"
proof -
  let ?n1 = "ae_accept n m"
  obtain b where b: "carries m b" "indexed b" "length b \<le> L" using m by (auto simp: msg_ok_def)
  show ?thesis
  proof (cases "mTerm m < currentTerm n \<or> \<not> MatchesPrevLogTerm (raftLog n) (mPrevLogIndex m) (mPrevLogTerm m)")
    case True
    then show ?thesis
      using ok by (auto simp: handleAppendEntries_def Let_def resp_msg_ok intro!: kept_okI)
  next
    case False
    then obtain l' where l': "Append (raftLog n) (mEntries m) = Some (None, l')" "log_fits L l'"
      using Append_sent_fits [OF ok b] by blast
    define l2 where "l2 = (if mEntries m = [] then raftLog n else l')"
    have l2: "log_fits L (raftLog (?n1\<lparr>raftLog := l2\<rparr>))" using l'(2) ok by (simp add: l2_def)
    have "handleAppendEntries n m = Some (ae_commit (?n1\<lparr>raftLog := l2\<rparr>) m,
        [NewAppendEntriesResp (nid n) (mFrom m) (currentTerm ?n1) True (fst (Last l2))])"
      using False l'(1) by (auto simp: handleAppendEntries_def Let_def l2_def)
    then show ?thesis using ae_commit_ok [OF log_fitsD [OF l2]] l2 by (simp add: kept_okI resp_msg_ok log_fits_def)
  qed
qed

lemma Step_kept:
  assumes "log_fits L (raftLog n)" and "msg_ok L m"
  shows "kept_ok L n (Step n m)"
proof (cases "crashed n")
  case True
  then show ?thesis using assms by (simp add: Step_def kept_okI)
next
  case False
  then show ?thesis
    using handleRequestVote_kept [OF assms(1), of m] handleRequestVoteResp_kept [OF assms(1), of m]
      handleAppendEntries_kept [OF assms(1) _ assms(2)] handleAppendEntriesResp_kept [OF assms(1), of m] assms(1)
    by (cases "mType m") (auto simp: Step_def intro: kept_okI)
qed

text \<open>A cluster whose nodes have well-formed logs and whose queues hold well-formed messages.\<close>

definition cluster_ok :: "nat \<Rightarrow> cluster \<Rightarrow> bool" where
  "cluster_ok L c \<longleftrightarrow> (\<forall>n \<in> set (cnodes c). log_fits L (raftLog n)) \<and>
     (\<forall>i. \<forall>m \<in> set (mget (cqueues c) [] i). msg_ok L m)"

lemma cluster_ok_post:
  "cluster_ok L c \<Longrightarrow> msg_ok L m \<Longrightarrow> cluster_ok L (c\<lparr>cqueues := (cqueues c)(i \<mapsto> mget (cqueues c) [] i @ [m])\<rparr>)"
  by (simp add: cluster_ok_def)

lemma cluster_ok_route: "cluster_ok L c \<Longrightarrow> \<forall>m \<in> set ms. msg_ok L m \<Longrightarrow> cluster_ok L (route ms c)"
proof (induction ms arbitrary: c)
  case (Cons m ms)
  then have "cluster_ok L (c\<lparr>cqueues := (cqueues c)(mTo m \<mapsto> mget (cqueues c) [] (mTo m) @ [m])\<rparr>)"
    by (intro cluster_ok_post) auto
  with Cons.IH Cons.prems(2) show ?case by simp
qed simp

lemma cluster_ok_clear: "cluster_ok L c \<Longrightarrow> cluster_ok L (c\<lparr>cqueues := (cqueues c)(i \<mapsto> [])\<rparr>)"
  by (auto simp: cluster_ok_def)

lemma set_set_node: "set (set_node i n' ns) \<subseteq> insert n' (set ns)"
  by (induction ns) auto

lemma map_nid_set_node: "nid n' = i \<Longrightarrow> map nid (set_node i n' ns) = map nid ns"
  by (induction ns) auto

lemma nodeByID_Some: "nodeByID c i = Some n \<Longrightarrow> n \<in> set (cnodes c) \<and> nid n = i"
  by (auto simp: nodeByID_def find_Some_iff)

lemma nodeByID_None: "nodeByID c i = None \<longleftrightarrow> i \<notin> set (map nid (cnodes c))"
  by (auto simp: nodeByID_def find_None_iff)

lemma tick_nodes_ok:
  "cluster_ok L c \<Longrightarrow> \<forall>i \<in> set is. i < length (cnodes c) \<Longrightarrow>
     \<exists>c'. tick_nodes is c = Some c' \<and> cluster_ok L c' \<and> map nid (cnodes c') = map nid (cnodes c)"
proof (induction "is" arbitrary: c)
  case (Cons i "is")
  let ?n = "cnodes c ! i"
  have i: "i < length (cnodes c)" and ok: "log_fits L (raftLog ?n)"
    using Cons.prems by (auto simp: cluster_ok_def)
  obtain n' out where t: "Tick ?n = Some (n', out)" "nid n' = nid ?n" "log_fits L (raftLog n')" "\<forall>m \<in> set out. msg_ok L m"
    using Tick_kept [OF ok] by (auto simp: kept_ok_def)
  let ?c1 = "route out (c\<lparr>cnodes := (cnodes c)[i := n']\<rparr>)"
  have "cluster_ok L ?c1"
    using Cons.prems(1) t by (intro cluster_ok_route) (auto simp: cluster_ok_def dest: set_update_subset_insert [THEN subsetD])
  moreover have "map nid (cnodes ?c1) = map nid (cnodes c)" using t(2) i by (simp add: map_update list_update_same_conv)
  ultimately show ?case using Cons.IH [of ?c1] Cons.prems(2) i t(1) by auto
qed auto

lemma deliver_msgs_ok:
  "cluster_ok L c \<Longrightarrow> \<forall>m \<in> set ms. msg_ok L m \<Longrightarrow> i \<in> set (map nid (cnodes c)) \<Longrightarrow>
     \<exists>c'. deliver_msgs i ms c = Some c' \<and> cluster_ok L c' \<and> map nid (cnodes c') = map nid (cnodes c)"
proof (induction ms arbitrary: c)
  case (Cons m ms)
  obtain n where n: "nodeByID c i = Some n" using Cons.prems(3) nodeByID_None [of c i] by fastforce
  then have ok: "log_fits L (raftLog n)" "nid n = i" using nodeByID_Some [OF n] Cons.prems(1) by (auto simp: cluster_ok_def)
  have "msg_ok L m" using Cons.prems(2) by simp
  then obtain n' out where t: "Step n m = Some (n', out)" "nid n' = i" "log_fits L (raftLog n')" "\<forall>m \<in> set out. msg_ok L m"
    using Step_kept [OF ok(1), of m] ok(2) unfolding kept_ok_def by blast
  let ?c1 = "route out (c\<lparr>cnodes := set_node i n' (cnodes c)\<rparr>)"
  have "cluster_ok L ?c1"
    using Cons.prems(1) t set_set_node [of i n' "cnodes c"] by (intro cluster_ok_route) (auto simp: cluster_ok_def)
  moreover have ids: "map nid (cnodes ?c1) = map nid (cnodes c)" using map_nid_set_node [OF t(2)] by simp
  moreover have "i \<in> set (map nid (cnodes ?c1))" unfolding ids by (rule Cons.prems(3))
  ultimately show ?case using Cons.IH [of ?c1] Cons.prems(2) n t(1) by auto
qed simp

lemma fill_cluster_ok: "cluster_ok (Suc L) (fill_cluster k rngs)"
proof -
  have "length (entries log_New) = 1" by (simp add: log_New_def)
  then show ?thesis
    by (auto simp: cluster_ok_def log_fits_def fill_cluster_def mget_def set_all_eq split: if_splits)
qed

lemma cluster_New_Some: "cluster_New k rngs = Some c \<longleftrightarrow> 0 \<le> k \<and> k \<le> max_elems \<and> c = fill_cluster (nat k) rngs"
  by (auto simp: cluster_New_def)

lemma cluster_New_ok: "cluster_New k rngs = Some c \<Longrightarrow> cluster_ok (Suc L) c"
  by (simp add: cluster_New_Some fill_cluster_ok)

lemma cluster_ok_mono: "cluster_ok L c \<Longrightarrow> L \<le> L' \<Longrightarrow> cluster_ok L' c"
  unfolding cluster_ok_def log_fits_def msg_ok_def by (meson le_trans)

lemma TickAll_ok:
  "cluster_ok L c \<Longrightarrow> \<exists>c'. TickAll c = Some c' \<and> cluster_ok L c' \<and> map nid (cnodes c') = map nid (cnodes c)"
  unfolding TickAll_def by (rule tick_nodes_ok) auto

lemma DeliverAll_ok:
  "cluster_ok L c \<Longrightarrow> \<exists>c'. DeliverAll order c = Some c' \<and> cluster_ok L c' \<and> map nid (cnodes c') = map nid (cnodes c)"
proof (induction order arbitrary: c)
  case (Cons i order)
  let ?ms = "mget (cqueues c) [] i"
  show ?case
  proof (cases "?ms = [] \<or> Option.is_none (nodeByID c i)")
    case True
    with Cons.prems Cons.IH [of c] Cons.IH [OF cluster_ok_clear [OF Cons.prems, of i]] show ?thesis
      by (cases "?ms = []") (simp_all add: Let_def)
  next
    case False
    then have "i \<in> set (map nid (cnodes c))" using nodeByID_None [of c i] by (auto simp: Option.is_none_def)
    moreover have "\<forall>m \<in> set ?ms. msg_ok L m" using Cons.prems by (simp add: cluster_ok_def)
    ultimately obtain c1 where "deliver_msgs i ?ms c = Some c1" "cluster_ok L c1" "map nid (cnodes c1) = map nid (cnodes c)"
      using deliver_msgs_ok [OF Cons.prems] by blast
    with False Cons.IH [of "c1\<lparr>cqueues := (cqueues c1)(i \<mapsto> [])\<rparr>"] cluster_ok_clear [of L c1 i]
    show ?thesis by (auto simp: Let_def)
  qed
qed auto

text \<open>A client command lengthens the log of the leader by one entry.\<close>

lemma Leader_node: "Leader c \<noteq> 0 \<Longrightarrow> Leader c \<in> set (map nid (cnodes c))"
proof (cases "find (\<lambda>n. nstate n = StateLeader) (cnodes c)")
  case (Some n)
  then have "n \<in> set (cnodes c)" by (auto simp: find_Some_iff)
  with Some show ?thesis by (simp add: Leader_def)
qed (simp add: Leader_def)

lemma Propose_kept:
  assumes ok: "log_fits L (raftLog n)" and L: "Suc L < 2 ^ 63"
  shows "\<exists>e n' out. Propose n cmd = Some (e, n') \<and> nid n' = nid n \<and> log_fits (Suc L) (raftLog n') \<and>
    ReplicateNow n' = Some out \<and> (\<forall>m \<in> set out. msg_ok (Suc L) m)"
proof -
  have "\<exists>e n'. Propose n cmd = Some (e, n') \<and> nid n' = nid n \<and> log_fits (Suc L) (raftLog n')"
  proof (cases "crashed n \<or> nstate n \<noteq> StateLeader")
    case True
    then show ?thesis using ok by (auto simp: Propose_def log_fits_def)
  next
    case False
    with Propose_leader [of n cmd] ok L show ?thesis by (fastforce simp: log_fits_def)
  qed
  then obtain e n' where p: "Propose n cmd = Some (e, n')" "nid n' = nid n" "log_fits (Suc L) (raftLog n')" by blast
  obtain out where b: "broadcastAppendEntries n' = Some out" using broadcast_ok [OF log_fitsD [OF p(3)]] by blast
  with p broadcast_msg_ok [OF p(3) b] show ?thesis
    by (cases "nstate n' \<noteq> StateLeader \<or> crashed n'") (auto simp: ReplicateNow_def)
qed

lemma cluster_Propose_ok:
  assumes ok: "cluster_ok L c" and L: "Suc L < 2 ^ 63"
  shows "\<exists>e c'. cluster_Propose c cmd = Some (e, c') \<and> cluster_ok (Suc L) c' \<and> map nid (cnodes c') = map nid (cnodes c)"
proof (cases "Leader c = 0")
  case True
  then show ?thesis using cluster_ok_mono [OF ok, of "Suc L"] by (simp add: cluster_Propose_def)
next
  case False
  obtain n where n: "nodeByID c (Leader c) = Some n"
    using Leader_node [OF False] nodeByID_None [of c "Leader c"] by fastforce
  then have fit: "log_fits L (raftLog n)" "nid n = Leader c"
    using nodeByID_Some [OF n] ok by (auto simp: cluster_ok_def)
  obtain e n' out where p: "Propose n cmd = Some (e, n')" "nid n' = Leader c" "log_fits (Suc L) (raftLog n')"
      "ReplicateNow n' = Some out" "\<forall>m \<in> set out. msg_ok (Suc L) m"
    using Propose_kept [OF fit(1) L, of cmd] fit(2) by auto
  let ?c1 = "c\<lparr>cnodes := set_node (Leader c) n' (cnodes c)\<rparr>"
  have c1: "cluster_ok (Suc L) ?c1"
    using cluster_ok_mono [OF ok, of "Suc L"] p(3) set_set_node [of "Leader c" n' "cnodes c"] by (auto simp: cluster_ok_def)
  show ?thesis
    using False n p(1,4) c1 cluster_ok_route [OF c1 p(5)] map_nid_set_node [OF p(2)]
    by (cases e) (simp_all add: cluster_Propose_def Let_def)
qed

text \<open>C19: The cluster never panics. Making one panics only for a negative number of nodes or one that is too large to
  allocate. From a cluster whose logs and queued messages are well formed, as a new
  cluster is, ticking all nodes, delivering all messages, in whatever order Go's map iteration
  visits the queues, and proposing a command complete, and leave such a cluster with the same nodes.\<close>

theorem cluster_never_panics:
  assumes "cluster_ok L c" and "Suc L < 2 ^ 63"
  shows "(case cluster_New k rngs of None \<Rightarrow> k < 0 \<or> max_elems < k | Some c0 \<Rightarrow> cluster_ok 1 c0) \<and>
    (\<exists>c'. TickAll c = Some c' \<and> cluster_ok L c' \<and> map nid (cnodes c') = map nid (cnodes c)) \<and>
    (\<exists>c'. DeliverAll order c = Some c' \<and> cluster_ok L c' \<and> map nid (cnodes c') = map nid (cnodes c)) \<and>
    (\<exists>e c'. cluster_Propose c cmd = Some (e, c') \<and> cluster_ok (Suc L) c' \<and> map nid (cnodes c') = map nid (cnodes c))"
  using fill_cluster_ok [of 0 "nat k" rngs] TickAll_ok [OF assms(1)] DeliverAll_ok [OF assms(1)] cluster_Propose_ok [OF assms]
  by (auto simp: cluster_New_def)

subsection \<open>Nodes that are their own peers\<close>

text \<open>
  \<open>cluster_New\<close> gives every node the list of all nodes as its peers, itself included, although a node
  counts itself on top of its peers. Two things follow: the threshold of an election, and what a
  leader's own messages do to it.
\<close>

lemma cluster_peers_props:
  assumes "k < 2 ^ 63"
  shows "distinct (cluster_peers k)" and "length (cluster_peers k) = k"
proof -
  have "inj_on (\<lambda>i. of_nat (i + 1) :: u64) {0..<k}"
  proof (rule inj_onI)
    fix x y
    assume "x \<in> {0..<k}" "y \<in> {0..<k}" "(of_nat (x + 1) :: u64) = of_nat (y + 1)"
    then have "unat (of_nat (x + 1) :: u64) = unat (of_nat (y + 1) :: u64)" "x + 1 < 2 ^ 64" "y + 1 < 2 ^ 64"
      using assms by auto
    then show "x = y" by (simp only: unat_of_nat64)
  qed
  then show "distinct (cluster_peers k)" by (simp add: cluster_peers_def distinct_map)
  show "length (cluster_peers k) = k" by (simp add: cluster_peers_def)
qed

text \<open>The election threshold of the simulated cluster. A candidate of a cluster of \<open>k\<close> nodes wins with the
  votes of \<open>(k + 1) div 2\<close> members, itself included, because its own vote is counted twice against a
  majority of \<open>k + 1\<close>. For odd \<open>k\<close> this is a majority; for even \<open>k\<close> it is half of the cluster.\<close>

theorem cluster_election_threshold:
  assumes "k < 2 ^ 63" and "peers n = cluster_peers k" and "nid n \<in> set (cluster_peers k)"
    and "votesGranted n (nid n) = Some True"
  shows "majority n \<le> countVotes n \<longleftrightarrow>
    (k + 1) div 2 \<le> card {v \<in> set (cluster_peers k). mget (votesGranted n) False v}"
proof -
  note p = cluster_peers_props [OF assms(1)]
  have "countVotes n = 1 + card {v \<in> set (cluster_peers k). mget (votesGranted n) False v}"
    using assms(2,4) card_filter [OF p(1)] by (simp add: countVotes_def mget_def [of _ _ "nid n"])
  moreover have "majority n = (k + 1) div 2 + 1" using assms(2) p(2) by (simp add: majority_def Let_def)
  ultimately show ?thesis by simp
qed

text \<open>A leader that handles its own append steps down. It becomes a follower of itself in the same
  term and forgets its vote, so that it can vote again in that term.\<close>

theorem own_append_deposes:
  assumes "\<not> crashed n" and "nstate n = StateLeader" and "mType m = MsgAppendEntries"
    and "mFrom m = nid n" and "mTerm m = currentTerm n" and "Step n m = Some (n', out)"
  shows "nstate n' = StateFollower \<and> leaderID n' = nid n \<and> currentTerm n' = currentTerm n \<and> votedFor n' = 0"
  using assms by (auto simp: Step_def handleAppendEntries_def Let_def split: if_splits option.splits prod.splits)

subsection \<open>Witnesses\<close>

definition cluster3 :: cluster where
  "cluster3 = fill_cluster 3 (\<lambda>_. \<lparr>draws = (\<lambda>_ _. 0), drawn = 0\<rparr>)"

definition pc3 :: partitioned where
  "pc3 = \<lparr>pcluster = cluster3, partitions = Map.empty\<rparr>"

lemma ids3: "nid ` set (cnodes cluster3) = {1, 2, 3}"
  by code_simp

theorem cluster_never_panics_witness:
  "\<exists>c'. TickAll cluster3 = Some c' \<and> cluster_ok 1 c'"
  using cluster_never_panics [OF fill_cluster_ok [of 0 3 "\<lambda>_. \<lparr>draws = (\<lambda>_ _. 0), drawn = 0\<rparr>"], of 1 "\<lambda>_. \<lparr>draws = (\<lambda>_ _. 0), drawn = 0\<rparr>" "[]" "[65]"]
  unfolding cluster3_def by auto

theorem Heal_other_isolation_witness:
  "IsBlocked (Partition 2 pc3) 2 1 \<and> \<not> IsBlocked (Heal 1 (Partition 2 (Partition 1 pc3))) 2 1"
  using Heal_other_isolation [of 1 pc3 2] ids3 by (simp add: pc3_def)

theorem DeliverAllFiltered_DeliverAll_witness:
  "DeliverAllFiltered [1, 2, 3] pc3 =
     map_option (\<lambda>c. \<lparr>pcluster = c, partitions = Map.empty\<rparr>) (DeliverAll [1, 2, 3] cluster3)"
  using DeliverAllFiltered_DeliverAll [of pc3] by (simp add: pc3_def)

definition cand2 :: node where
  "cand2 = (New 1 (cluster_peers 2) \<lparr>draws = (\<lambda>_ _. 0), drawn = 0\<rparr>)\<lparr>votesGranted := [1 \<mapsto> True]\<rparr>"

theorem cluster_election_threshold_witness: "majority cand2 \<le> countVotes cand2"
proof -
  have "nid cand2 \<in> set (cluster_peers 2)" "votesGranted cand2 (nid cand2) = Some True" "peers cand2 = cluster_peers 2"
    by (simp_all add: cand2_def cluster_peers_def numeral_2_eq_2)
  moreover have "{v \<in> set (cluster_peers 2). mget (votesGranted cand2) False v} = {1}"
    by (auto simp: cand2_def cluster_peers_def numeral_2_eq_2)
  ultimately show ?thesis using cluster_election_threshold [of 2 cand2] by simp
qed

definition lead3 :: node where
  "lead3 = (New 1 (cluster_peers 3) \<lparr>draws = (\<lambda>_ _. 0), drawn = 0\<rparr>)\<lparr>nstate := StateLeader, currentTerm := 1, votedFor := 1\<rparr>"

theorem own_append_deposes_witness:
  "\<exists>n' out. Step lead3 (NewAppendEntries 1 1 1 0 0 0 []) = Some (n', out) \<and> nstate n' = StateFollower \<and> votedFor n' = 0"
proof -
  have "\<not> Option.is_none (Step lead3 (NewAppendEntries 1 1 1 0 0 0 []))" by code_simp
  then obtain n' out where h: "Step lead3 (NewAppendEntries 1 1 1 0 0 0 []) = Some (n', out)"
    by (auto simp: Option.is_none_def)
  from own_append_deposes [OF _ _ _ _ _ h] h show ?thesis by (simp add: lead3_def msg_defs)
qed

end
