(* ===== verification/Cluster_Runs.thy ===== *)
theory Cluster_Runs
  imports Cluster
begin

text \<open>
  Runs of the simulated cluster that break Election Safety. \<open>Safety\<close> proves it for nodes that know the
  other members as their peers; the cluster of cluster.go makes every node its own peer, and then it
  fails, in two ways.
\<close>

text \<open>What a node reports when it is elected.\<close>

definition elected :: "u64 \<Rightarrow> u64 \<Rightarrow> string" where
  "elected i t = ''node '' @ fmt_d i @ '' became leader for term '' @ fmt_d t"

definition reports :: "cluster \<Rightarrow> u64 \<Rightarrow> string \<Rightarrow> bool" where
  "reports c i e \<longleftrightarrow> (case fst (DrainAllEvents c) i of None \<Rightarrow> False | Some es \<Rightarrow> e \<in> set es)"

text \<open>Rounds of a partitioned cluster, driven as an unpartitioned one is.\<close>

fun pdrive :: "nat \<Rightarrow> u64 list \<Rightarrow> partitioned \<Rightarrow> partitioned run" where
  "pdrive 0 order pc = Some pc"
| "pdrive (Suc k) order pc =
     do {
       c \<leftarrow> TickAll (pcluster pc);
       pc1 \<leftarrow> DeliverAllFiltered order (pc\<lparr>pcluster := c\<rparr>);
       pdrive k order pc1
     }"

text \<open>C23: Two leaders of one term. In a cluster of two whose nodes draw the same timeout, both become candidates
  of term 1 and refuse each other their votes; each takes the refusal for an occasion to count its own
  vote, which it counts twice, and is elected. One more round after the first election, both nodes have
  reported that they became leader of term 1.\<close>

theorem cluster_two_leaders:
  "\<exists>c0 c c'. cluster_New 2 (\<lambda>_. \<lparr>draws = (\<lambda>_ _. 0), drawn = 0\<rparr>) = Some c0 \<and>
     elect 200 (\<lambda>_. [1, 2]) c0 = Some c \<and> Leader c = 2 \<and>
     drive 1 (\<lambda>_. [1, 2]) c = Some c' \<and> reports c' 1 (elected 1 1) \<and> reports c' 2 (elected 2 1)"
proof -
  have "case Option.bind (cluster_New 2 (\<lambda>_. \<lparr>draws = (\<lambda>_ _. 0), drawn = 0\<rparr>)) (elect 200 (\<lambda>_. [1, 2])) of
      None \<Rightarrow> False
    | Some c \<Rightarrow> Leader c = 2 \<and> (case drive 1 (\<lambda>_. [1, 2]) c of None \<Rightarrow> False | Some c' \<Rightarrow>
        reports c' 1 (elected 1 1) \<and> reports c' 2 (elected 2 1))"
    by code_simp
  then show ?thesis by (auto simp: bind_eq_Some_conv split: option.splits)
qed

text \<open>C24: A second leader after a partition. In a cluster of three, member 3 is partitioned off while member 1 is
  elected in term 1 by member 2. The leader steps down at its own first heartbeat and forgets its vote.
  When the partition is healed, member 3 asks for votes in term 1 as well, gets that of member 1, and is
  the second leader of term 1.\<close>

theorem partition_second_leader:
  "\<exists>pc0 pc pc'. NewPartitioned 3 (\<lambda>i. \<lparr>draws = (\<lambda>_ _. 2 * int i), drawn = 0\<rparr>) = Some pc0 \<and>
     pdrive 13 [1, 2, 3] (Partition 3 pc0) = Some pc \<and>
     reports (pcluster pc) 1 (elected 1 1) \<and>
     pdrive 1 [1, 2, 3] (Heal 3 pc) = Some pc' \<and> Leader (pcluster pc') = 3 \<and> reports (pcluster pc') 3 (elected 3 1)"
proof -
  have "case Option.bind (NewPartitioned 3 (\<lambda>i. \<lparr>draws = (\<lambda>_ _. 2 * int i), drawn = 0\<rparr>)) (\<lambda>pc0. pdrive 13 [1, 2, 3] (Partition 3 pc0)) of
      None \<Rightarrow> False
    | Some pc \<Rightarrow> reports (pcluster pc) 1 (elected 1 1) \<and> (case pdrive 1 [1, 2, 3] (Heal 3 pc) of None \<Rightarrow> False | Some pc' \<Rightarrow>
        Leader (pcluster pc') = 3 \<and> reports (pcluster pc') 3 (elected 3 1))"
    by code_simp
  then show ?thesis by (auto simp: bind_eq_Some_conv split: option.splits)
qed

end
