(* ===== verification/Cluster_Leaders.thy ===== *)
theory Cluster_Leaders
  imports Cluster
begin

text \<open>
  What becomes of the leaders of the simulated cluster. Every node is among its own peers, so a leader sends its
  heartbeat to itself as well; and a node that handles an append of its term becomes a follower. This
  theory follows one leader through a round of main.go's loops, in every cluster that the operations of
  cluster.go can reach.
\<close>

subsection \<open>Reachable clusters\<close>

text \<open>\<open>cluster_reachable k rngs p c\<close>: the cluster \<open>c\<close> comes from a new cluster of \<open>k\<close> nodes by ticks, deliveries in
  any order and \<open>p\<close> client commands.\<close>

inductive cluster_reachable :: "int \<Rightarrow> (nat \<Rightarrow> rng) \<Rightarrow> nat \<Rightarrow> cluster \<Rightarrow> bool" for k rngs where
  start: "cluster_New k rngs = Some c \<Longrightarrow> cluster_reachable k rngs 0 c"
| tick: "cluster_reachable k rngs p c \<Longrightarrow> TickAll c = Some c' \<Longrightarrow> cluster_reachable k rngs p c'"
| deliver: "cluster_reachable k rngs p c \<Longrightarrow> DeliverAll order c = Some c' \<Longrightarrow> cluster_reachable k rngs p c'"
| propose: "cluster_reachable k rngs p c \<Longrightarrow> p + 2 < 2 ^ 63 \<Longrightarrow> cluster_Propose c cmd = Some (e, c') \<Longrightarrow>
    cluster_reachable k rngs (Suc p) c'"

lemma elect_reachable: "elect j order c = Some c' \<Longrightarrow> cluster_reachable k rngs p c \<Longrightarrow> cluster_reachable k rngs p c'"
proof (induction j arbitrary: c)
  case (Suc j)
  then obtain c1 c2 where "TickAll c = Some c1" "DeliverAll (order j) c1 = Some c2"
    "if Leader c2 > 0 then c' = c2 else elect j order c2 = Some c'"
    by (auto simp: bind_eq_Some_conv split: if_splits)
  with Suc cluster_reachable.tick cluster_reachable.deliver show ?case by (metis (full_types))
qed simp

subsection \<open>One node\<close>

text \<open>What no operation changes of a node that is its own peer.\<close>

definition own_peer :: "node \<Rightarrow> bool" where
  "own_peer n \<longleftrightarrow> nid n \<in> set (peers n) \<and> \<not> crashed n \<and> heartbeatInterval n = 2 \<and> 0 \<le> heartbeatElapsed n"

lemma commitAt_beat: "heartbeatInterval (commitAt n j) = heartbeatInterval n" "heartbeatElapsed (commitAt n j) = heartbeatElapsed n"
  by (simp_all add: commitAt_def Let_def split: prod.splits)

lemma advance_beat:
  "heartbeatInterval (advance_loop n j) = heartbeatInterval n \<and> heartbeatElapsed (advance_loop n j) = heartbeatElapsed n"
  by (induction n j rule: advance_loop.induct)
    (subst (1 2) advance_loop.simps, auto simp: commitAt_beat split: sum.splits)

lemma beat_frame [simp]:
  "heartbeatInterval (advanceCommit n) = heartbeatInterval n" "heartbeatElapsed (advanceCommit n) = heartbeatElapsed n"
  "heartbeatInterval (stepDown n t) = heartbeatInterval n" "heartbeatElapsed (stepDown n t) = heartbeatElapsed n"
  "heartbeatInterval (ae_accept n m) = heartbeatInterval n" "heartbeatElapsed (ae_accept n m) = heartbeatElapsed n"
  "heartbeatInterval (ae_commit n m) = heartbeatInterval n" "heartbeatElapsed (ae_commit n m) = heartbeatElapsed n"
  "heartbeatInterval (leaderState n) = heartbeatInterval n" "heartbeatElapsed (leaderState n) = 0"
  "heartbeatInterval (fst (startElection n)) = heartbeatInterval n" "heartbeatElapsed (fst (startElection n)) = heartbeatElapsed n"
  by (auto simp: advanceCommit_def advance_beat stepDown_def ae_accept_def ae_commit_def leaderState_def startElection_def
      Let_def split: prod.splits)

lemma Step_own_peer:
  assumes "own_peer n" and "Step n m = Some (n', out)"
  shows "own_peer n' \<and> nid n' = nid n"
proof -
  have rv: "own_peer (fst (handleRequestVote n m)) \<and> nid (fst (handleRequestVote n m)) = nid n"
    using assms(1) by (auto simp: own_peer_def handleRequestVote_def Let_def)
  have rvr: "own_peer x \<and> nid x = nid n" if "handleRequestVoteResp n m = Some (x, y)" for x y
    using that assms(1)
    by (auto simp: own_peer_def handleRequestVoteResp_def becomeLeader_def Let_def bind_eq_Some_conv split: if_splits)
  have ae: "own_peer x \<and> nid x = nid n" if "handleAppendEntries n m = Some (x, y)" for x y
    using that assms(1)
    by (auto simp: own_peer_def handleAppendEntries_def Let_def split: if_splits option.splits prod.splits)
  have aer: "own_peer (fst (handleAppendEntriesResp n m)) \<and> nid (fst (handleAppendEntriesResp n m)) = nid n"
    using assms(1) by (auto simp: own_peer_def handleAppendEntriesResp_def)
  have "\<not> crashed n" using assms(1) by (simp add: own_peer_def)
  with assms(2) consider "handleRequestVote n m = (n', out)" | "handleRequestVoteResp n m = Some (n', out)"
    | "handleAppendEntries n m = Some (n', out)" | "handleAppendEntriesResp n m = (n', out)" | "n' = n"
    by (cases "mType m") (auto simp: Step_def)
  then show ?thesis
  proof cases
    case 1 with rv show ?thesis by simp
  next
    case 2 then show ?thesis by (rule rvr)
  next
    case 3 then show ?thesis by (rule ae)
  next
    case 4 with aer show ?thesis by simp
  next
    case 5 with assms(1) show ?thesis by simp
  qed
qed

lemma Tick_own_peer:
  assumes "own_peer n" and "Tick n = Some (n', out)"
  shows "own_peer n' \<and> nid n' = nid n"
proof (cases "nstate n = StateLeader")
  case True
  then show ?thesis
    using assms Tick_leader [of n] by (auto simp: own_peer_def split: if_splits)
next
  case False
  let ?n = "n\<lparr>electionElapsed := electionElapsed n + 1\<rparr>"
  have "n' = ?n \<or> n' = fst (startElection ?n)"
    using assms False Tick_other [of n] by (auto simp: own_peer_def split: if_splits)
  with assms(1) show ?thesis by (auto simp: own_peer_def)
qed

lemma Propose_own_peer: "own_peer n \<Longrightarrow> Propose n cmd = Some (e, n') \<Longrightarrow> own_peer n' \<and> nid n' = nid n"
  by (auto simp: own_peer_def Propose_def Let_def split: if_splits option.splits prod.splits)

text \<open>Only a tick makes a candidate, so a message leaves a follower a follower, and a leader the leader of its
  term or a follower.\<close>

definition still_leads :: "node \<Rightarrow> node \<Rightarrow> bool" where
  "still_leads n n' \<longleftrightarrow> nstate n' = StateLeader \<and> currentTerm n' = currentTerm n \<and> heartbeatElapsed n' = heartbeatElapsed n"

lemma Step_follower:
  assumes "nstate n = StateFollower" and "Step n m = Some (n', out)"
  shows "nstate n' = StateFollower"
  using assms
  by (auto simp: Step_def handleRequestVote_def handleRequestVoteResp_def handleAppendEntries_def handleAppendEntriesResp_def
      Let_def split: if_splits MessageType.splits option.splits prod.splits)

lemma Step_leader:
  assumes "nstate n = StateLeader" and "Step n m = Some (n', out)"
  shows "nstate n' = StateFollower \<or> still_leads n n'"
  using assms
  by (auto simp: still_leads_def Step_def handleRequestVote_def handleRequestVoteResp_def handleAppendEntries_def
      handleAppendEntriesResp_def Let_def split: if_splits MessageType.splits option.splits prod.splits)

text \<open>An append of the leader to itself, of its term.\<close>

definition own_append :: "node \<Rightarrow> message \<Rightarrow> bool" where
  "own_append n m \<longleftrightarrow> mType m = MsgAppendEntries \<and> mFrom m = nid n \<and> mTo m = nid n \<and> mTerm m = currentTerm n"

lemma Step_own_append:
  assumes "own_peer n" and "nstate n = StateLeader" and "own_append n m" and "Step n m = Some (n', out)"
  shows "nstate n' = StateFollower"
  using assms
  by (auto simp: own_peer_def own_append_def Step_def handleAppendEntries_def Let_def split: if_splits option.splits prod.splits)

subsection \<open>The cluster\<close>

definition wired :: "cluster \<Rightarrow> bool" where
  "wired c \<longleftrightarrow> distinct (map nid (cnodes c)) \<and> (\<forall>n \<in> set (cnodes c). own_peer n)"

lemma wired_queues [simp]: "wired (c\<lparr>cqueues := q\<rparr>) = wired c" "wired (route ms c) = wired c"
  by (simp_all add: wired_def)

lemma nodeByID_queues [simp]: "nodeByID (c\<lparr>cqueues := q\<rparr>) i = nodeByID c i" "nodeByID (route ms c) i = nodeByID c i"
  by (simp_all add: nodeByID_def)

lemma find_set_node:
  "nid n' = j \<Longrightarrow> find (\<lambda>n. nid n = i) (set_node j n' ns) =
     (if i = j \<and> j \<in> nid ` set ns then Some n' else find (\<lambda>n. nid n = i) ns)"
  by (induction ns) auto

lemma nodeByID_set_node:
  assumes "nodeByID c j = Some n" and "nid n' = j"
  shows "nodeByID (c\<lparr>cnodes := set_node j n' (cnodes c)\<rparr>) i = (if i = j then Some n' else nodeByID c i)"
  using nodeByID_Some [OF assms(1)] find_set_node [OF assms(2), of i "cnodes c"] by (auto simp: nodeByID_def)

lemma wired_set_node:
  assumes "wired c" and "own_peer n'" and "nid n' = j"
  shows "wired (c\<lparr>cnodes := set_node j n' (cnodes c)\<rparr>)"
  using assms set_set_node [of j n' "cnodes c"] map_nid_set_node [OF assms(3), of "cnodes c"] by (auto simp: wired_def)

lemma wired_node: "wired c \<Longrightarrow> nodeByID c i = Some n \<Longrightarrow> own_peer n \<and> nid n = i"
  using nodeByID_Some by (auto simp: wired_def)

text \<open>Delivering to a node: the others stay as they are.\<close>

lemma deliver_wired:
  "deliver_msgs j ms c = Some c' \<Longrightarrow> wired c \<Longrightarrow>
     wired c' \<and> (\<forall>i. i \<noteq> j \<longrightarrow> nodeByID c' i = nodeByID c i) \<and>
     (\<forall>i. set (cqueue c i) \<subseteq> set (cqueue c' i))"
proof (induction ms arbitrary: c)
  case (Cons m ms)
  from Cons.prems(1) obtain n n' out where s: "nodeByID c j = Some n" "Step n m = Some (n', out)"
      "deliver_msgs j ms (route out (c\<lparr>cnodes := set_node j n' (cnodes c)\<rparr>)) = Some c'"
    by (auto simp: bind_eq_Some_conv)
  have n': "own_peer n'" "nid n' = j" using Step_own_peer [OF _ s(2)] wired_node [OF Cons.prems(2) s(1)] by auto
  note IH = Cons.IH [OF s(3)]
  have "set (cqueue c i) \<subseteq> set (cqueue (route out (c\<lparr>cnodes := set_node j n' (cnodes c)\<rparr>)) i)" for i
    unfolding cqueue_route by (simp add: cqueue_def)
  with IH wired_set_node [OF Cons.prems(2) n'] nodeByID_set_node [OF s(1) n'(2)] show ?case by fastforce
qed simp

lemma deliver_follower:
  "deliver_msgs i ms c = Some c' \<Longrightarrow> wired c \<Longrightarrow> nodeByID c i = Some n \<Longrightarrow> nstate n = StateFollower \<Longrightarrow>
     \<exists>n'. nodeByID c' i = Some n' \<and> nstate n' = StateFollower"
proof (induction ms arbitrary: c n)
  case (Cons m ms)
  from Cons.prems(1,3) obtain n1 out where s: "Step n m = Some (n1, out)"
      "deliver_msgs i ms (route out (c\<lparr>cnodes := set_node i n1 (cnodes c)\<rparr>)) = Some c'"
    by (auto simp: bind_eq_Some_conv)
  have n1: "own_peer n1" "nid n1 = i" using Step_own_peer [OF _ s(1)] wired_node [OF Cons.prems(2,3)] by auto
  show ?case
    using Cons.IH [OF s(2)] wired_set_node [OF Cons.prems(2) n1] nodeByID_set_node [OF Cons.prems(3) n1(2)]
      Step_follower [OF Cons.prems(4) s(1)] by simp
qed auto

lemma deliver_leader:
  "deliver_msgs i ms c = Some c' \<Longrightarrow> wired c \<Longrightarrow> nodeByID c i = Some n \<Longrightarrow> nstate n = StateLeader \<Longrightarrow>
     \<exists>n'. nodeByID c' i = Some n' \<and> (nstate n' = StateFollower \<or> still_leads n n' \<and> (\<forall>m \<in> set ms. \<not> own_append n m))"
proof (induction ms arbitrary: c n)
  case (Cons m ms)
  from Cons.prems(1,3) obtain n1 out where s: "Step n m = Some (n1, out)"
      "deliver_msgs i ms (route out (c\<lparr>cnodes := set_node i n1 (cnodes c)\<rparr>)) = Some c'"
    by (auto simp: bind_eq_Some_conv)
  let ?c1 = "route out (c\<lparr>cnodes := set_node i n1 (cnodes c)\<rparr>)"
  have n: "own_peer n" "nid n = i" using wired_node [OF Cons.prems(2,3)] by auto
  have n1: "own_peer n1" "nid n1 = i" using Step_own_peer [OF n(1) s(1)] n(2) by auto
  have c1: "wired ?c1" "nodeByID ?c1 i = Some n1"
    using wired_set_node [OF Cons.prems(2) n1] nodeByID_set_node [OF Cons.prems(3) n1(2)] by simp_all
  from Step_leader [OF Cons.prems(4) s(1)] show ?case
  proof
    assume "nstate n1 = StateFollower"
    from deliver_follower [OF s(2) c1 this] show ?thesis by blast
  next
    assume lead: "still_leads n n1"
    then have not_own: "\<not> own_append n m" using Step_own_append [OF n(1) Cons.prems(4) _ s(1)] by (auto simp: still_leads_def)
    have "own_append n1 = own_append n" using lead n(2) n1(2) by (auto simp: own_append_def still_leads_def fun_eq_iff)
    moreover obtain n' where "nodeByID c' i = Some n'"
        "nstate n' = StateFollower \<or> still_leads n1 n' \<and> (\<forall>m \<in> set ms. \<not> own_append n1 m)"
      using Cons.IH [OF s(2) c1] lead by (auto simp: still_leads_def)
    ultimately show ?thesis using lead not_own by (auto simp: still_leads_def)
  qed
qed (auto simp: still_leads_def)

lemma DeliverAll_wired: "DeliverAll order c = Some c' \<Longrightarrow> wired c \<Longrightarrow> wired c'"
proof (induction order arbitrary: c)
  case (Cons j order)
  then show ?case
    by (auto simp: Let_def bind_eq_Some_conv split: if_splits dest: deliver_wired)
qed simp

text \<open>One turn of the loop of \<open>DeliverAll\<close>.\<close>

lemma DeliverAll_turn:
  assumes "DeliverAll (j # order) c = Some c'" and "wired c"
  obtains d where "DeliverAll order d = Some c'" "wired d" "\<And>i. i \<noteq> j \<Longrightarrow> nodeByID d i = nodeByID c i"
    "\<And>i. i \<noteq> j \<Longrightarrow> set (cqueue c i) \<subseteq> set (cqueue d i)"
    "cqueue c j = [] \<and> d = c \<or> nodeByID c j = None \<and> nodeByID d j = None \<or>
     (\<exists>e. deliver_msgs j (cqueue c j) c = Some e \<and> nodeByID d j = nodeByID e j)"
proof -
  consider "cqueue c j = []" "DeliverAll order c = Some c'"
    | "nodeByID c j = None" "DeliverAll order (empty_queue j c) = Some c'"
    | e where "deliver_msgs j (cqueue c j) c = Some e" "DeliverAll order (empty_queue j e) = Some c'"
    using assms(1) by (auto simp: Let_def cqueue_def empty_queue_def bind_eq_Some_conv Option.is_none_def split: if_splits)
  then show ?thesis
  proof cases
    case 1
    with assms(2) that [of c] show ?thesis by simp
  next
    case 2
    with assms(2) that [of "empty_queue j c"] show ?thesis by (simp add: empty_queue_def cqueue_def)
  next
    case (3 e)
    with deliver_wired [OF 3(1) assms(2)] that [of "empty_queue j e"] show ?thesis
      by (simp add: empty_queue_def cqueue_def)
  qed
qed

lemma DeliverAll_follower:
  "DeliverAll order c = Some c' \<Longrightarrow> wired c \<Longrightarrow> nodeByID c i = Some n \<Longrightarrow> nstate n = StateFollower \<Longrightarrow>
     \<exists>n'. nodeByID c' i = Some n' \<and> nstate n' = StateFollower"
proof (induction order arbitrary: c n)
  case (Cons j order)
  from DeliverAll_turn [OF Cons.prems(1,2)] obtain d where d: "DeliverAll order d = Some c'" "wired d"
      "\<And>i. i \<noteq> j \<Longrightarrow> nodeByID d i = nodeByID c i"
      "cqueue c j = [] \<and> d = c \<or> nodeByID c j = None \<and> nodeByID d j = None \<or>
       (\<exists>e. deliver_msgs j (cqueue c j) c = Some e \<and> nodeByID d j = nodeByID e j)" by metis
  have "\<exists>n'. nodeByID d i = Some n' \<and> nstate n' = StateFollower"
    using d(3,4) deliver_follower [OF _ Cons.prems(2-4)] Cons.prems(3,4) by (cases "i = j") auto
  with Cons.IH [OF d(1,2)] show ?case by blast
qed simp

text \<open>A leader is deposed when its own append is in its queue and its queue is visited; otherwise it may go on.\<close>

lemma DeliverAll_leader:
  "DeliverAll order c = Some c' \<Longrightarrow> wired c \<Longrightarrow> nodeByID c i = Some n \<Longrightarrow> nstate n = StateLeader \<Longrightarrow>
     \<exists>n'. nodeByID c' i = Some n' \<and> (nstate n' = StateFollower \<or>
       still_leads n n' \<and> (i \<in> set order \<longrightarrow> (\<forall>m \<in> set (cqueue c i). \<not> own_append n m)))"
proof (induction order arbitrary: c n)
  case (Cons j order)
  from DeliverAll_turn [OF Cons.prems(1,2)] obtain d where d: "DeliverAll order d = Some c'" "wired d"
      "\<And>i. i \<noteq> j \<Longrightarrow> nodeByID d i = nodeByID c i" "\<And>i. i \<noteq> j \<Longrightarrow> set (cqueue c i) \<subseteq> set (cqueue d i)"
      "cqueue c j = [] \<and> d = c \<or> nodeByID c j = None \<and> nodeByID d j = None \<or>
       (\<exists>e. deliver_msgs j (cqueue c j) c = Some e \<and> nodeByID d j = nodeByID e j)" by metis
  show ?case
  proof (cases "i = j")
    case False
    with Cons.IH [OF d(1,2), of n] d(3,4) [of i] Cons.prems(3,4) show ?thesis by fastforce
  next
    case True
    with d(5) Cons.prems(3) have "\<exists>n1. nodeByID d i = Some n1 \<and> (nstate n1 = StateFollower \<or>
        still_leads n n1 \<and> (\<forall>m \<in> set (cqueue c i). \<not> own_append n m))"
      using deliver_leader [OF _ Cons.prems(2-4)] Cons.prems(4) by (auto simp: still_leads_def)
    then obtain n1 where n1: "nodeByID d i = Some n1" "nstate n1 = StateFollower \<or>
        still_leads n n1 \<and> (\<forall>m \<in> set (cqueue c i). \<not> own_append n m)" by blast
    show ?thesis
    proof (cases "nstate n1 = StateFollower")
      case True
      from DeliverAll_follower [OF d(1,2) n1(1) True] show ?thesis by blast
    next
      case False
      with n1 Cons.IH [OF d(1,2) n1(1)] show ?thesis by (fastforce simp: still_leads_def)
    qed
  qed
qed (auto simp: still_leads_def)

subsection \<open>Ticks\<close>

lemma nodeByID_nth:
  assumes "distinct (map nid (cnodes c))" and "x < length (cnodes c)" and "nid (cnodes c ! x) = i"
  shows "nodeByID c i = Some (cnodes c ! x)"
proof (cases "nodeByID c i")
  case None
  with assms(2,3) nth_mem [OF assms(2)] show ?thesis by (auto simp: nodeByID_None)
next
  case (Some n)
  then obtain y where "y < length (cnodes c)" "n = cnodes c ! y" "nid n = i"
    using nodeByID_Some [OF Some] by (metis in_set_conv_nth)
  with assms have "y = x" by (simp add: distinct_conv_nth) metis
  with Some \<open>n = cnodes c ! y\<close> show ?thesis by simp
qed

lemma tick_nodes_wired:
  "tick_nodes is c = Some c' \<Longrightarrow> wired c \<Longrightarrow> distinct is \<Longrightarrow> \<forall>x \<in> set is. x < length (cnodes c) \<Longrightarrow>
     wired c' \<and> map nid (cnodes c') = map nid (cnodes c) \<and> (\<forall>i. set (cqueue c i) \<subseteq> set (cqueue c' i)) \<and>
     (\<forall>x < length (cnodes c). if x \<in> set is
        then \<exists>n' out. Tick (cnodes c ! x) = Some (n', out) \<and> cnodes c' ! x = n' \<and> (\<forall>m \<in> set out. m \<in> set (cqueue c' (mTo m)))
        else cnodes c' ! x = cnodes c ! x)"
proof (induction "is" arbitrary: c)
  case (Cons y "is")
  have y: "y < length (cnodes c)" using Cons.prems by simp
  from Cons.prems(1) y obtain n' out where t: "Tick (cnodes c ! y) = Some (n', out)"
      "tick_nodes is (route out (c\<lparr>cnodes := (cnodes c)[y := n']\<rparr>)) = Some c'"
    by (auto simp: bind_eq_Some_conv go_index_def split: if_splits)
  let ?c1 = "route out (c\<lparr>cnodes := (cnodes c)[y := n']\<rparr>)"
  have "own_peer (cnodes c ! y)" using Cons.prems(2) y by (simp add: wired_def)
  then have n': "own_peer n'" "nid n' = nid (cnodes c ! y)" using Tick_own_peer [OF _ t(1)] by auto
  have ids: "map nid (cnodes ?c1) = map nid (cnodes c)" using n'(2) y by (simp add: map_update list_update_same_conv)
  have w: "wired ?c1"
    using Cons.prems(2) n'(1) ids by (auto simp: wired_def dest: set_update_subset_insert [THEN subsetD])
  have q: "cqueue ?c1 i = cqueue c i @ filter (\<lambda>m. mTo m = i) out" for i unfolding cqueue_route by (simp add: cqueue_def)
  have IH: "wired c'" "map nid (cnodes c') = map nid (cnodes ?c1)" "\<forall>i. set (cqueue ?c1 i) \<subseteq> set (cqueue c' i)"
      "\<forall>x < length (cnodes ?c1). if x \<in> set is
        then \<exists>n' out. Tick (cnodes ?c1 ! x) = Some (n', out) \<and> cnodes c' ! x = n' \<and> (\<forall>m \<in> set out. m \<in> set (cqueue c' (mTo m)))
        else cnodes c' ! x = cnodes ?c1 ! x"
    using Cons.IH [OF t(2) w] Cons.prems(3,4) by auto
  have "\<forall>m \<in> set out. m \<in> set (cqueue c' (mTo m))" using IH(3) q by fastforce
  moreover have "y \<notin> set is" using Cons.prems(3) by simp
  ultimately have "if x \<in> set (y # is)
      then \<exists>n' out. Tick (cnodes c ! x) = Some (n', out) \<and> cnodes c' ! x = n' \<and> (\<forall>m \<in> set out. m \<in> set (cqueue c' (mTo m)))
      else cnodes c' ! x = cnodes c ! x" if "x < length (cnodes c)" for x
    using IH(4) t(1) that y by (cases "x = y") auto
  with IH(1-3) ids q show ?case by (auto simp del: cnodes_route)
qed simp

lemma TickAll_node:
  assumes "TickAll c = Some c'" and "wired c" and "nodeByID c i = Some n"
  shows "\<exists>n' out. Tick n = Some (n', out) \<and> nodeByID c' i = Some n' \<and> (\<forall>m \<in> set out. m \<in> set (cqueue c' (mTo m)))"
proof -
  obtain x where x: "x < length (cnodes c)" "n = cnodes c ! x" "nid n = i"
    using nodeByID_Some [OF assms(3)] by (metis in_set_conv_nth)
  have t: "wired c'" "map nid (cnodes c') = map nid (cnodes c)"
      "\<exists>n' out. Tick n = Some (n', out) \<and> cnodes c' ! x = n' \<and> (\<forall>m \<in> set out. m \<in> set (cqueue c' (mTo m)))"
    using tick_nodes_wired [OF assms(1) [unfolded TickAll_def] assms(2)] x(1,2) by auto
  have "length (cnodes c') = length (cnodes c)" using arg_cong [OF t(2), of length] by simp
  moreover have "nid (cnodes c' ! x) = i" using arg_cong [OF t(2), of "\<lambda>xs. xs ! x"] x calculation by simp
  ultimately have "nodeByID c' i = Some (cnodes c' ! x)" using t(1) x(1) by (intro nodeByID_nth) (auto simp: wired_def)
  with t(3) show ?thesis by auto
qed

lemma TickAll_wired: "TickAll c = Some c' \<Longrightarrow> wired c \<Longrightarrow> wired c'"
  unfolding TickAll_def using tick_nodes_wired [of "[0..<length (cnodes c)]" c c'] by auto

lemma Propose_wired:
  assumes "cluster_Propose c cmd = Some (e, c')" and "wired c"
  shows "wired c'"
proof (cases "Leader c = 0")
  case True
  with assms show ?thesis by (simp add: cluster_Propose_def)
next
  case False
  with assms(1) obtain n er n' where p: "nodeByID c (Leader c) = Some n" "Propose n cmd = Some (er, n')"
      "c' = c\<lparr>cnodes := set_node (Leader c) n' (cnodes c)\<rparr> \<or> (\<exists>ms. c' = route ms (c\<lparr>cnodes := set_node (Leader c) n' (cnodes c)\<rparr>))"
    by (auto simp: cluster_Propose_def Let_def bind_eq_Some_conv split: if_splits)
  have "own_peer n'" "nid n' = Leader c" using Propose_own_peer [OF _ p(2)] wired_node [OF assms(2) p(1)] by auto
  from wired_set_node [OF assms(2) this] p(3) show ?thesis by auto
qed

lemma New_wired: "cluster_New k rngs = Some c \<Longrightarrow> wired c"
proof -
  assume "cluster_New k rngs = Some c"
  then have k: "nat k < 2 ^ 63" and c: "c = fill_cluster (nat k) rngs" by (auto simp: cluster_New_Some max_elems_def)
  have "map nid (cnodes c) = cluster_peers (nat k)" by (simp add: c fill_cluster_def cluster_peers_def)
  moreover have "own_peer n" if "n \<in> set (cnodes c)" for n
    using that by (auto simp: c fill_cluster_def own_peer_def New_def cluster_peers_def)
  ultimately show ?thesis using cluster_peers_props(1) [OF k] by (simp add: wired_def)
qed

lemma cluster_reachable_inv: "cluster_reachable k rngs p c \<Longrightarrow> wired c \<and> cluster_ok (Suc p) c"
proof (induction rule: cluster_reachable.induct)
  case (start c)
  then show ?case using New_wired cluster_New_ok by blast
next
  case (tick p c c')
  then show ?case using TickAll_wired [of c c'] TickAll_ok [of "Suc p" c] by auto
next
  case (deliver p c order c')
  then show ?case using DeliverAll_wired [of order c c'] DeliverAll_ok [of "Suc p" c order] by auto
next
  case (propose p c cmd e c')
  then show ?case using Propose_wired [of c cmd e c'] cluster_Propose_ok [of "Suc p" c cmd] by auto
qed

subsection \<open>Leaders depose themselves\<close>

text \<open>A leader whose heartbeat is due sends an append to every peer.\<close>

lemma broadcast_loop_all:
  "broadcast_loop n ps = Some out \<Longrightarrow> log_ok (raftLog n) \<Longrightarrow> p \<in> set ps \<Longrightarrow>
     \<exists>m \<in> set out. mType m = MsgAppendEntries \<and> mFrom m = nid n \<and> mTo m = p \<and> mTerm m = currentTerm n"
proof (induction ps arbitrary: out)
  case (Cons q ps)
  then obtain m ms where m: "appendEntriesFor n q = Some m" "broadcast_loop n ps = Some ms" "out = m # ms"
    by (auto simp: bind_eq_Some_conv)
  have "mType m = MsgAppendEntries \<and> mFrom m = nid n \<and> mTo m = q \<and> mTerm m = currentTerm n"
    using m(1) appendEntriesFor_msg [of n q] Cons.prems(2) by (auto simp: log_ok_def msg_defs)
  with Cons m show ?case by (cases "p = q") auto
qed simp

text \<open>C22: Leaders of the simulated cluster depose themselves. In every cluster that ticks, deliveries and client commands
  can reach, for all generators, take a round of main.go's loops, a tick of all nodes and a delivery that visits the
  leader's queue. If the leader's heartbeat is due, then after the tick its queue holds an append that it
  sent itself, which makes it a follower of itself when it handles it in its term, and after the delivery it is a
  follower. If the heartbeat is not due yet, the leader is a follower after the round or its heartbeat
  is due in the next. So no leader stays for more than two rounds.\<close>

theorem own_heartbeat_deposes:
  assumes "cluster_reachable k rngs p c" and "nodeByID c i = Some n" and "nstate n = StateLeader" and "i \<in> set order"
  shows "\<exists>c1 c2 n2. TickAll c = Some c1 \<and> DeliverAll order c1 = Some c2 \<and> nodeByID c2 i = Some n2 \<and>
    (if heartbeatInterval n \<le> heartbeatElapsed n + 1
     then nstate n2 = StateFollower \<and>
       (\<exists>m \<in> set (cqueue c1 i). mType m = MsgAppendEntries \<and> mFrom m = i \<and> mTerm m = currentTerm n \<and>
          (\<forall>n' out. Step n m = Some (n', out) \<longrightarrow> nstate n' = StateFollower \<and> leaderID n' = i \<and> currentTerm n' = currentTerm n))
     else nstate n2 = StateFollower \<or>
       nstate n2 = StateLeader \<and> currentTerm n2 = currentTerm n \<and> heartbeatInterval n2 \<le> heartbeatElapsed n2 + 1)"
proof -
  have inv: "wired c" "cluster_ok (Suc p) c" using cluster_reachable_inv [OF assms(1)] by auto
  obtain c1 where c1: "TickAll c = Some c1" "cluster_ok (Suc p) c1" using TickAll_ok [OF inv(2)] by blast
  obtain c2 where c2: "DeliverAll order c1 = Some c2" using DeliverAll_ok [OF c1(2)] by blast
  have w: "wired c1" "wired c2" using TickAll_wired [OF c1(1) inv(1)] DeliverAll_wired [OF c2] by auto
  have n: "own_peer n" "nid n = i" using wired_node [OF inv(1) assms(2)] by auto
  then have live: "\<not> crashed n" "heartbeatInterval n = 2" "0 \<le> heartbeatElapsed n" "i \<in> set (peers n)" by (auto simp: own_peer_def)
  have ok: "log_ok (raftLog n)" using nodeByID_Some [OF assms(2)] inv(2) by (auto simp: cluster_ok_def log_fits_def)
  obtain n1 out where t: "Tick n = Some (n1, out)" "nodeByID c1 i = Some n1" "\<forall>m \<in> set out. m \<in> set (cqueue c1 (mTo m))"
    using TickAll_node [OF c1(1) inv(1) assms(2)] by blast
  have n1: "nstate n1 = StateLeader" "currentTerm n1 = currentTerm n" "nid n1 = i"
    using t(1) assms(3) n(2) by (auto simp: Tick_leader [OF live(1) assms(3)] split: if_splits)
  obtain n2 where n2: "nodeByID c2 i = Some n2" "nstate n2 = StateFollower \<or>
      still_leads n1 n2 \<and> (\<forall>m \<in> set (cqueue c1 i). \<not> own_append n1 m)"
    using DeliverAll_leader [OF c2 w(1) t(2) n1(1)] assms(4) by auto
  show ?thesis
  proof (cases "heartbeatInterval n \<le> heartbeatElapsed n + 1")
    case True
    then have "broadcast_loop (n\<lparr>electionElapsed := electionElapsed n + 1, heartbeatElapsed := 0\<rparr>) (peers n) = Some out"
      using t(1) by (auto simp: Tick_leader [OF live(1) assms(3)] broadcastAppendEntries_def)
    from broadcast_loop_all [OF this _ live(4)] ok n(2) obtain m where m: "m \<in> set out" "mType m = MsgAppendEntries"
        "mFrom m = i" "mTo m = i" "mTerm m = currentTerm n" by auto
    then have q: "m \<in> set (cqueue c1 i)" using t(3) by force
    moreover have "own_append n1 m" using m n1 by (simp add: own_append_def)
    ultimately have f: "nstate n2 = StateFollower" using n2(2) by blast
    have "nstate n' = StateFollower \<and> leaderID n' = i \<and> currentTerm n' = currentTerm n" if "Step n m = Some (n', out')" for n' out'
      using own_append_deposes [OF live(1) assms(3) m(2) _ m(5) that] m(3) n(2) by simp
    with True q m f c1(1) c2 n2(1) show ?thesis by auto
  next
    case False
    then have "heartbeatElapsed n1 = heartbeatElapsed n + 1"
      using t(1) by (auto simp: Tick_leader [OF live(1) assms(3)])
    moreover have "heartbeatInterval n2 = 2" using wired_node [OF w(2) n2(1)] by (simp add: own_peer_def)
    ultimately have "nstate n2 = StateFollower \<or>
        nstate n2 = StateLeader \<and> currentTerm n2 = currentTerm n \<and> heartbeatInterval n2 \<le> heartbeatElapsed n2 + 1"
      using n2(2) n1(2) live(3) by (auto simp: still_leads_def)
    with False c1(1) c2 n2(1) show ?thesis by auto
  qed
qed

subsection \<open>Witness\<close>

lemma drive_reachable: "drive j order c = Some c' \<Longrightarrow> cluster_reachable k rngs p c \<Longrightarrow> cluster_reachable k rngs p c'"
proof (induction j arbitrary: c)
  case (Suc j)
  then obtain c1 c2 where "TickAll c = Some c1" "DeliverAll (order j) c1 = Some c2" "drive j order c2 = Some c'"
    by (auto simp: bind_eq_Some_conv)
  with Suc cluster_reachable.tick cluster_reachable.deliver show ?case by blast
qed simp

theorem own_heartbeat_deposes_witness:
  "\<exists>c n c1 c2 n2. cluster_reachable 3 (\<lambda>i. \<lparr>draws = (\<lambda>_ _. 3 * int i), drawn = 0\<rparr>) 0 c \<and>
     nodeByID c 1 = Some n \<and> nstate n = StateLeader \<and>
     TickAll c = Some c1 \<and> DeliverAll [1, 2, 3] c1 = Some c2 \<and> nodeByID c2 1 = Some n2 \<and> nstate n2 = StateFollower"
proof -
  let ?rngs = "\<lambda>i. \<lparr>draws = (\<lambda>_ _. 3 * int i), drawn = 0\<rparr>"
  have "case Option.bind (Option.bind (cluster_New 3 ?rngs) (elect 200 (\<lambda>_. [1, 2, 3]))) (drive 1 (\<lambda>_. [1, 2, 3])) of
      None \<Rightarrow> False
    | Some c \<Rightarrow> (case nodeByID c 1 of None \<Rightarrow> False | Some n \<Rightarrow> nstate n = StateLeader \<and> heartbeatInterval n \<le> heartbeatElapsed n + 1)"
    by code_simp
  then obtain c0 c' c n where c: "cluster_New 3 ?rngs = Some c0" "elect 200 (\<lambda>_. [1, 2, 3]) c0 = Some c'"
      "drive 1 (\<lambda>_. [1, 2, 3]) c' = Some c" "nodeByID c 1 = Some n" "nstate n = StateLeader"
      "heartbeatInterval n \<le> heartbeatElapsed n + 1"
    by (auto simp: bind_eq_Some_conv split: option.splits)
  have "cluster_reachable 3 ?rngs 0 c" using drive_reachable [OF c(3) elect_reachable [OF c(2) cluster_reachable.start [OF c(1)]]] .
  with own_heartbeat_deposes [OF this c(4,5), of "[1, 2, 3]"] c(4-6) show ?thesis by auto
qed

end
