(* ===== verification/Command_Line.thy ===== *)
theory Command_Line
  imports Cluster_Leaders Gostrings
begin

text \<open>
  src/main.go. The flags are arguments; the generators of the nodes and the orders of Go's map
  iterations are parameters: \<open>order k\<close> for the rounds of the election, \<open>order' i k\<close> for those after
  proposal \<open>i\<close>. A run ends with an exit code and what it wrote to standard output and standard error, or
  with a panic. The flags are 64-bit integers; the loop over the proposals counts up to their number, which
  is one below the largest integer at most, since otherwise the counter would wrap and the loop not end.
  The parsing of the flags is left to the flag package.
\<close>

subsection \<open>The program\<close>

record outcome =
  exit_code :: int
  stdout :: gostring
  stderr :: gostring

definition print_out :: "gostring \<Rightarrow> outcome \<Rightarrow> outcome" where
  "print_out s r = r\<lparr>stdout := stdout r @ s\<rparr>"

definition print_err :: "gostring \<Rightarrow> outcome \<Rightarrow> outcome" where
  "print_err s r = r\<lparr>stderr := stderr r @ s\<rparr>"

definition line :: "string \<Rightarrow> gostring" where
  "line s = bytes_of s @ [10]"

text \<open>The texts of the errors a proposal can return.\<close>

definition corrupt_text :: "corrupt \<Rightarrow> string" where
  "corrupt_text c = (case c of
      TruncatedCurrentTerm \<Rightarrow> ''truncated header (currentTerm)''
    | TruncatedVotedFor \<Rightarrow> ''truncated header (votedFor)''
    | TruncatedNumEntries \<Rightarrow> ''truncated header (numEntries)''
    | ImplausibleCount n \<Rightarrow> ''implausible entry count '' @ fmt_d n
    | TruncatedEntry i \<Rightarrow> ''truncated entry '' @ dec_nat i
    | NonContiguousIndex i got want \<Rightarrow> ''entry '' @ dec_nat i @ '' has non-contiguous index '' @ fmt_d got @
        '' (expected '' @ fmt_d want @ '')''
    | TruncatedCommand i \<Rightarrow> ''truncated command for entry '' @ dec_nat i)"

definition log_error_text :: "log_error \<Rightarrow> string" where
  "log_error_text e = (case e of
      ErrIndexOutOfRange \<Rightarrow> ''log: index out of range''
    | ErrCommitRegression \<Rightarrow> ''log: commit index cannot move backwards''
    | ErrCorruptState c \<Rightarrow> ''log: corrupt persisted state: '' @ corrupt_text c
    | NonContiguousAppend i p \<Rightarrow> ''log: non-contiguous append at index '' @ fmt_d i @ '' (previous '' @ fmt_d p @ '')''
    | TruncateDummy \<Rightarrow> ''log: cannot truncate the dummy index-0 entry''
    | TruncateGap i k \<Rightarrow> ''log: truncate at '' @ fmt_d i @ '' leaves a gap (last index '' @ fmt_d k @ '')''
    | CommitBeyondLast i k \<Rightarrow> ''log: cannot commit index '' @ fmt_d i @ '' (last index '' @ fmt_d k @ '')'')"

definition node_error_text :: "node_error \<Rightarrow> string" where
  "node_error_text e = (case e of
      ErrNotLeader \<Rightarrow> ''node: not leader''
    | ErrNodeCrashed \<Rightarrow> ''node: node is crashed''
    | LogError x \<Rightarrow> log_error_text x)"

text \<open>The loop that proposes the values, with \<open>k\<close> values to go, the next one \<open>i\<close>.\<close>

fun propose_loop ::
  "nat \<Rightarrow> nat \<Rightarrow> (nat \<Rightarrow> nat \<Rightarrow> u64 list) \<Rightarrow> cluster \<Rightarrow> outcome \<Rightarrow> (cluster \<times> outcome) run" where
  "propose_loop 0 i order' c r = Some (c, r)"
| "propose_loop (Suc k) i order' c r =
     do {
       (e, c1) \<leftarrow> cluster_Propose c (bytes_of (''set key'' @ dec_nat i @ '' value'' @ dec_nat i));
       case e of
         Some x \<Rightarrow> propose_loop k (Suc i) order' c1 (print_err (line (''propose failed: '' @ node_error_text x)) r)
       | None \<Rightarrow> do { c2 \<leftarrow> drive 50 (order' i) c1; propose_loop k (Suc i) order' c2 r }
     }"

definition entry_line :: "entry \<Rightarrow> gostring" where
  "entry_line e = bytes_of (''  [term='' @ fmt_d (eTerm e) @ '' idx='' @ fmt_d (eIndex e) @ ''] '') @ eCommand e @ [10]"

definition report :: "cluster \<Rightarrow> outcome \<Rightarrow> outcome run" where
  "report c r =
     do {
       let r1 = print_out ([10] @ line (''Committed log (node '' @ fmt_d (Leader c) @ ''):'')) r;
       es \<leftarrow> cluster_CommittedEntries c (Leader c);
       let r2 = print_out (concat (map entry_line es)) r1;
       Some (print_out ([10] @ line (''Total committed: '' @ dec_nat (length es) @ '' entries'')) r2)
     }"

definition main ::
  "int \<Rightarrow> int \<Rightarrow> (nat \<Rightarrow> rng) \<Rightarrow> (nat \<Rightarrow> u64 list) \<Rightarrow> (nat \<Rightarrow> nat \<Rightarrow> u64 list) \<Rightarrow> outcome run" where
  "main num_nodes proposals rngs order order' =
     (let r = \<lparr>exit_code = 0, stdout = [], stderr = []\<rparr> in
      if num_nodes < 1 then Some ((print_err (line ''error: need at least 1 node'') r)\<lparr>exit_code := 1\<rparr>)
      else do {
        c0 \<leftarrow> cluster_New num_nodes rngs;
        c \<leftarrow> elect 200 order c0;
        if Leader c = 0
        then Some ((print_err (line ''error: no leader elected after 200 ticks'') r)\<lparr>exit_code := 1\<rparr>)
        else do {
          let r1 = print_out (line (''Leader elected: node '' @ fmt_d (Leader c))) r;
          (c1, r2) \<leftarrow> propose_loop (nat proposals) 1 order' c r1;
          report c1 r2
        }
      })"

subsection \<open>The loops complete\<close>

lemma elect_ok: "cluster_ok L c \<Longrightarrow> \<exists>c'. elect k order c = Some c' \<and> cluster_ok L c'"
proof (induction k arbitrary: c)
  case (Suc k)
  obtain c1 where c1: "TickAll c = Some c1" "cluster_ok L c1" using TickAll_ok [OF Suc.prems] by blast
  obtain c2 where c2: "DeliverAll (order k) c1 = Some c2" "cluster_ok L c2" using DeliverAll_ok [OF c1(2)] by blast
  with c1 Suc.IH [OF c2(2)] show ?case by simp
qed simp

lemma drive_ok: "cluster_ok L c \<Longrightarrow> \<exists>c'. drive k order c = Some c' \<and> cluster_ok L c'"
proof (induction k arbitrary: c)
  case (Suc k)
  obtain c1 where c1: "TickAll c = Some c1" "cluster_ok L c1" using TickAll_ok [OF Suc.prems] by blast
  obtain c2 where c2: "DeliverAll (order k) c1 = Some c2" "cluster_ok L c2" using DeliverAll_ok [OF c1(2)] by blast
  with c1 Suc.IH [OF c2(2)] show ?case by simp
qed simp

text \<open>A proposal fails only for want of a leader.\<close>

lemma Propose_error:
  assumes "cluster_Propose c cmd = Some (e, c')" and "wired c" and "cluster_ok L c" and "Suc L < 2 ^ 63"
  shows "e = None \<or> e = Some ErrNotLeader"
proof (cases "Leader c = 0")
  case True
  with assms(1) show ?thesis by (auto simp: cluster_Propose_def)
next
  case False
  then obtain n where n: "nodeByID c (Leader c) = Some n"
    using Leader_node [OF False] nodeByID_None [of c "Leader c"] by fastforce
  have own: "\<not> crashed n" using wired_node [OF assms(2) n] by (simp add: own_peer_def)
  have "log_fits L (raftLog n)" using nodeByID_Some [OF n] assms(3) by (auto simp: cluster_ok_def)
  then have "log_ok (raftLog n)" "Suc (length (entries (raftLog n))) < 2 ^ 63" using assms(4) by (auto simp: log_fits_def)
  then have "\<exists>n'. Propose n cmd = Some (None, n')" if "nstate n = StateLeader"
    using Propose_leader [OF _ own that, of cmd] by blast
  moreover have "Propose n cmd = Some (Some ErrNotLeader, n)" if "nstate n \<noteq> StateLeader"
    using that own by (simp add: Propose_def)
  ultimately show ?thesis
    using assms(1) False n by (cases "nstate n = StateLeader") (auto simp: cluster_Propose_def Let_def bind_eq_Some_conv split: if_splits)
qed

lemma drive_wired: "drive k order c = Some c' \<Longrightarrow> wired c \<Longrightarrow> wired c'"
  by (induction k arbitrary: c) (auto simp: bind_eq_Some_conv dest: TickAll_wired DeliverAll_wired)

lemma elect_wired: "elect k order c = Some c' \<Longrightarrow> wired c \<Longrightarrow> wired c'"
  by (induction k arbitrary: c) (auto simp: bind_eq_Some_conv dest: TickAll_wired DeliverAll_wired split: if_splits)

definition refusal :: gostring where
  "refusal = line ''propose failed: node: not leader''"

lemma propose_loop_ok:
  "cluster_ok L c \<Longrightarrow> wired c \<Longrightarrow> L + k < 2 ^ 63 \<Longrightarrow>
     \<exists>c' j. propose_loop k i order' c r = Some (c', r\<lparr>stderr := stderr r @ concat (replicate j refusal)\<rparr>) \<and> j \<le> k \<and>
       cluster_ok (L + k) c'"
proof (induction k arbitrary: L i c r)
  case 0
  then show ?case by (intro exI [of _ c] exI [of _ 0]) simp
next
  case (Suc k)
  let ?cmd = "bytes_of (''set key'' @ dec_nat i @ '' value'' @ dec_nat i)"
  obtain e c1 where c1: "cluster_Propose c ?cmd = Some (e, c1)" "cluster_ok (Suc L) c1"
    using cluster_Propose_ok [OF Suc.prems(1), of ?cmd] Suc.prems(3) by auto
  have w1: "wired c1" using Propose_wired [OF c1(1) Suc.prems(2)] .
  obtain c2 where c2: "drive 50 (order' i) c1 = Some c2" "cluster_ok (Suc L) c2" using drive_ok [OF c1(2)] by blast
  have L: "Suc L + k < 2 ^ 63" using Suc.prems(3) by simp
  from Propose_error [OF c1(1) Suc.prems(2,1)] Suc.prems(3) consider "e = None" | "e = Some ErrNotLeader" by fastforce
  then show ?case
  proof cases
    case 1
    with Suc.IH [OF c2(2) drive_wired [OF c2(1) w1] L, of "Suc i" r] c1(1) c2(1) show ?thesis by (auto intro: le_SucI)
  next
    case 2
    let ?r = "print_err refusal r"
    obtain c' j where IH: "propose_loop k (Suc i) order' c1 ?r = Some (c', ?r\<lparr>stderr := stderr ?r @ concat (replicate j refusal)\<rparr>)"
        "j \<le> k" "cluster_ok (Suc L + k) c'"
      using Suc.IH [OF c1(2) w1 L, of "Suc i" ?r] by blast
    have "?r\<lparr>stderr := stderr ?r @ concat (replicate j refusal)\<rparr> = r\<lparr>stderr := stderr r @ concat (replicate (Suc j) refusal)\<rparr>"
      by (simp add: print_err_def)
    moreover have "line (''propose failed: '' @ node_error_text ErrNotLeader) = refusal" by (simp add: refusal_def node_error_text_def)
    ultimately have "propose_loop (Suc k) i order' c r = Some (c', r\<lparr>stderr := stderr r @ concat (replicate (Suc j) refusal)\<rparr>)"
      using c1(1) 2 IH(1) by simp
    with IH(2,3) show ?thesis by (intro exI [of _ c'] exI [of _ "Suc j"]) simp
  qed
qed

text \<open>What a member of the cluster has committed, read off its log; nothing where there is no such member.\<close>

definition committed_at :: "cluster \<Rightarrow> u64 \<Rightarrow> entry list" where
  "committed_at c i =
     (case nodeByID c i of
        None \<Rightarrow> []
      | Some n \<Rightarrow> drop 1 (take (Suc (unat (commitIndex (raftLog n)))) (entries (raftLog n))))"

lemma report_ok:
  assumes "cluster_ok L c"
  shows "report c r = Some (r\<lparr>stdout := stdout r @ [10] @ line (''Committed log (node '' @ fmt_d (Leader c) @ ''):'') @
    concat (map entry_line (committed_at c (Leader c))) @ [10] @
    line (''Total committed: '' @ dec_nat (length (committed_at c (Leader c))) @ '' entries'')\<rparr>)"
proof -
  have "cluster_CommittedEntries c (Leader c) = Some (committed_at c (Leader c))"
  proof (cases "nodeByID c (Leader c)")
    case (Some n)
    then have "log_ok (raftLog n)" using nodeByID_Some [OF Some] assms by (auto simp: cluster_ok_def log_fits_def)
    with Some show ?thesis by (simp add: cluster_CommittedEntries_def CommittedEntries_eq committed_at_def)
  qed (simp add: cluster_CommittedEntries_def committed_at_def)
  then show ?thesis by (simp add: report_def Let_def print_out_def)
qed

text \<open>The run of the program once a leader is elected.\<close>

lemma main_leads:
  assumes "1 \<le> num_nodes" and "cluster_New num_nodes rngs = Some c0" and "elect 200 order c0 = Some c"
    and "cluster_ok 1 c" and "wired c" and "Leader c \<noteq> 0" and "nat proposals + 1 < 2 ^ 63"
  shows "\<exists>c1 j. propose_loop (nat proposals) 1 order' c
      \<lparr>exit_code = 0, stdout = line (''Leader elected: node '' @ fmt_d (Leader c)), stderr = []\<rparr> =
      Some (c1, \<lparr>exit_code = 0, stdout = line (''Leader elected: node '' @ fmt_d (Leader c)),
        stderr = concat (replicate j refusal)\<rparr>) \<and> j \<le> nat proposals \<and>
    main num_nodes proposals rngs order order' = Some \<lparr>exit_code = 0,
      stdout = line (''Leader elected: node '' @ fmt_d (Leader c)) @ [10] @
        line (''Committed log (node '' @ fmt_d (Leader c1) @ ''):'') @
        concat (map entry_line (committed_at c1 (Leader c1))) @ [10] @
        line (''Total committed: '' @ dec_nat (length (committed_at c1 (Leader c1))) @ '' entries''),
      stderr = concat (replicate j refusal)\<rparr>"
proof -
  let ?r = "\<lparr>exit_code = 0, stdout = line (''Leader elected: node '' @ fmt_d (Leader c)), stderr = []\<rparr>"
  obtain c1 j where p: "propose_loop (nat proposals) 1 order' c ?r = Some (c1, ?r\<lparr>stderr := concat (replicate j refusal)\<rparr>)"
      "j \<le> nat proposals" "cluster_ok (1 + nat proposals) c1"
    using propose_loop_ok [OF assms(4,5), of "nat proposals" 1 order' ?r] assms(7) by auto
  have "main num_nodes proposals rngs order order' = report c1 (?r\<lparr>stderr := concat (replicate j refusal)\<rparr>)"
    using assms(1,2,3,6) p(1) by (simp add: main_def print_out_def Let_def)
  also note report_ok [OF p(3)]
  finally show ?thesis using p(1,2) unfolding outcome.update_convs outcome.select_convs by blast
qed

text \<open>C20: The program ends properly, for every generator and every order of delivery. It panics only for a number of nodes
  that is too large to allocate. It ends with exit code 1 and an error message when fewer than one node is
  asked for or no leader emerges within 200 ticks, and otherwise with exit code 0, having
  printed the leader and then, for the leader at the end, exactly the entries up to its commit index, in the
  order of its log, and their number; on standard error it wrote one line for each proposal that was
  refused for want of a leader and nothing else.\<close>

theorem main_completes:
  assumes "nat proposals + 1 < 2 ^ 63"
  shows "case main num_nodes proposals rngs order order' of
      None \<Rightarrow> max_elems < num_nodes
    | Some r \<Rightarrow> num_nodes \<le> max_elems \<and>
       (if num_nodes < 1 then r = \<lparr>exit_code = 1, stdout = [], stderr = line ''error: need at least 1 node''\<rparr>
        else \<exists>c0 c. cluster_New num_nodes rngs = Some c0 \<and> elect 200 order c0 = Some c \<and>
          (if Leader c = 0 then r = \<lparr>exit_code = 1, stdout = [], stderr = line ''error: no leader elected after 200 ticks''\<rparr>
           else \<exists>c1 j. propose_loop (nat proposals) 1 order' c
                \<lparr>exit_code = 0, stdout = line (''Leader elected: node '' @ fmt_d (Leader c)), stderr = []\<rparr> =
                Some (c1, \<lparr>exit_code = 0, stdout = line (''Leader elected: node '' @ fmt_d (Leader c)),
                  stderr = concat (replicate j (line ''propose failed: node: not leader''))\<rparr>) \<and>
              j \<le> nat proposals \<and>
              r = \<lparr>exit_code = 0,
                stdout = line (''Leader elected: node '' @ fmt_d (Leader c)) @ [10] @
                  line (''Committed log (node '' @ fmt_d (Leader c1) @ ''):'') @
                  concat (map entry_line (committed_at c1 (Leader c1))) @ [10] @
                  line (''Total committed: '' @ dec_nat (length (committed_at c1 (Leader c1))) @ '' entries''),
                stderr = concat (replicate j (line ''propose failed: node: not leader''))\<rparr>))"
proof -
  consider "num_nodes < 1" | "max_elems < num_nodes" | "1 \<le> num_nodes" "num_nodes \<le> max_elems" by linarith
  then show ?thesis
  proof cases
    case 1
    then show ?thesis by (simp add: main_def print_err_def max_elems_def)
  next
    case 2
    then have "\<not> num_nodes < 1" by (simp add: max_elems_def)
    with 2 show ?thesis by (simp add: main_def cluster_New_def)
  next
    case 3
    then obtain c0 where c0: "cluster_New num_nodes rngs = Some c0" by (auto simp: cluster_New_def)
    obtain c where c: "elect 200 order c0 = Some c" "cluster_ok 1 c"
      using elect_ok [OF cluster_New_ok [OF c0, of 0]] by auto
    have w: "wired c" using elect_wired [OF c(1) New_wired [OF c0]] .
    show ?thesis
    proof (cases "Leader c = 0")
      case True
      with 3 c0 c show ?thesis by (simp add: main_def print_err_def)
    next
      case lead: False
      obtain c1 j where p: "propose_loop (nat proposals) 1 order' c
            \<lparr>exit_code = 0, stdout = line (''Leader elected: node '' @ fmt_d (Leader c)), stderr = []\<rparr> =
            Some (c1, \<lparr>exit_code = 0, stdout = line (''Leader elected: node '' @ fmt_d (Leader c)),
              stderr = concat (replicate j refusal)\<rparr>)" "j \<le> nat proposals"
        and m: "main num_nodes proposals rngs order order' = Some \<lparr>exit_code = 0,
            stdout = line (''Leader elected: node '' @ fmt_d (Leader c)) @ [10] @
              line (''Committed log (node '' @ fmt_d (Leader c1) @ ''):'') @
              concat (map entry_line (committed_at c1 (Leader c1))) @ [10] @
              line (''Total committed: '' @ dec_nat (length (committed_at c1 (Leader c1))) @ '' entries''),
            stderr = concat (replicate j refusal)\<rparr>"
        using main_leads [OF 3(1) c0 c w lead assms] by blast
      have n: "\<not> num_nodes < 1" using 3(1) by simp
      show ?thesis
        unfolding m option.case if_not_P [OF n] refusal_def
        by (rule conjI [OF 3(2)], rule exI [of _ c0], rule exI [of _ c], unfold if_not_P [OF lead])
          (intro conjI c0 c(1) exI [of _ c1] exI [of _ j] p [unfolded refusal_def], rule refl)
    qed
  qed
qed

subsection \<open>A cluster of one\<close>

text \<open>
  A single node asks itself for a vote and grants it, but the reply lands in the queue that is being
  delivered and is cleared with it. So only vote requests are ever delivered, and it never leads.
\<close>

definition alone :: "cluster \<Rightarrow> bool" where
  "alone c \<longleftrightarrow> (\<exists>n. cnodes c = [n] \<and> nid n = 1 \<and> peers n = [1] \<and> nstate n \<noteq> StateLeader)"

definition own_request :: "message \<Rightarrow> bool" where
  "own_request m \<longleftrightarrow> mType m = MsgRequestVote \<and> mFrom m = 1"

definition lonely :: "cluster \<Rightarrow> bool" where
  "lonely c \<longleftrightarrow> alone c \<and> (\<forall>i. \<forall>m \<in> set (mget (cqueues c) [] i). own_request m)"

lemma Tick_lonely:
  assumes "nstate n \<noteq> StateLeader" and "nid n = 1"
  shows "\<exists>n' out. Tick n = Some (n', out) \<and> nid n' = nid n \<and> peers n' = peers n \<and> nstate n' \<noteq> StateLeader \<and>
    (\<forall>m \<in> set out. own_request m)"
proof (cases "crashed n")
  case True
  with assms show ?thesis by (simp add: Tick_crashed)
next
  case False
  let ?n = "n\<lparr>electionElapsed := electionElapsed n + 1\<rparr>"
  obtain n1 out where s: "startElection ?n = (n1, out)" by fastforce
  then have "nid n1 = nid n" "peers n1 = peers n" "nstate n1 = StateCandidate"
    by (auto simp: startElection_def Let_def split: prod.splits)
  moreover have "\<forall>m \<in> set out. own_request m"
    using snd_startElection [of _ ?n] assms(2) s by (auto simp: own_request_def)
  ultimately show ?thesis using assms(1) by (simp add: Tick_other [OF False assms(1)] s)
qed

lemma TickAll_lonely:
  assumes "lonely c"
  shows "\<exists>c'. TickAll c = Some c' \<and> lonely c'"
proof -
  obtain n where n: "cnodes c = [n]" "nid n = 1" "peers n = [1]" "nstate n \<noteq> StateLeader"
    using assms by (auto simp: lonely_def alone_def)
  obtain n' out where t: "Tick n = Some (n', out)" "nid n' = 1" "peers n' = [1]" "nstate n' \<noteq> StateLeader"
      "\<forall>m \<in> set out. own_request m"
    using Tick_lonely [OF n(4,2)] n by auto
  have "\<forall>m \<in> set (mget (cqueues (route out (c\<lparr>cnodes := [n']\<rparr>))) [] i). own_request m" for i
    using assms t(5) by (auto simp: mget_route lonely_def)
  with t n(1) show ?thesis by (simp add: TickAll_def lonely_def alone_def)
qed

text \<open>The node's own requests leave it a follower or candidate, and change no queue but its own.\<close>

lemma deliver_lonely:
  "alone c \<Longrightarrow> \<forall>m \<in> set ms. own_request m \<Longrightarrow>
     \<exists>c'. deliver_msgs 1 ms c = Some c' \<and> alone c' \<and> (\<forall>i. i \<noteq> 1 \<longrightarrow> mget (cqueues c') [] i = mget (cqueues c) [] i)"
proof (induction ms arbitrary: c)
  case (Cons m ms)
  obtain n where n: "cnodes c = [n]" "nid n = 1" "peers n = [1]" "nstate n \<noteq> StateLeader"
    using Cons.prems(1) by (auto simp: alone_def)
  have m: "mType m = MsgRequestVote" "mFrom m = 1" using Cons.prems(2) by (auto simp: own_request_def)
  obtain n' out where s: "Step n m = Some (n', out)" "nid n' = 1" "peers n' = [1]" "nstate n' \<noteq> StateLeader"
      "\<forall>r \<in> set out. mTo r = 1"
  proof (cases "crashed n")
    case True
    with n that [of n "[]"] show ?thesis by (simp add: Step_def)
  next
    case False
    with m n that [of "fst (handleRequestVote n m)" "snd (handleRequestVote n m)"] show ?thesis
      by (simp add: Step_def handleRequestVote_def Let_def msg_defs)
  qed
  let ?c1 = "route out (c\<lparr>cnodes := [n']\<rparr>)"
  have "alone ?c1" using s by (simp add: alone_def)
  moreover have "mget (cqueues ?c1) [] i = mget (cqueues c) [] i" if "i \<noteq> 1" for i
    using s(5) that by (auto simp: mget_route filter_empty_conv)
  ultimately show ?case using Cons.IH [of ?c1] Cons.prems(2) n s(1) by (simp add: nodeByID_def)
qed simp

lemma DeliverAll_lonely: "lonely c \<Longrightarrow> \<exists>c'. DeliverAll order c = Some c' \<and> lonely c'"
proof (induction order arbitrary: c)
  case (Cons i order)
  let ?ms = "mget (cqueues c) [] i"
  have cl: "lonely (c\<lparr>cqueues := (cqueues c)(i \<mapsto> [])\<rparr>)" using Cons.prems by (simp add: lonely_def alone_def)
  show ?case
  proof (cases "?ms = [] \<or> i \<noteq> 1")
    case True
    with Cons.prems have "?ms = [] \<or> Option.is_none (nodeByID c i)"
      by (auto simp: lonely_def alone_def nodeByID_def)
    with Cons.IH [OF Cons.prems] Cons.IH [OF cl] show ?thesis by (cases "?ms = []") (simp_all add: Let_def)
  next
    case False
    with Cons.prems have here: "\<not> Option.is_none (nodeByID c i)" by (auto simp: lonely_def alone_def nodeByID_def)
    obtain c1 where c1: "deliver_msgs i ?ms c = Some c1" "alone c1"
        "\<forall>j. j \<noteq> 1 \<longrightarrow> mget (cqueues c1) [] j = mget (cqueues c) [] j"
      using deliver_lonely [of c ?ms] Cons.prems False by (auto simp: lonely_def)
    have "lonely (c1\<lparr>cqueues := (cqueues c1)(i \<mapsto> [])\<rparr>)"
      using c1 False Cons.prems by (auto simp: lonely_def alone_def)
    from Cons.IH [OF this] c1(1) False here show ?thesis by (auto simp: Let_def)
  qed
qed simp

lemma lonely_Leader: "lonely c \<Longrightarrow> Leader c = 0"
  by (auto simp: lonely_def alone_def Leader_def)

lemma elect_lonely: "lonely c \<Longrightarrow> \<exists>c'. elect k order c = Some c' \<and> lonely c'"
proof (induction k arbitrary: c)
  case (Suc k)
  obtain c1 where c1: "TickAll c = Some c1" "lonely c1" using TickAll_lonely [OF Suc.prems] by blast
  obtain c2 where c2: "DeliverAll (order k) c1 = Some c2" "lonely c2" using DeliverAll_lonely [OF c1(2)] by blast
  with c1 Suc.IH [OF c2(2)] lonely_Leader [OF c2(2)] show ?case by simp
qed simp

lemma lonely_New: "lonely (fill_cluster 1 rngs)"
  by (auto simp: lonely_def alone_def fill_cluster_def cluster_peers_def mget_def)

text \<open>C21: A cluster of one node never elects a leader. Whatever its generator, the program run with one node
  ends with exit code 1 after the 200 rounds of its election loop.\<close>

theorem main_one_node:
  "main 1 proposals rngs order order' =
     Some \<lparr>exit_code = 1, stdout = [], stderr = line ''error: no leader elected after 200 ticks''\<rparr>"
proof -
  obtain c where "elect 200 order (fill_cluster 1 rngs) = Some c" "lonely c"
    using elect_lonely [OF lonely_New] by blast
  then show ?thesis by (simp add: main_def cluster_New_def max_elems_def print_err_def lonely_Leader)
qed

subsection \<open>Witness\<close>

lemma bind_run:
  assumes "case do { a \<leftarrow> x; b \<leftarrow> f a; (c, d) \<leftarrow> g b; Some (b, c, d) } of None \<Rightarrow> False | Some (b, c, d) \<Rightarrow> P b c d"
  obtains a b c d where "x = Some a" "f a = Some b" "g b = Some (c, d)" "P b c d"
  using assms by (auto simp: bind_eq_Some_conv split: option.splits)

text \<open>Three nodes and one proposal: the leader is gone at the end, so nothing is reported as committed.\<close>

theorem main_completes_witness:
  "main 3 1 (\<lambda>i. \<lparr>draws = (\<lambda>_ _. 3 * int i), drawn = 0\<rparr>) (\<lambda>_. [1, 2, 3]) (\<lambda>_ _. [1, 2, 3]) =
     Some \<lparr>exit_code = 0,
       stdout = line ''Leader elected: node 1'' @ [10] @ line ''Committed log (node 0):'' @ [10] @
         line ''Total committed: 0 entries'',
       stderr = []\<rparr>"
proof -
  let ?rngs = "\<lambda>i. \<lparr>draws = (\<lambda>_ _. 3 * int i), drawn = 0\<rparr>"
  let ?o = "\<lambda>_. [1, 2, 3]" and ?o' = "\<lambda>_ _. [1, 2, 3]"
  let ?r = "\<lparr>exit_code = 0, stdout = line (''Leader elected: node '' @ fmt_d (1 :: u64)), stderr = []\<rparr>"
  have "case do { c0 \<leftarrow> cluster_New 3 ?rngs; c \<leftarrow> elect 200 ?o c0; (c1, r1) \<leftarrow> propose_loop 1 1 ?o' c ?r; Some (c, c1, r1) } of
      None \<Rightarrow> False
    | Some (c, c1, r1) \<Rightarrow> Leader c = 1 \<and> Leader c1 = 0 \<and> committed_at c1 0 = [] \<and> stderr r1 = []"
    by code_simp
  then obtain c0 c c1 r1 where c: "cluster_New 3 ?rngs = Some c0" "elect 200 ?o c0 = Some c" "propose_loop 1 1 ?o' c ?r = Some (c1, r1)"
      "Leader c = 1 \<and> Leader c1 = 0 \<and> committed_at c1 0 = [] \<and> stderr r1 = []"
    by (rule bind_run)
  have refused: "line ''propose failed: node: not leader'' \<noteq> []" by (simp add: line_def)
  have one: "''Leader elected: node '' @ fmt_d (1 :: u64) = ''Leader elected: node 1''"
    and none: "''Committed log (node '' @ fmt_d (0 :: u64) @ ''):'' = ''Committed log (node 0):''"
      "''Total committed: '' @ dec_nat 0 @ '' entries'' = ''Total committed: 0 entries''"
    by code_simp+
  show ?thesis
    using main_completes [of 1 3 ?rngs ?o ?o'] c one none refused
    by (auto simp: max_elems_def simp del: propose_loop.simps split: option.splits)
qed

end
