(* ===== verification/Completeness.thy ===== *)
theory Completeness
  imports Protocol
begin

text \<open>
  Commitment in the abstract protocol. Followers acknowledge the last index of their whole log, which
  may lie beyond what the append they answer has compared, and then a committed entry can be lost
  (\<open>Safety\<close> has the run). Here acknowledgements are restricted to logs that the append covers, and
  the two remaining properties of Raft follow: a leader holds every entry committed in an earlier term,
  and committed entries never differ.

  The argument is by an inductive invariant, without a history. \<open>lost\<close> says that an entry of a leader
  can no longer be committed by it: a majority has left the term without acknowledging the entry. Every
  log that must hold an entry does hold it, or the entry is lost.
\<close>

subsection \<open>Acknowledged, lost and committed entries\<close>

text \<open>The log a follower has after an append reaches no further than the append, or ends in an entry of
  the leader that sent it.\<close>

definition covered :: "message \<Rightarrow> entry list \<Rightarrow> bool" where
  "covered m es \<longleftrightarrow>
     length es \<le> Suc (unat (mPrevLogIndex m) + length (mEntries m)) \<or> eTerm (last es) = mTerm m"

text \<open>Position \<open>k\<close> of the log of the leader of term \<open>t\<close> holds an entry of that term.\<close>

definition own :: "(u64 \<rightharpoonup> u64) \<Rightarrow> (u64 \<Rightarrow> entry list) \<Rightarrow> u64 \<Rightarrow> nat \<Rightarrow> bool" where
  "own ld h t k \<longleftrightarrow> ld t \<noteq> None \<and> k < length (h t) \<and> eTerm (h t ! k) = t"

definition has :: "(u64 \<Rightarrow> entry list) \<Rightarrow> entry list \<Rightarrow> u64 \<Rightarrow> nat \<Rightarrow> bool" where
  "has h es t k \<longleftrightarrow> take (Suc k) es = take (Suc k) (h t)"

definition acked :: "anet \<Rightarrow> (u64 \<rightharpoonup> u64) \<Rightarrow> (u64 \<Rightarrow> entry list) \<Rightarrow> u64 \<Rightarrow> u64 \<Rightarrow> nat \<Rightarrow> bool" where
  "acked s ld h t v k \<longleftrightarrow> ld t = Some v \<and> k < length (h t) \<or> acks s t v k"

definition lost :: "u64 set \<Rightarrow> anet \<Rightarrow> (u64 \<rightharpoonup> u64) \<Rightarrow> (u64 \<Rightarrow> entry list) \<Rightarrow> u64 \<Rightarrow> nat \<Rightarrow> bool" where
  "lost N s ld h t k \<longleftrightarrow>
     (\<exists>Q. is_majority N Q \<and> (\<forall>v \<in> Q. t < aterm (anodes s v) \<and> \<not> acked s ld h t v k))"

definition kept :: "u64 set \<Rightarrow> anet \<Rightarrow> (u64 \<rightharpoonup> u64) \<Rightarrow> (u64 \<Rightarrow> entry list) \<Rightarrow> entry list \<Rightarrow> u64 \<Rightarrow> nat \<Rightarrow> bool" where
  "kept N s ld h es t k \<longleftrightarrow> has h es t k \<or> lost N s ld h t k"

definition committed :: "u64 set \<Rightarrow> anet \<Rightarrow> (u64 \<rightharpoonup> u64) \<Rightarrow> (u64 \<Rightarrow> entry list) \<Rightarrow> u64 \<Rightarrow> nat \<Rightarrow> bool" where
  "committed N s ld h t k \<longleftrightarrow> own ld h t k \<and> (\<exists>Q. is_majority N Q \<and> (\<forall>v \<in> Q. acked s ld h t v k))"

lemma committed_not_lost: "committed N s ld h t k \<Longrightarrow> \<not> lost N s ld h t k"
  unfolding committed_def lost_def using majorities.quorums_meet by blast

lemma has_le: "has h es t k \<Longrightarrow> j \<le> k \<Longrightarrow> has h es t j"
  unfolding has_def by (metis Suc_le_mono min_def take_take)

lemma has_self [simp]: "has h (h t) t k"
  by (simp add: has_def)

lemma has_length: "has h es t k \<Longrightarrow> k < length (h t) \<Longrightarrow> k < length es"
  unfolding has_def by (metis Suc_le_eq length_take min.absorb2 min_def nat_le_linear not_less_eq_eq)

lemma has_nth: "has h es t k \<Longrightarrow> es ! k = h t ! k"
  unfolding has_def by (metis lessI nth_take)

text \<open>A log that extends one with the entry has it, and so does a long enough prefix.\<close>

lemma has_prefix:
  assumes "prefix a b" and "k < length a"
  shows "has h a t k \<longleftrightarrow> has h b t k"
proof -
  from assms(1) obtain r where "b = a @ r" by (auto simp: prefix_def)
  with assms(2) show ?thesis by (simp add: has_def)
qed

subsection \<open>The order of terms in a log\<close>

definition terms_ok :: "u64 set \<Rightarrow> anet \<Rightarrow> (u64 \<Rightarrow> entry list) \<Rightarrow> bool" where
  "terms_ok N s h \<longleftrightarrow>
     (\<forall>t. \<forall>e \<in> set (h t). eTerm e \<le> t) \<and>
     (\<forall>i \<in> N. \<forall>e \<in> set (aents (anodes s i)). eTerm e \<le> aterm (anodes s i))"

lemma path_last:
  assumes "path h es"
  shows "prefix es (h (eTerm (last es)))"
proof -
  have "es \<noteq> []" using assms by (auto simp: path_def indexed_def)
  then have "take (length es) es = take (length es) (h (eTerm (last es)))"
    using assms unfolding path_def by (metis Suc_pred' last_conv_nth length_greater_0_conv lessI)
  then show ?thesis by (metis take_all_iff order_refl take_is_prefix)
qed

lemma path_mono:
  assumes "path h es" and "\<forall>t. \<forall>e \<in> set (h t). eTerm e \<le> t" and "j \<le> k" and "k < length es"
  shows "eTerm (es ! j) \<le> eTerm (es ! k)"
proof -
  have "take (Suc k) es = take (Suc k) (h (eTerm (es ! k)))" using assms(1,4) by (simp add: path_def)
  then have "es ! j = h (eTerm (es ! k)) ! j" "j < length (h (eTerm (es ! k)))"
    using assms(3,4) by (metis le_imp_less_Suc nth_take,
      metis (no_types) Suc_le_eq le_imp_less_Suc length_take less_le_trans min.cobounded1 min.absorb2)
  with assms(2) show ?thesis by simp
qed

subsection \<open>The invariant\<close>

definition grants_ok :: "anet \<Rightarrow> bool" where
  "grants_ok s \<longleftrightarrow>
     (\<forall>m \<in> asent s. is_grant m \<longrightarrow>
        mTerm m \<le> aterm (anodes s (mFrom m)) \<and> mTerm m \<le> aterm (anodes s (mTo m)))"

definition requests_ok :: "anet \<Rightarrow> bool" where
  "requests_ok s \<longleftrightarrow>
     (\<forall>m \<in> asent s. is_req m \<longrightarrow>
        mTerm m \<le> aterm (anodes s (mFrom m)) \<and>
        (arole (anodes s (mFrom m)) = StateCandidate \<and> aterm (anodes s (mFrom m)) = mTerm m \<longrightarrow>
           log_end_is (aents (anodes s (mFrom m))) m))"

definition acks_ok :: "anet \<Rightarrow> (u64 \<rightharpoonup> u64) \<Rightarrow> (u64 \<Rightarrow> entry list) \<Rightarrow> bool" where
  "acks_ok s ld h \<longleftrightarrow>
     (\<forall>m \<in> asent s. is_ack m \<longrightarrow>
        mTerm m \<le> aterm (anodes s (mFrom m)) \<and> ld (mTerm m) \<noteq> None \<and> unat (mMatchIndex m) < length (h (mTerm m)))"

text \<open>A peer keeps what it acknowledged; a candidate has what its voters acknowledged; a leader has what
  was acknowledged in earlier terms.\<close>

definition logs_keep :: "u64 set \<Rightarrow> anet \<Rightarrow> (u64 \<rightharpoonup> u64) \<Rightarrow> (u64 \<Rightarrow> entry list) \<Rightarrow> bool" where
  "logs_keep N s ld h \<longleftrightarrow>
     (\<forall>v \<in> N. \<forall>t k. own ld h t k \<longrightarrow> acked s ld h t v k \<longrightarrow> kept N s ld h (aents (anodes s v)) t k)"

definition votes_keep :: "u64 set \<Rightarrow> anet \<Rightarrow> (u64 \<rightharpoonup> u64) \<Rightarrow> (u64 \<Rightarrow> entry list) \<Rightarrow> bool" where
  "votes_keep N s ld h \<longleftrightarrow>
     (\<forall>m \<in> asent s. is_grant m \<longrightarrow> arole (anodes s (mTo m)) = StateCandidate \<longrightarrow>
        aterm (anodes s (mTo m)) = mTerm m \<longrightarrow>
        (\<forall>t k. t < mTerm m \<longrightarrow> own ld h t k \<longrightarrow> acked s ld h t (mFrom m) k \<longrightarrow>
           kept N s ld h (aents (anodes s (mTo m))) t k))"

definition leaders_keep :: "u64 set \<Rightarrow> anet \<Rightarrow> (u64 \<rightharpoonup> u64) \<Rightarrow> (u64 \<Rightarrow> entry list) \<Rightarrow> bool" where
  "leaders_keep N s ld h \<longleftrightarrow>
     (\<forall>T t k. ld T \<noteq> None \<longrightarrow> t < T \<longrightarrow> own ld h t k \<longrightarrow> kept N s ld h (h T) t k)"

text \<open>A commit index \<open>c\<close> known in term \<open>t0\<close> lies within a committed entry's log.\<close>

definition commit_ok :: "u64 set \<Rightarrow> anet \<Rightarrow> (u64 \<rightharpoonup> u64) \<Rightarrow> (u64 \<Rightarrow> entry list) \<Rightarrow> u64 \<Rightarrow> entry list \<Rightarrow> nat \<Rightarrow> bool" where
  "commit_ok N s ld h t0 es c \<longleftrightarrow>
     c = 0 \<or> (\<exists>t k. committed N s ld h t k \<and> c \<le> k \<and> t \<le> t0 \<and> has h es t c)"

definition commits_ok :: "u64 set \<Rightarrow> anet \<Rightarrow> (u64 \<rightharpoonup> u64) \<Rightarrow> (u64 \<Rightarrow> entry list) \<Rightarrow> bool" where
  "commits_ok N s ld h \<longleftrightarrow>
     (\<forall>i \<in> N. commit_ok N s ld h (aterm (anodes s i)) (aents (anodes s i)) (acommit (anodes s i))) \<and>
     (\<forall>m \<in> asent s. is_ae m \<longrightarrow> commit_ok N s ld h (mTerm m) (h (mTerm m)) (unat (mLeaderCommit m)))"

definition keep_inv :: "u64 set \<Rightarrow> anet \<Rightarrow> (u64 \<rightharpoonup> u64) \<Rightarrow> (u64 \<Rightarrow> entry list) \<Rightarrow> bool" where
  "keep_inv N s ld h \<longleftrightarrow>
     terms_ok N s h \<and> grants_ok s \<and> requests_ok s \<and> acks_ok s ld h \<and>
     logs_keep N s ld h \<and> votes_keep N s ld h \<and> leaders_keep N s ld h \<and> commits_ok N s ld h"

definition complete_inv :: "u64 set \<Rightarrow> anet \<Rightarrow> (u64 \<rightharpoonup> u64) \<Rightarrow> (u64 \<Rightarrow> entry list) \<Rightarrow> bool" where
  "complete_inv N s ld h \<longleftrightarrow> safe_inv N s ld h \<and> keep_inv N s ld h"

lemma complete_invD:
  assumes "complete_inv N s ld h"
  shows "safe_inv N s ld h" and "terms_ok N s h" and "grants_ok s" and "requests_ok s" and "acks_ok s ld h"
    and "logs_keep N s ld h" and "votes_keep N s ld h" and "leaders_keep N s ld h" and "commits_ok N s ld h"
  using assms by (auto simp: complete_inv_def keep_inv_def)

subsection \<open>Later states\<close>

text \<open>What is committed stays committed while messages are only added, and leaders and their logs only
  grow.\<close>

definition grown :: "anet \<Rightarrow> (u64 \<rightharpoonup> u64) \<Rightarrow> (u64 \<Rightarrow> entry list) \<Rightarrow>
    anet \<Rightarrow> (u64 \<rightharpoonup> u64) \<Rightarrow> (u64 \<Rightarrow> entry list) \<Rightarrow> bool" where
  "grown s ld h s' ld' h' \<longleftrightarrow> asent s \<subseteq> asent s' \<and> extends ld h ld' h'"

lemma grownD:
  assumes "grown s ld h s' ld' h'"
  shows "asent s \<subseteq> asent s'" and "ld t = Some l \<Longrightarrow> ld' t = Some l" and "ld t \<noteq> None \<Longrightarrow> prefix (h t) (h' t)"
  using assms by (auto simp: grown_def extends_def map_le_def dom_def)

lemma own_grown:
  assumes "grown s ld h s' ld' h'" and "own ld h t k"
  shows "own ld' h' t k"
proof -
  obtain l where "ld t = Some l" using assms(2) by (auto simp: own_def)
  moreover from this grownD(3) [OF assms(1)] obtain r where "h' t = h t @ r" by (auto simp: prefix_def)
  ultimately show ?thesis using assms(2) grownD(2) [OF assms(1)] by (simp add: own_def nth_append)
qed

lemma has_grown:
  assumes "grown s ld h s' ld' h'" and "ld t \<noteq> None" and "k < length (h t)"
  shows "has h' es t k \<longleftrightarrow> has h es t k"
proof -
  obtain r where "h' t = h t @ r" using grownD(3) [OF assms(1,2)] by (auto simp: prefix_def)
  with assms(3) show ?thesis by (simp add: has_def)
qed

lemma acked_grown:
  assumes "grown s ld h s' ld' h'" and "acked s ld h t v k"
  shows "acked s' ld' h' t v k"
  using assms(2) grownD [OF assms(1)] unfolding acked_def acks_def
  by (metis (no_types, lifting) less_le_trans option.distinct(1) prefix_length_le subsetD)

lemma committed_grown:
  assumes "grown s ld h s' ld' h'" and "committed N s ld h t k"
  shows "committed N s' ld' h' t k"
  using assms(2) own_grown [OF assms(1)] acked_grown [OF assms(1)] unfolding committed_def by meson

lemma commit_ok_grown:
  assumes "grown s ld h s' ld' h'" and "commit_ok N s ld h t0 es c"
  shows "commit_ok N s' ld' h' t0 es c"
proof (cases "c = 0")
  case False
  then obtain t k where tk: "committed N s ld h t k" "c \<le> k" "t \<le> t0" "has h es t c"
    using assms(2) by (auto simp: commit_ok_def)
  then have "has h' es t c" using has_grown [OF assms(1)] by (auto simp: committed_def own_def)
  with tk committed_grown [OF assms(1)] show ?thesis unfolding commit_ok_def by blast
qed (simp add: commit_ok_def)

text \<open>What moves on in every step: also the terms, and nobody acknowledges in a term it has left. So what
  is lost stays lost.\<close>

definition later :: "u64 set \<Rightarrow> anet \<Rightarrow> (u64 \<rightharpoonup> u64) \<Rightarrow> (u64 \<Rightarrow> entry list) \<Rightarrow>
    anet \<Rightarrow> (u64 \<rightharpoonup> u64) \<Rightarrow> (u64 \<Rightarrow> entry list) \<Rightarrow> bool" where
  "later N s ld h s' ld' h' \<longleftrightarrow>
     grown s ld h s' ld' h' \<and> (\<forall>v \<in> N. aterm (anodes s v) \<le> aterm (anodes s' v)) \<and>
     (\<forall>t v k. own ld h t k \<longrightarrow> acked s' ld' h' t v k \<longrightarrow> acked s ld h t v k \<or> aterm (anodes s v) \<le> t)"

lemma laterD:
  assumes "later N s ld h s' ld' h'"
  shows "grown s ld h s' ld' h'" and "v \<in> N \<Longrightarrow> aterm (anodes s v) \<le> aterm (anodes s' v)"
    and "own ld h t k \<Longrightarrow> acked s' ld' h' t v k \<Longrightarrow> acked s ld h t v k \<or> aterm (anodes s v) \<le> t"
  using assms by (auto simp: later_def)

lemma lost_later:
  assumes l: "later N s ld h s' ld' h'" and o: "own ld h t k" and "lost N s ld h t k"
  shows "lost N s' ld' h' t k"
proof -
  obtain Q where Q: "is_majority N Q" "\<forall>v \<in> Q. t < aterm (anodes s v) \<and> \<not> acked s ld h t v k"
    using assms(3) by (auto simp: lost_def)
  have "t < aterm (anodes s' v) \<and> \<not> acked s' ld' h' t v k" if "v \<in> Q" for v
  proof -
    have "v \<in> N" using Q(1) that by (auto simp: is_majority_def)
    have v: "t < aterm (anodes s v)" "\<not> acked s ld h t v k" using Q(2) that by blast+
    have "t < aterm (anodes s' v)" using v(1) laterD(2) [OF l \<open>v \<in> N\<close>] by (rule less_le_trans)
    moreover have "\<not> acked s' ld' h' t v k" using laterD(3) [OF l o, of v] v by (auto simp: not_le)
    ultimately show ?thesis ..
  qed
  with Q(1) show ?thesis unfolding lost_def by blast
qed

lemma kept_later:
  assumes "later N s ld h s' ld' h'" and "own ld h t k" and "kept N s ld h es t k"
  shows "kept N s' ld' h' es t k"
  using assms lost_later [OF assms(1,2)] has_grown [OF laterD(1) [OF assms(1)]] by (auto simp: kept_def own_def)

subsection \<open>Elections\<close>

text \<open>The log of a candidate that passes a voter's check has the acknowledged entries of the voter's log.\<close>

lemma up_to_date_kept:
  assumes inv: "safe_inv N s ld h" and terms: "\<forall>t. \<forall>e \<in> set (h t). eTerm e \<le> t" and lk: "leaders_keep N s ld h"
    and a: "path h a" and b: "path h b" and o: "own ld h t k" and "has h a t k"
    and m: "log_end_is b m" "up_to_date a m"
  shows "kept N s ld h b t k"
proof -
  have len: "0 < length a" "0 < length b" "length a < 2 ^ 63" "length b < 2 ^ 63"
    using indexedD(2,4) [OF path_indexed [OF a]] indexedD(2,4) [OF path_indexed [OF b]] by auto
  have k: "k < length a" "eTerm (a ! k) = t"
    using has_length [OF assms(7)] has_nth [OF assms(7)] o by (auto simp: own_def)
  then have t: "t \<le> eTerm (last a)"
    using path_mono [OF a terms, of k "length a - 1"] len(1) by (simp add: last_conv_nth)
  have pb: "prefix b (h (eTerm (last b)))" using b by (rule path_last)
  have "length a - 1 \<le> length b - 1 \<Longrightarrow> length a \<le> length b" using len(2) by linarith
  then have ord: "eTerm (last a) < eTerm (last b) \<or> eTerm (last a) = eTerm (last b) \<and> length a \<le> length b"
    using m len unat_of_nat_len [of "length a - 1"] unat_of_nat_len [of "length b - 1"]
    by (auto simp: log_end_is_def up_to_date_def word_le_nat_alt)
  show ?thesis
  proof (cases "eTerm (last b) = t")
    case True
    with ord t have "length a \<le> length b" by auto
    with k have "k < length b" by simp
    then show ?thesis using has_prefix [OF pb, of k h t] True by (simp add: kept_def)
  next
    case False
    with ord t have tb: "t < eTerm (last b)" by auto
    have "ld (eTerm (last b)) \<noteq> None"
    proof
      assume "ld (eTerm (last b)) = None"
      then have "h (eTerm (last b)) = [dummy]" by (rule log_invD(3) [OF safe_invD(2) [OF inv]])
      moreover have "eTerm (last b) \<noteq> 0" using tb by auto
      ultimately show False using path_fresh [OF b, of "eTerm (last b)" "length b - 1"] len(2) by (simp add: last_conv_nth)
    qed
    with lk tb o have "kept N s ld h (h (eTerm (last b))) t k" by (simp add: leaders_keep_def)
    moreover have "kept N s ld h b t k" if hb: "has h (h (eTerm (last b))) t k"
    proof -
      let ?hb = "h (eTerm (last b))"
      have kb: "k < length ?hb" "eTerm (?hb ! k) = t" using has_length [OF hb] has_nth [OF hb] o by (auto simp: own_def)
      have "eTerm (?hb ! (length b - 1)) = eTerm (last b)"
        using pb len(2) by (auto simp: prefix_def last_conv_nth nth_append)
      then have "\<not> length b - 1 \<le> k"
        using path_mono [OF log_invD(1) [OF safe_invD(2) [OF inv]] terms, of "length b - 1" k "eTerm (last b)"] kb tb by auto
      then have "k < length b" by simp
      with hb show ?thesis using has_prefix [OF pb, of k h t] by (simp add: kept_def)
    qed
    ultimately show ?thesis by (auto simp: kept_def)
  qed
qed

subsection \<open>Steps that add no leader and no entry of a leader\<close>

definition keeping :: "u64 set \<Rightarrow> anet \<Rightarrow> (u64 \<rightharpoonup> u64) \<Rightarrow> (u64 \<Rightarrow> entry list) \<Rightarrow> u64 \<Rightarrow> anode \<Rightarrow> message set \<Rightarrow> bool" where
  "keeping N s ld h i n' M \<longleftrightarrow>
     i \<in> N \<and> aterm (anodes s i) \<le> aterm n' \<and> (\<forall>e \<in> set (aents n'). eTerm e \<le> aterm n') \<and>
     (\<forall>t k. own ld h t k \<longrightarrow> t \<le> aterm (anodes s i) \<longrightarrow> has h (aents (anodes s i)) t k \<longrightarrow> kept N s ld h (aents n') t k) \<and>
     (arole n' = StateCandidate \<longrightarrow> aterm (anodes s i) < aterm n' \<or>
        arole (anodes s i) = StateCandidate \<and> aterm n' = aterm (anodes s i) \<and> aents n' = aents (anodes s i)) \<and>
     commit_ok N s ld h (aterm n') (aents n') (acommit n') \<and> (\<forall>m \<in> M. routed N i m)"

definition sending :: "anet \<Rightarrow> (u64 \<rightharpoonup> u64) \<Rightarrow> (u64 \<Rightarrow> entry list) \<Rightarrow> u64 \<Rightarrow> anode \<Rightarrow> message \<Rightarrow> bool" where
  "sending s ld h i n' m \<longleftrightarrow>
     (is_req m \<longrightarrow> mTerm m = aterm n' \<and> log_end_is (aents n') m) \<and>
     (is_grant m \<longrightarrow> mTerm m = aterm n' \<and> aents n' = aents (anodes s i) \<and>
        (\<exists>q \<in> asent s. is_req q \<and> mFrom q = mTo m \<and> mTerm q = mTerm m \<and> up_to_date (aents (anodes s i)) q)) \<and>
     (is_ack m \<longrightarrow> mTerm m = aterm n' \<and> ld (mTerm m) \<noteq> None \<and> unat (mMatchIndex m) < length (h (mTerm m)) \<and>
        has h (aents n') (mTerm m) (unat (mMatchIndex m))) \<and>
     (is_ae m \<longrightarrow> arole (anodes s i) = StateLeader \<and> mTerm m = aterm (anodes s i) \<and>
        unat (mLeaderCommit m) = acommit (anodes s i))"

lemma sendingD:
  assumes "\<forall>m \<in> M. sending s ld h i n' m" and "m \<in> M"
  shows "is_req m \<Longrightarrow> mTerm m = aterm n' \<and> log_end_is (aents n') m"
    and "is_grant m \<Longrightarrow> mTerm m = aterm n' \<and> aents n' = aents (anodes s i)"
    and "is_grant m \<Longrightarrow> \<exists>q \<in> asent s. is_req q \<and> mFrom q = mTo m \<and> mTerm q = mTerm m \<and> up_to_date (aents (anodes s i)) q"
    and "is_ack m \<Longrightarrow> mTerm m = aterm n' \<and> ld (mTerm m) \<noteq> None \<and> unat (mMatchIndex m) < length (h (mTerm m)) \<and>
        has h (aents n') (mTerm m) (unat (mMatchIndex m))"
    and "is_ae m \<Longrightarrow> arole (anodes s i) = StateLeader \<and> mTerm m = aterm (anodes s i) \<and>
        unat (mLeaderCommit m) = acommit (anodes s i)"
  using assms unfolding sending_def by blast+

lemma keepingD:
  assumes "keeping N s ld h i n' M"
  shows "i \<in> N" and "aterm (anodes s i) \<le> aterm n'" and "m \<in> M \<Longrightarrow> mFrom m = i \<and> mTo m \<in> N \<and> mTo m \<noteq> i"
    and "arole n' = StateCandidate \<Longrightarrow> aterm (anodes s i) < aterm n' \<or>
        arole (anodes s i) = StateCandidate \<and> aterm n' = aterm (anodes s i) \<and> aents n' = aents (anodes s i)"
    and "own ld h t k \<Longrightarrow> t \<le> aterm (anodes s i) \<Longrightarrow> has h (aents (anodes s i)) t k \<Longrightarrow> kept N s ld h (aents n') t k"
    and "commit_ok N s ld h (aterm n') (aents n') (acommit n')"
    and "e \<in> set (aents n') \<Longrightarrow> eTerm e \<le> aterm n'"
  using assms unfolding keeping_def routed_def by blast+

lemma acked_step:
  assumes "keeping N s ld h i n' M" and "\<forall>m \<in> M. sending s ld h i n' m"
    and "acked (aupd s i n' M) ld h t v k"
  shows "acked s ld h t v k \<or> v = i \<and> t = aterm n' \<and> has h (aents n') t k"
proof (cases "acked s ld h t v k")
  case False
  with assms(3) obtain m where m: "m \<in> M" "is_ack m" "mTerm m = t" "mFrom m = v" "k \<le> unat (mMatchIndex m)"
    by (auto simp: acked_def acks_def)
  have "mFrom m = i" using keepingD(3) [OF assms(1) m(1)] by blast
  moreover have "mTerm m = aterm n'" "has h (aents n') (mTerm m) (unat (mMatchIndex m))"
    using sendingD(4) [OF assms(2) m(1)] m(2) by blast+
  ultimately show ?thesis using m has_le by blast
qed simp

lemma later_step:
  assumes "keeping N s ld h i n' M" and "\<forall>m \<in> M. sending s ld h i n' m"
  shows "later N s ld h (aupd s i n' M) ld h"
  unfolding later_def grown_def using keepingD(2) [OF assms(1)] acked_step [OF assms] by auto

lemma keep_logs:
  assumes inv: "complete_inv N s ld h" and k: "keeping N s ld h i n' M" and M: "\<forall>m \<in> M. sending s ld h i n' m"
  shows "logs_keep N (aupd s i n' M) ld h"
  unfolding logs_keep_def
proof (intro ballI allI impI)
  fix v t k'
  let ?s' = "aupd s i n' M"
  note l = later_step [OF k M]
  assume v: "v \<in> N" and o: "own ld h t k'" and ack: "acked ?s' ld h t v k'"
  have old: "kept N s ld h (aents (anodes s v)) t k'" if "acked s ld h t v k'"
    using complete_invD(6) [OF inv] v o that unfolding logs_keep_def by blast
  show "kept N ?s' ld h (aents (anodes ?s' v)) t k'"
  proof (cases "v = i")
    case False
    with acked_step [OF k M ack] old kept_later [OF l o] show ?thesis by auto
  next
    case True
    have "kept N s ld h (aents n') t k'"
    proof (cases "acked s ld h t i k'")
      case False
      with acked_step [OF k M ack] True show ?thesis by (auto simp: kept_def)
    next
      case a: True
      then have "t \<le> aterm (anodes s i)"
      proof (cases "ld t = Some i")
        case True
        from election_inv_quorum [OF safe_invD(1) [OF complete_invD(1) [OF inv]] this]
        show ?thesis by (metis locked_def order.order_iff_strict)
      next
        case False
        with a complete_invD(5) [OF inv] show ?thesis by (auto simp: acked_def acks_def acks_ok_def)
      qed
      with old a True keepingD(5) [OF k o] show ?thesis unfolding kept_def by blast
    qed
    with kept_later [OF l o] True show ?thesis by simp
  qed
qed

lemma keep_votes:
  assumes inv: "complete_inv N s ld h" and k: "keeping N s ld h i n' M" and M: "\<forall>m \<in> M. sending s ld h i n' m"
  shows "votes_keep N (aupd s i n' M) ld h"
  unfolding votes_keep_def
proof (intro ballI allI impI)
  fix m t k'
  let ?s' = "aupd s i n' M"
  note l = later_step [OF k M] and safe = complete_invD(1) [OF inv]
  assume m: "m \<in> asent ?s'" "is_grant m" "arole (anodes ?s' (mTo m)) = StateCandidate"
      "aterm (anodes ?s' (mTo m)) = mTerm m"
    and t: "t < mTerm m" and o: "own ld h t k'" and ack: "acked ?s' ld h t (mFrom m) k'"
  have ft: "mTo m \<noteq> mFrom m"
    using m(1) safe_invD(4) [OF safe] keepingD(3) [OF k, of m] by (auto simp: addressed_def routed_def)
  have "kept N s ld h (aents (anodes ?s' (mTo m))) t k'"
  proof (cases "m \<in> asent s")
    case True
    then have tm: "mTerm m \<le> aterm (anodes s (mFrom m))" "mTerm m \<le> aterm (anodes s (mTo m))"
      using complete_invD(3) [OF inv] m(2) by (auto simp: grants_ok_def)
    have "aterm (anodes s (mFrom m)) \<le> aterm n'" if "mFrom m = i" using keepingD(2) [OF k] that by simp
    with acked_step [OF k M ack] t tm(1) have a: "acked s ld h t (mFrom m) k'" by force
    have same: "anodes ?s' (mTo m) = anodes s (mTo m) \<or> mTo m = i \<and> arole (anodes s i) = StateCandidate \<and>
        aterm (anodes s i) = mTerm m \<and> aents n' = aents (anodes s i)"
      using m(3,4) tm(2) keepingD(4) [OF k] by (auto split: if_splits)
    with complete_invD(7) [OF inv] True m(2-4) t o a show ?thesis unfolding votes_keep_def by fastforce
  next
    case False
    with m(1) have "m \<in> M" by simp
    then have from_i: "mFrom m = i" "mTo m \<in> N" and tm: "mTerm m = aterm n'"
      using keepingD(3) [OF k, of m] sendingD(2) [OF M, of m] m(2) by blast+
    obtain q where q: "q \<in> asent s" "is_req q" "mFrom q = mTo m" "mTerm q = mTerm m"
        "up_to_date (aents (anodes s i)) q"
      using sendingD(3) [OF M \<open>m \<in> M\<close>] m(2) by blast
    have c: "anodes ?s' (mTo m) = anodes s (mTo m)" using ft from_i by simp
    then have "log_end_is (aents (anodes s (mTo m))) q"
      using complete_invD(4) [OF inv] q m(3,4) unfolding requests_ok_def by auto
    moreover have "i \<in> N" using keepingD(1) [OF k] .
    moreover have "acked s ld h t i k'" using acked_step [OF k M ack] from_i t tm by auto
    then have "kept N s ld h (aents (anodes s i)) t k'"
      using complete_invD(6) [OF inv] o \<open>i \<in> N\<close> unfolding logs_keep_def by blast
    moreover have "\<forall>t. \<forall>e \<in> set (h t). eTerm e \<le> t" using complete_invD(2) [OF inv] by (simp add: terms_ok_def)
    ultimately show ?thesis
      using up_to_date_kept [OF safe _ complete_invD(8) [OF inv] safe_invD(8) [OF safe] safe_invD(8) [OF safe] o _ _ q(5)] from_i
      unfolding c kept_def by blast
  qed
  then show "kept N ?s' ld h (aents (anodes ?s' (mTo m))) t k'" by (rule kept_later [OF l o])
qed

lemma keep_commits:
  assumes inv: "complete_inv N s ld h" and k: "keeping N s ld h i n' M" and M: "\<forall>m \<in> M. sending s ld h i n' m"
  shows "commits_ok N (aupd s i n' M) ld h"
proof -
  let ?s' = "aupd s i n' M"
  note l = later_step [OF k M]
  have old: "\<forall>j \<in> N. commit_ok N s ld h (aterm (anodes s j)) (aents (anodes s j)) (acommit (anodes s j))"
      "\<forall>m \<in> asent s. is_ae m \<longrightarrow> commit_ok N s ld h (mTerm m) (h (mTerm m)) (unat (mLeaderCommit m))"
    using complete_invD(9) [OF inv] by (auto simp: commits_ok_def)
  have i: "i \<in> N" "commit_ok N s ld h (aterm n') (aents n') (acommit n')" using keepingD(1,6) [OF k] .
  have "commit_ok N s ld h (mTerm m) (h (mTerm m)) (unat (mLeaderCommit m))" if "m \<in> M" "is_ae m" for m
  proof -
    have m: "arole (anodes s i) = StateLeader" "mTerm m = aterm (anodes s i)" "unat (mLeaderCommit m) = acommit (anodes s i)"
      using sendingD(5) [OF M that(1)] that(2) by blast+
    moreover have "aents (anodes s i) = h (aterm (anodes s i))"
      using log_invD(4) [OF safe_invD(2) [OF complete_invD(1) [OF inv]] i(1) m(1)] .
    ultimately show ?thesis using old(1) i(1) by force
  qed
  with old(2) have "\<forall>m \<in> asent ?s'. is_ae m \<longrightarrow> commit_ok N s ld h (mTerm m) (h (mTerm m)) (unat (mLeaderCommit m))"
    by auto
  with old(1) i commit_ok_grown [OF laterD(1) [OF l]] show ?thesis unfolding commits_ok_def by auto
qed

lemma keep_messages:
  assumes inv: "complete_inv N s ld h" and k: "keeping N s ld h i n' M" and M: "\<forall>m \<in> M. sending s ld h i n' m"
  shows "grants_ok (aupd s i n' M)" and "requests_ok (aupd s i n' M)" and "acks_ok (aupd s i n' M) ld h"
proof -
  let ?s' = "aupd s i n' M"
  have up: "aterm (anodes s v) \<le> aterm (anodes ?s' v)" for v using keepingD(2) [OF k] by simp
  have grants: "mTerm m \<le> aterm (anodes ?s' (mFrom m)) \<and> mTerm m \<le> aterm (anodes ?s' (mTo m))"
    if m: "m \<in> asent ?s'" "is_grant m" for m
  proof (cases "m \<in> M")
    case True
    with sendingD(3) [OF M True] m(2) obtain q where "q \<in> asent s" "is_req q" "mFrom q = mTo m" "mTerm q = mTerm m" by blast
    then have "mTerm m \<le> aterm (anodes s (mTo m))" using complete_invD(4) [OF inv] by (auto simp: requests_ok_def)
    then have "mTerm m \<le> aterm (anodes ?s' (mTo m))" using up by (rule order_trans)
    with True sendingD(2) [OF M True] keepingD(3) [OF k True] m(2) show ?thesis by simp
  next
    case False
    with m complete_invD(3) [OF inv] have "mTerm m \<le> aterm (anodes s (mFrom m))" "mTerm m \<le> aterm (anodes s (mTo m))"
      by (auto simp: grants_ok_def)
    with up show ?thesis by (meson order_trans)
  qed
  then show "grants_ok ?s'" unfolding grants_ok_def by blast
  have "mTerm m \<le> aterm (anodes ?s' (mFrom m)) \<and>
      (arole (anodes ?s' (mFrom m)) = StateCandidate \<and> aterm (anodes ?s' (mFrom m)) = mTerm m \<longrightarrow>
        log_end_is (aents (anodes ?s' (mFrom m))) m)" if m: "m \<in> asent ?s'" "is_req m" for m
  proof (cases "m \<in> M")
    case True
    with sendingD(1) [OF M True] keepingD(3) [OF k True] m(2) show ?thesis by simp
  next
    case False
    with m complete_invD(4) [OF inv] have old: "mTerm m \<le> aterm (anodes s (mFrom m))"
        "arole (anodes s (mFrom m)) = StateCandidate \<and> aterm (anodes s (mFrom m)) = mTerm m \<longrightarrow>
          log_end_is (aents (anodes s (mFrom m))) m"
      by (auto simp: requests_ok_def)
    from old(1) up have "mTerm m \<le> aterm (anodes ?s' (mFrom m))" by (rule order_trans)
    with old keepingD(4) [OF k] show ?thesis by (cases "mFrom m = i") auto
  qed
  then show "requests_ok ?s'" unfolding requests_ok_def by blast
  have "mTerm m \<le> aterm (anodes ?s' (mFrom m)) \<and> ld (mTerm m) \<noteq> None \<and> unat (mMatchIndex m) < length (h (mTerm m))"
    if m: "m \<in> asent ?s'" "is_ack m" for m
  proof (cases "m \<in> M")
    case True
    with sendingD(4) [OF M True] keepingD(3) [OF k True] m(2) show ?thesis by auto
  next
    case False
    with m complete_invD(5) [OF inv] have "mTerm m \<le> aterm (anodes s (mFrom m))" "ld (mTerm m) \<noteq> None"
        "unat (mMatchIndex m) < length (h (mTerm m))"
      by (auto simp: acks_ok_def)
    with up show ?thesis by (meson order_trans)
  qed
  then show "acks_ok ?s' ld h" unfolding acks_ok_def by blast
qed

lemma keep_step:
  assumes inv: "complete_inv N s ld h" and k: "keeping N s ld h i n' M" and M: "\<forall>m \<in> M. sending s ld h i n' m"
    and safe: "safe_inv N (aupd s i n' M) ld h"
  shows "complete_inv N (aupd s i n' M) ld h"
  unfolding complete_inv_def keep_inv_def
proof (intro conjI)
  let ?s' = "aupd s i n' M"
  note l = later_step [OF k M]
  show "safe_inv N ?s' ld h" by (rule safe)
  show "terms_ok N ?s' h" using complete_invD(2) [OF inv] keepingD(7) [OF k] by (auto simp: terms_ok_def)
  show "leaders_keep N ?s' ld h"
    using complete_invD(8) [OF inv] kept_later [OF l] unfolding leaders_keep_def by blast
qed (use keep_messages [OF inv k M] keep_logs [OF inv k M] keep_votes [OF inv k M] keep_commits [OF inv k M] in auto)

lemma commit_ok_le:
  assumes "commit_ok N s ld h t0 es c" and "t0 \<le> t1" and "c' \<le> c"
  shows "commit_ok N s ld h t1 es c'"
  using assms has_le unfolding commit_ok_def by (metis le_zero_eq order_trans)

lemma node_commit_ok:
  "complete_inv N s ld h \<Longrightarrow> i \<in> N \<Longrightarrow>
     commit_ok N s ld h (aterm (anodes s i)) (aents (anodes s i)) (acommit (anodes s i))"
  using complete_invD(9) by (auto simp: commits_ok_def)

text \<open>A step that leaves the log alone and does not raise the commit index.\<close>

lemma keeping_log:
  assumes inv: "complete_inv N s ld h" and "i \<in> N" and up: "aterm (anodes s i) \<le> aterm n'"
    and "aents n' = aents (anodes s i)" and "acommit n' \<le> acommit (anodes s i)"
    and "arole n' = StateCandidate \<Longrightarrow> aterm (anodes s i) < aterm n' \<or>
        arole (anodes s i) = StateCandidate \<and> aterm n' = aterm (anodes s i)"
    and "\<forall>m \<in> M. routed N i m"
  shows "keeping N s ld h i n' M"
proof -
  have "commit_ok N s ld h (aterm n') (aents n') (acommit n')"
    using commit_ok_le [OF node_commit_ok [OF inv assms(2)] up assms(5)] assms(4) by simp
  moreover have "eTerm e \<le> aterm n'" if "e \<in> set (aents n')" for e
    using complete_invD(2) [OF inv] that assms(2,4) up order_trans by (fastforce simp: terms_ok_def)
  ultimately show ?thesis using assms by (auto simp: keeping_def kept_def)
qed

lemma harmless_sending: "\<forall>m \<in> M. harmless N i m \<Longrightarrow> \<forall>m \<in> M. sending s ld h i n' m"
  by (auto simp: harmless_def sending_def)

text \<open>The steps that send nothing that matters.\<close>

lemma complete_harmless:
  assumes inv: "complete_inv N s ld h" and "safe_inv N (aupd s i n' M) ld h" and "i \<in> N"
    and "aterm (anodes s i) \<le> aterm n'" and "aents n' = aents (anodes s i)" and "acommit n' \<le> acommit (anodes s i)"
    and "arole n' = StateCandidate \<Longrightarrow> arole (anodes s i) = StateCandidate \<and> aterm n' = aterm (anodes s i)"
    and "\<forall>m \<in> M. harmless N i m"
  shows "complete_inv N (aupd s i n' M) ld h"
  using assms harmless_sending [OF assms(8)]
  by (intro keep_step [OF inv] keeping_log [OF inv]) (auto simp: harmless_def)

lemma complete_grant:
  assumes inv: "complete_inv N s ld h" and safe: "safe_inv N (aupd s i n'' {m}) ld h" and i: "i \<in> N"
    and t: "aterm (anodes s i) \<le> t" and n': "n' = (anodes s i)\<lparr>aterm := t, avote := c\<rparr>"
    and n'': "n'' = (if aterm (anodes s i) < t then n'\<lparr>arole := StateFollower, avotes := {}\<rparr> else n')"
    and m: "routed N i m" "is_grant m" "mTo m = c" "mTerm m = t"
    and q: "q \<in> asent s" "is_req q" "mFrom q = c" "mTerm q = t" "up_to_date (aents (anodes s i)) q"
  shows "complete_inv N (aupd s i n'' {m}) ld h"
proof (rule keep_step [OF inv _ _ safe])
  show "keeping N s ld h i n'' {m}"
    using i t m by (intro keeping_log [OF inv]) (auto simp: n' n'')
  show "\<forall>m \<in> {m}. sending s ld h i n'' m" using m q by (auto simp: sending_def n' n'')
qed

lemma complete_timeout:
  assumes inv: "complete_inv N s ld h" and i: "i \<in> N" and t: "aterm (anodes s i) \<noteq> - 1"
    and n': "n' = (anodes s i)\<lparr>aterm := aterm (anodes s i) + 1, avote := i, arole := StateCandidate, avotes := {i}\<rparr>"
    and M: "\<forall>m \<in> M. request_msg N i (aterm (anodes s i) + 1) (aents (anodes s i)) m"
  shows "complete_inv N (aupd s i n' M) ld h"
proof (rule keep_step [OF inv])
  show "keeping N s ld h i n' M"
    using i M word_less_Suc [OF t] by (intro keeping_log [OF inv]) (auto simp: n' request_msg_def)
  show "\<forall>m \<in> M. sending s ld h i n' m" using M by (auto simp: sending_def request_msg_def n')
  show "safe_inv N (aupd s i n' M) ld h" unfolding n' using complete_invD(1) [OF inv] i t M by (rule safe_timeout)
qed

lemma complete_heartbeat:
  assumes inv: "complete_inv N s ld h" and i: "i \<in> N" and l: "arole (anodes s i) = StateLeader"
    and M: "\<forall>m \<in> M. leader_msg N i (aterm (anodes s i)) (aents (anodes s i)) m"
      "\<forall>m \<in> M. unat (mLeaderCommit m) = acommit (anodes s i)"
  shows "complete_inv N (aupd s i (anodes s i) M) ld h"
proof (rule keep_step [OF inv])
  show "keeping N s ld h i (anodes s i) M"
    using i M by (intro keeping_log [OF inv]) (auto simp: leader_msg_def)
  show "\<forall>m \<in> M. sending s ld h i (anodes s i) m" using M l by (auto simp: sending_def leader_msg_def)
  show "safe_inv N (aupd s i (anodes s i) M) ld h" using complete_invD(1) [OF inv] i l M(1) by (rule safe_heartbeat)
qed

text \<open>A leader commits with the acknowledgements of a majority.\<close>

lemma complete_commit:
  assumes inv: "complete_inv N s ld h" and i: "i \<in> N" and l: "arole (anodes s i) = StateLeader"
    and k: "k < length (aents (anodes s i))" "eTerm (aents (anodes s i) ! k) = aterm (anodes s i)"
    and Q: "is_majority N Q" "\<forall>v \<in> Q. v = i \<or> acks s (aterm (anodes s i)) v k"
  shows "complete_inv N (aupd s i ((anodes s i)\<lparr>acommit := k\<rparr>) {}) ld h"
proof (rule keep_step [OF inv])
  let ?t = "aterm (anodes s i)"
  note safe = complete_invD(1) [OF inv]
  have es: "aents (anodes s i) = h ?t" and ld: "ld ?t = Some i"
    using log_invD(4) [OF safe_invD(2) [OF safe] i l] safe_invD(6) [OF safe i l] by auto
  then have "committed N s ld h ?t k"
    using k Q by (fastforce simp: committed_def own_def acked_def)
  then have "commit_ok N s ld h ?t (aents (anodes s i)) k"
    unfolding commit_ok_def es using has_self by blast
  with i complete_invD(2) [OF inv] show "keeping N s ld h i ((anodes s i)\<lparr>acommit := k\<rparr>) {}"
    by (auto simp: keeping_def kept_def terms_ok_def)
  show "safe_inv N (aupd s i ((anodes s i)\<lparr>acommit := k\<rparr>) {}) ld h" using safe i by (rule safe_commit)
qed simp

subsection \<open>Accepting an append\<close>

text \<open>The log after an accepted append, in terms of the leader's log.\<close>

lemma accept_cases:
  assumes inv: "safe_inv N s ld h" and i: "i \<in> N" and m: "m \<in> asent s" "is_ae m"
    and p: "mPrevLogIndex m = of_nat p" "p < length (aents (anodes s i))"
      "eTerm (aents (anodes s i) ! p) = mPrevLogTerm m"
    and es: "es = merged (aents (anodes s i)) (Suc p) (mEntries m)" and ok: "covered m es"
  shows "prefix es (h (mTerm m))"
    and "es = aents (anodes s i) \<or> \<not> prefix es (aents (anodes s i))"
proof -
  have a: "path h (aents (anodes s i))" "path h (h (mTerm m))" "carries m (h (mTerm m))"
    using safe_invD(8) [OF inv i] log_invD(1,5) [OF safe_invD(2) [OF inv]] m by auto
  obtain j where j: "j = Suc (unat (mPrevLogIndex m) + length (mEntries m))" "j \<le> length (h (mTerm m))"
      and e: "es = (if prefix (take j (h (mTerm m))) (aents (anodes s i)) then aents (anodes s i) else take j (h (mTerm m)))"
    using merged_path [OF a p] es by metis
  then show "es = aents (anodes s i) \<or> \<not> prefix es (aents (anodes s i))" by auto
  show "prefix es (h (mTerm m))"
  proof (cases "prefix (take j (h (mTerm m))) (aents (anodes s i))")
    case False
    then show ?thesis using e by (simp add: take_is_prefix)
  next
    case True
    with e have old: "es = aents (anodes s i)" by simp
    show ?thesis
    proof (cases "eTerm (last es) = mTerm m")
      case True
      then show ?thesis using path_last [OF a(1)] old by simp
    next
      case False
      with ok j(1) have "length es \<le> j" by (simp add: covered_def)
      moreover obtain r where "es = take j (h (mTerm m)) @ r" using True old by (auto simp: prefix_def)
      ultimately have "es = take j (h (mTerm m))" using j(2) by simp
      then show ?thesis by (simp add: take_is_prefix)
    qed
  qed
qed

text \<open>What both the old log and the leader's log have, the new log has.\<close>

lemma accept_has:
  assumes "prefix es b" and "es = a \<or> \<not> prefix es a" and "has h a t k" and "has h b t k"
  shows "has h es t k"
proof (cases "es = a")
  case False
  then have np: "\<not> prefix es a" using assms(2) by simp
  have eq: "take (Suc k) a = take (Suc k) b" using assms(3,4) by (simp add: has_def)
  have "\<not> length es \<le> Suc k"
  proof
    assume "length es \<le> Suc k"
    then have "take (length es) a = take (length es) b"
      using arg_cong [OF eq, of "take (length es)"] by (simp add: min_absorb1)
    moreover have "take (length es) b = es" using assms(1) by (auto simp: prefix_def)
    ultimately show False using np by (metis take_is_prefix)
  qed
  then show ?thesis using has_prefix [OF assms(1), of k h t] assms(4) by simp
qed (use assms in simp)

lemma complete_accept:
  assumes inv: "complete_inv N s ld h" and i: "i \<in> N" and m: "m \<in> asent s" "is_ae m" "mTo m = i"
    and t: "aterm (anodes s i) \<le> mTerm m"
    and keep: "keep = (arole (anodes s i) = StateFollower \<and> aterm (anodes s i) = mTerm m)"
    and p: "mPrevLogIndex m = of_nat p" "p < length (aents (anodes s i))"
      "eTerm (aents (anodes s i) ! p) = mPrevLogTerm m"
    and es: "es = merged (aents (anodes s i)) (Suc p) (mEntries m)"
    and c: "c \<le> max (acommit (anodes s i)) (unat (mLeaderCommit m))" "c < length es"
    and ok: "covered m es" and M: "\<forall>m' \<in> M. ack_msg N i (mTerm m) es m'"
    and n': "n' = (anodes s i)\<lparr>aterm := mTerm m, avote := (if keep then avote (anodes s i) else 0),
      arole := StateFollower, avotes := {}, aents := es, acommit := c\<rparr>"
  shows "complete_inv N (aupd s i n' M) ld h"
proof (rule keep_step [OF inv])
  let ?T = "mTerm m" and ?a = "aents (anodes s i)"
  note safe = complete_invD(1) [OF inv]
  note ac = accept_cases [OF safe i m(1,2) p es ok]
  have ld: "ld ?T \<noteq> None" using safe_invD(7) [OF safe m(1,2)] by simp
  have hT: "kept N s ld h (h ?T) t' k" if "own ld h t' k" "t' \<le> ?T" for t' k
    using complete_invD(8) [OF inv] that ld by (cases "t' = ?T") (auto simp: leaders_keep_def kept_def)
  have hold: "kept N s ld h es t' k" if "own ld h t' k" "t' \<le> aterm (anodes s i)" "has h ?a t' k" for t' k
    using hT [of t' k] accept_has [OF ac that(3)] that t by (auto simp: kept_def)
  have com: "commit_ok N s ld h ?T es c"
  proof (cases "c \<le> acommit (anodes s i)")
    case True
    have "commit_ok N s ld h (aterm (anodes s i)) ?a c"
      using commit_ok_le [OF node_commit_ok [OF inv i] order_refl True] .
    then consider "c = 0" | t' k where "committed N s ld h t' k" "c \<le> k" "t' \<le> aterm (anodes s i)" "has h ?a t' c"
      by (auto simp: commit_ok_def)
    then show ?thesis
    proof cases
      case (2 t' k)
      have le: "t' \<le> ?T" using 2(3) t by (rule order_trans)
      have "own ld h t' k" using 2(1) by (simp add: committed_def)
      with hT [OF _ le] committed_not_lost [OF 2(1)] have "has h (h ?T) t' k" by (auto simp: kept_def)
      with accept_has [OF ac 2(4)] has_le [OF _ 2(2)] 2(1,2) le show ?thesis unfolding commit_ok_def by blast
    qed (simp add: commit_ok_def)
  next
    case False
    with c(1) have "c \<le> unat (mLeaderCommit m)" by simp
    with complete_invD(9) [OF inv] m(1,2) have "commit_ok N s ld h ?T (h ?T) c"
      by (auto simp: commits_ok_def intro: commit_ok_le)
    then show ?thesis using has_prefix [OF ac(1) c(2), of h] by (auto simp: commit_ok_def)
  qed
  have "eTerm e \<le> ?T" if "e \<in> set es" for e
    using complete_invD(2) [OF inv] that set_mono_prefix [OF ac(1)] by (auto simp: terms_ok_def)
  with hold com i t M show "keeping N s ld h i n' M" by (auto simp: keeping_def n' ack_msg_def)
  have len: "0 < length es" "length es - 1 < length (h ?T)" using c(2) prefix_length_le [OF ac(1)] by auto
  moreover have "length (h ?T) < 2 ^ 63"
    using indexedD(4) [OF path_indexed [OF log_invD(1) [OF safe_invD(2) [OF safe]]]] .
  ultimately have u: "unat (of_nat (length es - 1) :: u64) = length es - 1" by (intro unat_of_nat64) simp
  have "has h es ?T (length es - 1)" using has_prefix [OF ac(1), of "length es - 1" h ?T] len by simp
  moreover have "\<forall>m' \<in> M. is_ack m' \<and> mTerm m' = ?T \<and> unat (mMatchIndex m') = length es - 1"
    using M u unfolding ack_msg_def by metis
  ultimately show "\<forall>m' \<in> M. sending s ld h i n' m'" using ld len by (auto simp: sending_def n')
  show "safe_inv N (aupd s i n' M) ld h"
    unfolding n' using safe i m t keep p es M by (rule safe_accept)
qed

subsection \<open>New leaders and new entries\<close>

text \<open>A candidate with the votes of a majority has every entry of an earlier term that is not lost.\<close>

lemma elected_kept:
  assumes inv: "complete_inv N s ld h" and i: "i \<in> N" and c: "arole (anodes s i) = StateCandidate"
    and V: "is_majority N (avotes (anodes s i))" and o: "own ld h t k" and t: "t < aterm (anodes s i)"
  shows "kept N s ld h (aents (anodes s i)) t k"
proof (cases "\<exists>v \<in> avotes (anodes s i). acked s ld h t v k")
  case True
  note facts = candidate_facts(4) [OF complete_invD(1) [OF inv] i c]
  from True obtain v where v: "v \<in> avotes (anodes s i)" "acked s ld h t v k" by blast
  with facts consider "v = i" | "grants s (aterm (anodes s i)) v i" by blast
  then show ?thesis
  proof cases
    case 1
    with complete_invD(6) [OF inv] i o v show ?thesis unfolding logs_keep_def by blast
  next
    case 2
    then obtain m where m: "m \<in> asent s" "is_grant m" "mTerm m = aterm (anodes s i)" "mFrom m = v" "mTo m = i"
      by (auto simp: grants_def)
    from complete_invD(7) [OF inv, unfolded votes_keep_def, rule_format, OF m(1,2)] m c t o v(2) show ?thesis by simp
  qed
next
  case False
  have "t < aterm (anodes s v)" if "v \<in> avotes (anodes s i)" for v
    using candidate_facts(4) [OF complete_invD(1) [OF inv] i c that] complete_invD(3) [OF inv] t
    by (auto simp: grants_def grants_ok_def intro: less_le_trans)
  with False V show ?thesis unfolding kept_def lost_def by blast
qed

text \<open>The commit indices known after a step that changes the logs of the leaders.\<close>

lemma commits_later:
  assumes inv: "complete_inv N s ld h" and l: "later N s ld h (aupd s i n' M) ld' h'"
    and n': "commit_ok N s ld h (aterm n') (aents n') (acommit n')"
    and msgs: "\<And>m. m \<in> M \<union> asent s \<Longrightarrow> is_ae m \<Longrightarrow> commit_ok N s ld h (mTerm m) (h' (mTerm m)) (unat (mLeaderCommit m))"
  shows "commits_ok N (aupd s i n' M) ld' h'"
proof -
  let ?s' = "aupd s i n' M"
  have "commit_ok N s ld h (aterm (anodes ?s' j)) (aents (anodes ?s' j)) (acommit (anodes ?s' j))" if "j \<in> N" for j
    using node_commit_ok [OF inv that] n' by simp
  with msgs commit_ok_grown [OF laterD(1) [OF l]] show ?thesis unfolding commits_ok_def by auto
qed

subsubsection \<open>A victory\<close>

definition victory :: "u64 set \<Rightarrow> anet \<Rightarrow> (u64 \<rightharpoonup> u64) \<Rightarrow> (u64 \<Rightarrow> entry list) \<Rightarrow> u64 \<Rightarrow> message set \<Rightarrow> bool" where
  "victory N s ld h i M \<longleftrightarrow>
     complete_inv N s ld h \<and> i \<in> N \<and> arole (anodes s i) = StateCandidate \<and> is_majority N (avotes (anodes s i)) \<and>
     (\<forall>m \<in> M. leader_msg N i (aterm (anodes s i)) (aents (anodes s i)) m) \<and>
     (\<forall>m \<in> M. unat (mLeaderCommit m) = acommit (anodes s i))"

definition crowned :: "anet \<Rightarrow> u64 \<Rightarrow> message set \<Rightarrow> anet" where
  "crowned s i M = aupd s i ((anodes s i)\<lparr>arole := StateLeader, avotes := {}\<rparr>) M"

lemma crowned_simps [simp]:
  "aents (anodes (crowned s i M) v) = aents (anodes s v)" "aterm (anodes (crowned s i M) v) = aterm (anodes s v)"
  "asent (crowned s i M) = M \<union> asent s"
  by (simp_all add: crowned_def)

text \<open>The new leader's term has no entries yet, and the victory acknowledges nothing.\<close>

lemma victory_facts:
  assumes v: "victory N s ld h i M" and ld': "ld' = ld(aterm (anodes s i) \<mapsto> i)"
    and h': "h' = h(aterm (anodes s i) := aents (anodes s i))"
  shows "ld (aterm (anodes s i)) = None" and "safe_inv N (crowned s i M) ld' h'"
    and "own ld' h' t k \<longleftrightarrow> own ld h t k \<and> t \<noteq> aterm (anodes s i)"
    and "t \<noteq> aterm (anodes s i) \<Longrightarrow> acked (crowned s i M) ld' h' t w k \<longleftrightarrow> acked s ld h t w k"
    and "later N s ld h (crowned s i M) ld' h'"
proof -
  let ?T = "aterm (anodes s i)"
  have v': "complete_inv N s ld h" "i \<in> N" "arole (anodes s i) = StateCandidate" "is_majority N (avotes (anodes s i))"
      "\<forall>m \<in> M. leader_msg N i ?T (aents (anodes s i)) m"
    using v by (auto simp: victory_def)
  note safe = complete_invD(1) [OF v'(1)]
  show none: "ld ?T = None" using win_first [OF safe_invD(1) [OF safe] v'(2-4)] .
  note win = safe_win [OF safe v'(2-5) ld' h']
  from win(1) show "safe_inv N (crowned s i M) ld' h'" by (simp add: crowned_def)
  have "\<not> own ld' h' ?T k" for k
    using path_fresh [OF safe_invD(8) [OF safe v'(2)] log_invD(3) [OF safe_invD(2) [OF safe] none]
        candidate_facts(2) [OF safe v'(2,3)]]
    by (auto simp: own_def h')
  then show "own ld' h' t k \<longleftrightarrow> own ld h t k \<and> t \<noteq> ?T" by (auto simp: own_def h' ld')
  show ack: "acked (crowned s i M) ld' h' t w k \<longleftrightarrow> acked s ld h t w k" if "t \<noteq> ?T" for t w k
    using that v'(5) by (auto simp: acked_def acks_def ld' h' leader_msg_def)
  have "acked s ld h t w k" if "own ld h t k" "acked (crowned s i M) ld' h' t w k" for t w k
  proof -
    have "t \<noteq> ?T" using that(1) none by (auto simp: own_def)
    with that(2) ack show ?thesis by blast
  qed
  then show "later N s ld h (crowned s i M) ld' h'" using win(2) by (auto simp: later_def grown_def)
qed

lemma victory_keeps:
  assumes v: "victory N s ld h i M" and ld': "ld' = ld(aterm (anodes s i) \<mapsto> i)"
    and h': "h' = h(aterm (anodes s i) := aents (anodes s i))"
  shows "logs_keep N (crowned s i M) ld' h'" and "votes_keep N (crowned s i M) ld' h'"
    and "leaders_keep N (crowned s i M) ld' h'"
proof -
  let ?T = "aterm (anodes s i)" and ?s' = "crowned s i M"
  note facts = victory_facts [OF v ld' h']
  note kl = kept_later [OF facts(5)]
  have inv: "complete_inv N s ld h" using v by (simp add: victory_def)
  show "logs_keep N ?s' ld' h'"
    unfolding logs_keep_def facts(3) crowned_simps
    using complete_invD(6) [OF inv, unfolded logs_keep_def] kl facts(4) by blast
  have "kept N ?s' ld' h' (aents (anodes s (mTo m))) t k"
    if m: "m \<in> asent ?s'" "is_grant m" "arole (anodes ?s' (mTo m)) = StateCandidate" "aterm (anodes s (mTo m)) = mTerm m"
      and t: "t < mTerm m" and o: "own ld h t k" "t \<noteq> ?T" and a: "acked ?s' ld' h' t (mFrom m) k" for m t k
  proof -
    have "m \<in> asent s" "arole (anodes s (mTo m)) = StateCandidate"
      using m v by (auto simp: victory_def crowned_def leader_msg_def split: if_splits)
    with complete_invD(7) [OF inv, unfolded votes_keep_def, rule_format, OF _ m(2)] m(4) t o a facts(4) kl
    show ?thesis by blast
  qed
  then show "votes_keep N ?s' ld' h'" unfolding votes_keep_def facts(3) crowned_simps(1,2) by blast
  have "kept N s ld h (h' T) t k" if "ld' T \<noteq> None" "t < T" "own ld h t k" for T t k
  proof (cases "T = ?T")
    case True
    then show ?thesis using elected_kept [OF inv] v that by (auto simp: victory_def h')
  next
    case False
    then show ?thesis using complete_invD(8) [OF inv] that by (auto simp: leaders_keep_def ld' h')
  qed
  then show "leaders_keep N ?s' ld' h'" unfolding leaders_keep_def facts(3) using kl by blast
qed

lemma complete_win:
  assumes v: "victory N s ld h i M" and ld': "ld' = ld(aterm (anodes s i) \<mapsto> i)"
    and h': "h' = h(aterm (anodes s i) := aents (anodes s i))"
  shows "complete_inv N (crowned s i M) ld' h'"
  unfolding complete_inv_def keep_inv_def
proof (intro conjI)
  let ?T = "aterm (anodes s i)" and ?s' = "crowned s i M"
  note facts = victory_facts [OF v ld' h']
  have inv: "complete_inv N s ld h" and i: "i \<in> N" and M: "\<forall>m \<in> M. is_ae m \<and> mTerm m = ?T"
      "\<forall>m \<in> M. unat (mLeaderCommit m) = acommit (anodes s i)"
    using v by (auto simp: victory_def leader_msg_def)
  show "terms_ok N ?s' h'" using complete_invD(2) [OF inv] i by (auto simp: terms_ok_def h')
  show "grants_ok ?s'" "requests_ok ?s'"
    using complete_invD(3,4) [OF inv] M(1) by (auto simp: grants_ok_def requests_ok_def crowned_def)
  show "acks_ok ?s' ld' h'" using complete_invD(5) [OF inv] M(1) facts(1) by (auto simp: acks_ok_def ld' h')
  have "mTerm m \<noteq> ?T" if "m \<in> asent s" "is_ae m" for m
    using safe_invD(7) [OF complete_invD(1) [OF inv] that] facts(1) by force
  with complete_invD(9) [OF inv] M node_commit_ok [OF inv i] show "commits_ok N ?s' ld' h'"
    unfolding crowned_def
    by (intro commits_later [OF inv facts(5) [unfolded crowned_def]]) (auto simp: commits_ok_def h')
qed (use victory_facts(2) [OF v ld' h'] victory_keeps [OF v ld' h'] in auto)

subsubsection \<open>A proposal\<close>

text \<open>A log that grows keeps what it has.\<close>

lemma kept_longer:
  "own ld h t k \<Longrightarrow> kept N s ld h es t k \<Longrightarrow> kept N s ld h (es @ [e]) t k"
  using has_prefix [of es "es @ [e]" k h t] has_length [of h es t k] by (auto simp: kept_def own_def)

lemma commit_ok_longer:
  assumes "commit_ok N s ld h t0 es c"
  shows "commit_ok N s ld h t0 (es @ [e]) c"
proof (cases "c = 0")
  case False
  with assms obtain t k where tk: "committed N s ld h t k" "c \<le> k" "t \<le> t0" "has h es t c"
    by (auto simp: commit_ok_def)
  then have "c < length (h t)" by (simp add: committed_def own_def)
  with tk(4) have "has h (es @ [e]) t c" using has_prefix [of es "es @ [e]" c h t] has_length [of h es t c] by simp
  with tk show ?thesis unfolding commit_ok_def by blast
qed (simp add: commit_ok_def)

definition proposal :: "u64 set \<Rightarrow> anet \<Rightarrow> (u64 \<rightharpoonup> u64) \<Rightarrow> (u64 \<Rightarrow> entry list) \<Rightarrow> u64 \<Rightarrow> entry \<Rightarrow> bool" where
  "proposal N s ld h i e \<longleftrightarrow>
     complete_inv N s ld h \<and> i \<in> N \<and> arole (anodes s i) = StateLeader \<and> eTerm e = aterm (anodes s i) \<and>
     eIndex e = of_nat (length (aents (anodes s i))) \<and> Suc (length (aents (anodes s i))) < 2 ^ 63 \<and>
     length (eCommand e) < 2 ^ 63"

definition proposed :: "anet \<Rightarrow> u64 \<Rightarrow> entry \<Rightarrow> anet" where
  "proposed s i e = aupd s i ((anodes s i)\<lparr>aents := aents (anodes s i) @ [e]\<rparr>) {}"

lemma proposed_simps [simp]:
  "aents (anodes (proposed s i e) v) = (if v = i then aents (anodes s i) @ [e] else aents (anodes s v))"
  "aterm (anodes (proposed s i e) v) = aterm (anodes s v)" "arole (anodes (proposed s i e) v) = arole (anodes s v)"
  "acommit (anodes (proposed s i e) v) = acommit (anodes s v)" "asent (proposed s i e) = asent s"
  by (simp_all add: proposed_def)

text \<open>The new entry is the leader's alone.\<close>

lemma proposal_facts:
  assumes pr: "proposal N s ld h i e" and h': "h' = h(aterm (anodes s i) := h (aterm (anodes s i)) @ [e])"
  shows "aents (anodes s i) = h (aterm (anodes s i))" and "safe_inv N (proposed s i e) ld h'"
    and "own ld h' t k \<longleftrightarrow> own ld h t k \<or> t = aterm (anodes s i) \<and> k = length (h t)"
    and "acked (proposed s i e) ld h' (aterm (anodes s i)) v (length (h (aterm (anodes s i)))) \<Longrightarrow> v = i"
    and "own ld h t k \<Longrightarrow> acked (proposed s i e) ld h' t v k \<Longrightarrow> acked s ld h t v k"
    and "later N s ld h (proposed s i e) ld h'"
proof -
  let ?T = "aterm (anodes s i)"
  have p: "complete_inv N s ld h" "i \<in> N" "arole (anodes s i) = StateLeader" "eTerm e = ?T"
      "eIndex e = of_nat (length (aents (anodes s i)))" "Suc (length (aents (anodes s i))) < 2 ^ 63"
      "length (eCommand e) < 2 ^ 63"
    using pr by (auto simp: proposal_def)
  note safe = complete_invD(1) [OF p(1)]
  show "aents (anodes s i) = h ?T" using log_invD(4) [OF safe_invD(2) [OF safe] p(2,3)] .
  have ld: "ld ?T = Some i" using safe_invD(6) [OF safe p(2,3)] .
  note sp = safe_propose [OF safe p(2-7) h']
  from sp(1) show "safe_inv N (proposed s i e) ld h'" by (simp add: proposed_def)
  show "own ld h' t k \<longleftrightarrow> own ld h t k \<or> t = ?T \<and> k = length (h t)"
    using ld p(4) by (auto simp: own_def h' nth_append)
  have new: "\<not> acks s ?T v (length (h ?T))" for v
    using complete_invD(5) [OF p(1)] by (auto simp: acks_def acks_ok_def)
  have ack: "acked (proposed s i e) ld h' t v k \<longleftrightarrow> acked s ld h t v k \<or> v = i \<and> t = ?T \<and> k = length (h ?T)" for t v k
    using ld by (auto simp: acked_def acks_def h')
  show "v = i" if "acked (proposed s i e) ld h' ?T v (length (h ?T))" for v
    using that ld new unfolding ack by (auto simp: acked_def)
  show old: "acked s ld h t v k" if "own ld h t k" "acked (proposed s i e) ld h' t v k" for t v k
    using that unfolding ack by (auto simp: own_def)
  show "later N s ld h (proposed s i e) ld h'" using sp(2) old by (auto simp: later_def grown_def)
qed

lemma proposal_logs:
  assumes pr: "proposal N s ld h i e" and h': "h' = h(aterm (anodes s i) := h (aterm (anodes s i)) @ [e])"
  shows "logs_keep N (proposed s i e) ld h'"
  unfolding logs_keep_def
proof (intro ballI allI impI)
  fix v t k
  let ?s' = "proposed s i e"
  note facts = proposal_facts [OF pr h']
  assume v: "v \<in> N" and o: "own ld h' t k" and a: "acked ?s' ld h' t v k"
  show "kept N ?s' ld h' (aents (anodes ?s' v)) t k"
  proof (cases "own ld h t k")
    case True
    have "logs_keep N s ld h" using pr complete_invD(6) by (auto simp: proposal_def)
    with v True facts(5) [OF True a] have "kept N s ld h (aents (anodes s v)) t k" unfolding logs_keep_def by blast
    with kept_longer [OF True this, of e] have "kept N s ld h (aents (anodes ?s' v)) t k" by auto
    then show ?thesis by (rule kept_later [OF facts(6) True])
  next
    case False
    with o facts(3) have t: "t = aterm (anodes s i)" "k = length (h (aterm (anodes s i)))" by auto
    with a facts(4) have "v = i" by blast
    with t show ?thesis using facts(1) by (simp add: kept_def has_def h')
  qed
qed

lemma proposal_votes:
  assumes pr: "proposal N s ld h i e" and h': "h' = h(aterm (anodes s i) := h (aterm (anodes s i)) @ [e])"
  shows "votes_keep N (proposed s i e) ld h'"
  unfolding votes_keep_def
proof (intro ballI allI impI)
  fix m t k
  let ?s' = "proposed s i e"
  note facts = proposal_facts [OF pr h']
  have inv: "complete_inv N s ld h" using pr by (simp add: proposal_def)
  assume m: "m \<in> asent ?s'" "is_grant m" "arole (anodes ?s' (mTo m)) = StateCandidate"
      "aterm (anodes ?s' (mTo m)) = mTerm m"
    and t: "t < mTerm m" and o: "own ld h' t k" and a: "acked ?s' ld h' t (mFrom m) k"
  have to: "mTo m \<noteq> i" "m \<in> asent s" using m(1,3) pr by (auto simp: proposal_def)
  have "own ld h t k"
  proof (rule ccontr)
    assume "\<not> own ld h t k"
    with o facts(3) have "t = aterm (anodes s i)" "k = length (h (aterm (anodes s i)))" by auto
    moreover from this a facts(4) have "mFrom m = i" by blast
    ultimately show False using complete_invD(3) [OF inv] to(2) m(2) t by (force simp: grants_ok_def)
  qed
  with complete_invD(7) [OF inv, unfolded votes_keep_def, rule_format, OF to(2) m(2)] m(3,4) t
    facts(5) [OF _ a] to(1) kept_later [OF facts(6)]
  show "kept N ?s' ld h' (aents (anodes ?s' (mTo m))) t k" by simp
qed

text \<open>The entry a leader adds is lost at once if there is a leader of a later term.\<close>

lemma proposal_leaders:
  assumes pr: "proposal N s ld h i e" and h': "h' = h(aterm (anodes s i) := h (aterm (anodes s i)) @ [e])"
  shows "leaders_keep N (proposed s i e) ld h'"
  unfolding leaders_keep_def
proof (intro allI impI)
  fix T t k
  let ?s' = "proposed s i e"
  note facts = proposal_facts [OF pr h']
  have inv: "complete_inv N s ld h" using pr by (simp add: proposal_def)
  assume T: "ld T \<noteq> None" "t < T" and o: "own ld h' t k"
  show "kept N ?s' ld h' (h' T) t k"
  proof (cases "own ld h t k")
    case True
    with complete_invD(8) [OF inv] T have "kept N s ld h (h T) t k" unfolding leaders_keep_def by blast
    with kept_longer [OF True this, of e] have "kept N s ld h (h' T) t k" by (auto simp: h')
    then show ?thesis by (rule kept_later [OF facts(6) True])
  next
    case False
    with o facts(3) have t: "t = aterm (anodes s i)" "k = length (h (aterm (anodes s i)))" by auto
    obtain l Q where "is_majority N Q" and Q: "\<forall>v \<in> Q. locked s T l v"
      using election_inv_quorum [OF safe_invD(1) [OF complete_invD(1) [OF inv]]] T(1) by (metis option.exhaust)
    moreover have "t < aterm (anodes ?s' v) \<and> \<not> acked ?s' ld h' t v k" if "v \<in> Q" for v
    proof -
      have "t < aterm (anodes s v)" using Q that T(2) by (auto simp: locked_def)
      moreover from this have "v \<noteq> i" using t(1) by auto
      ultimately show ?thesis using facts(4) t by auto
    qed
    ultimately show ?thesis unfolding kept_def lost_def by blast
  qed
qed

lemma complete_propose:
  assumes pr: "proposal N s ld h i e" and h': "h' = h(aterm (anodes s i) := h (aterm (anodes s i)) @ [e])"
  shows "complete_inv N (proposed s i e) ld h'"
  unfolding complete_inv_def keep_inv_def
proof (intro conjI)
  let ?s' = "proposed s i e"
  note facts = proposal_facts [OF pr h']
  have inv: "complete_inv N s ld h" and i: "i \<in> N" "arole (anodes s i) = StateLeader" "eTerm e = aterm (anodes s i)"
    using pr by (auto simp: proposal_def)
  show "terms_ok N ?s' h'" using complete_invD(2) [OF inv] i facts(1) by (auto simp: terms_ok_def h')
  show "grants_ok ?s'" "requests_ok ?s'"
    using complete_invD(3,4) [OF inv] i(2) by (auto simp: grants_ok_def requests_ok_def)
  show "acks_ok ?s' ld h'" using complete_invD(5) [OF inv] by (auto simp: acks_ok_def h')
  show "commits_ok N ?s' ld h'"
    unfolding proposed_def
  proof (rule commits_later [OF inv facts(6) [unfolded proposed_def]])
    let ?n' = "(anodes s i)\<lparr>aents := aents (anodes s i) @ [e]\<rparr>"
    show "commit_ok N s ld h (aterm ?n') (aents ?n') (acommit ?n')"
      using commit_ok_longer [OF node_commit_ok [OF inv i(1)]] by simp
    fix m
    assume "m \<in> {} \<union> asent s" "is_ae m"
    with complete_invD(9) [OF inv] have "commit_ok N s ld h (mTerm m) (h (mTerm m)) (unat (mLeaderCommit m))"
      by (auto simp: commits_ok_def)
    with commit_ok_longer [OF this, of e] show "commit_ok N s ld h (mTerm m) (h' (mTerm m)) (unat (mLeaderCommit m))"
      by (auto simp: h')
  qed
qed (use proposal_facts(2) [OF pr h'] proposal_logs [OF pr h'] proposal_votes [OF pr h'] proposal_leaders [OF pr h'] in auto)

subsection \<open>Every step keeps the invariant\<close>

lemma astep_complete:
  assumes "astep covered N s s'" and inv: "complete_inv N s ld h"
  shows "\<exists>ld' h'. complete_inv N s' ld' h' \<and> extends ld h ld' h'"
proof -
  note safe = complete_invD(1) [OF inv]
  have "complete_inv N s' ld h \<or> (\<exists>ld' h'. complete_inv N s' ld' h' \<and> extends ld h ld' h')"
    using assms(1)
  proof cases
    case (quiet i M)
    with complete_harmless [OF inv safe_quiet [OF safe quiet(2,3)]] show ?thesis by simp
  next
    case (step_down i t M)
    with complete_harmless [OF inv safe_down [OF safe step_down(2-4)]] show ?thesis by simp
  next
    case (grant i c t n' n'' m q)
    from complete_grant [OF inv safe_grant [OF safe grant(2-12)] grant(2,5,7-17)] show ?thesis unfolding grant(1) ..
  next
    case (timeout i M)
    from complete_timeout [OF inv timeout(2,3) refl timeout(5)] show ?thesis unfolding timeout(1) ..
  next
    case (collect i m)
    with complete_harmless [OF inv safe_collect [OF safe collect(2-7)]] show ?thesis by simp
  next
    case (heartbeat i M)
    from complete_heartbeat [OF inv heartbeat(2-5)] show ?thesis unfolding heartbeat(1) ..
  next
    case (refuse i m keep M)
    with complete_harmless [OF inv safe_refuse [OF safe refuse(2-8)]] show ?thesis by simp
  next
    case (accept i m keep p es c M)
    from complete_accept [OF inv accept(2-15) refl] show ?thesis unfolding accept(1) ..
  next
    case (commit i k Q)
    from complete_commit [OF inv commit(2-7)] show ?thesis unfolding commit(1) ..
  next
    case (crash i c)
    with complete_harmless [OF inv safe_crash [OF safe crash(2), of c]] show ?thesis by simp
  next
    case (win i M)
    then have "victory N s ld h i M" using inv by (simp add: victory_def)
    from complete_win [OF this refl refl] safe_win(2) [OF safe win(2-5) refl refl] show ?thesis
      unfolding win(1) crowned_def by blast
  next
    case (propose i e)
    then have "proposal N s ld h i e" using inv by (simp add: proposal_def)
    from complete_propose [OF this refl] safe_propose(2) [OF safe propose(2-7) refl] show ?thesis
      unfolding propose(1) proposed_def by blast
  qed
  then show ?thesis using extends_refl by blast
qed

lemma ainit_complete:
  assumes "ainit s" and "0 \<notin> N"
  shows "complete_inv N s Map.empty (\<lambda>_. [dummy])"
  using assms ainit_safe [OF assms]
  by (auto simp: complete_inv_def keep_inv_def ainit_def terms_ok_def grants_ok_def requests_ok_def acks_ok_def
      logs_keep_def votes_keep_def leaders_keep_def commits_ok_def commit_ok_def own_def dummy_def)

subsection \<open>What committed entries are worth\<close>

text \<open>A leader has what was committed in its term or an earlier one.\<close>

lemma leader_has_committed:
  assumes inv: "complete_inv N s ld h" and "ld T \<noteq> None" and "committed N s ld h t k" and "t \<le> T"
  shows "has h (h T) t k"
proof (cases "t = T")
  case False
  with assms have "kept N s ld h (h T) t k"
    using complete_invD(8) [OF inv] by (auto simp: leaders_keep_def committed_def)
  with committed_not_lost [OF assms(3)] show ?thesis by (simp add: kept_def)
qed simp

text \<open>Two logs agree up to the smaller of two commit indices.\<close>

lemma committed_agree:
  assumes inv: "complete_inv N s ld h" and a: "commit_ok N s ld h t1 a c1" and b: "commit_ok N s ld h t2 b c2"
    and k: "0 < k" "k \<le> c1" "k \<le> c2"
  shows "take (Suc k) a = take (Suc k) b"
proof -
  obtain u i where u: "committed N s ld h u i" "c1 \<le> i" "has h a u c1" using a k by (auto simp: commit_ok_def)
  obtain w j where w: "committed N s ld h w j" "c2 \<le> j" "has h b w c2" using b k by (auto simp: commit_ok_def)
  have ld: "ld u \<noteq> None" "ld w \<noteq> None" using u(1) w(1) by (auto simp: committed_def own_def)
  have "take (Suc k) (h u) = take (Suc k) (h w)"
  proof (cases "u \<le> w")
    case True
    from has_le [OF leader_has_committed [OF inv ld(2) u(1) True], of k] k u(2) show ?thesis by (simp add: has_def)
  next
    case False
    then have "w \<le> u" by simp
    from has_le [OF leader_has_committed [OF inv ld(1) w(1) this], of k] k w(2) show ?thesis by (simp add: has_def)
  qed
  moreover have "has h a u k" "has h b w k" using has_le [OF u(3) k(2)] has_le [OF w(3) k(3)] by auto
  ultimately show ?thesis by (simp add: has_def)
qed

end
