(* ===== verification/Agreement.thy ===== *)
theory Agreement
  imports Safety Completeness
begin

text \<open>
  Agreement on committed entries. The code acknowledges an append with the last index of the follower's
  whole log, and \<open>Safety\<close> shows a run in which this makes two members commit different entries. This
  theory shows that nothing else is wrong: in every run in which no follower acknowledges an append while
  its log reaches beyond what the append covers (unless with entries of the same leader), leaders hold
  every committed entry and committed entries never differ. Everything else is as in \<open>Network\<close>: messages
  are lost, duplicated and reordered at will, members crash and restart.
\<close>

subsection \<open>Runs without unfounded acknowledgements\<close>

inductive honest_step :: "u64 list \<Rightarrow> net \<Rightarrow> net \<Rightarrow> bool" for ids where
  local: "i \<in> set ids \<Longrightarrow> local_step (nodes s i) n' out \<Longrightarrow> honest_step ids s (net_upd s i n' out)"
| deliver: "mTo m \<in> set ids \<Longrightarrow> m \<in> sent s \<Longrightarrow> Step (nodes s (mTo m)) m = Some (n', out) \<Longrightarrow>
    \<forall>r \<in> set out. is_ack r \<longrightarrow> covered m (entries (raftLog n')) \<Longrightarrow>
    honest_step ids s (net_upd s (mTo m) n' out)"

definition honest_reachable :: "u64 list \<Rightarrow> net \<Rightarrow> bool" where
  "honest_reachable ids s \<longleftrightarrow> (\<exists>rs. (honest_step ids)\<^sup>*\<^sup>* (net_init ids rs) s)"

text \<open>These are runs of the network.\<close>

lemma honest_step_net: "honest_step ids s s' \<Longrightarrow> net_step ids s s'"
proof (induction rule: honest_step.induct)
  case (local i s n' out)
  then show ?case by (rule net_step_local)
next
  case (deliver m s n' out)
  then show ?case by (intro net_step.deliver)
qed

lemma honest_reachable_net: "honest_reachable ids s \<Longrightarrow> reachable ids s"
proof -
  have "(honest_step ids)\<^sup>*\<^sup>* a b \<Longrightarrow> (net_step ids)\<^sup>*\<^sup>* a b" for a b
    by (rule mono_rtranclp [rule_format]) (use honest_step_net in auto)
  then show "honest_reachable ids s \<Longrightarrow> reachable ids s"
    unfolding honest_reachable_def reachable_def by blast
qed

definition careful_inv :: "u64 list \<Rightarrow> ghost \<Rightarrow> anet \<Rightarrow> bool" where
  "careful_inv ids g a \<longleftrightarrow> complete_inv (set ids) a (fst g) (snd g)"

lemma honest_simulated:
  assumes "honest_step ids s s'" and ok: "net_ok ids s" and inv: "safe_inv (set ids) (abs_net s) ld h"
  shows "(astep covered (set ids))\<^sup>*\<^sup>* (abs_net s) (abs_net s') \<and> net_ok ids s'"
proof -
  from ok have ids: "members_ok ids" and n: "node_ok ids i (nodes s i)" "tracked (sent s) (nodes s i)" for i
    by (auto simp: net_ok_def)
  show ?thesis
    using assms(1)
  proof cases
    case (local i n' out)
    with simulated_net [OF ok sim_local [OF _ n inv]] show ?thesis by blast
  next
    case (deliver m n' out)
    with simulated_net [OF ok sim_Step [OF ids _ n inv, where adm = covered]] show ?thesis by blast
  qed
qed

interpretation careful: simulation abs_net "honest_step ids" "astep covered (set ids)" "net_ok ids"
    "careful_inv ids" ghost_fwd for ids
proof unfold_locales
  show "ghost_fwd g g" for g by (rule raft.fwd_refl)
  show "ghost_fwd g1 g2 \<Longrightarrow> ghost_fwd g2 g3 \<Longrightarrow> ghost_fwd g1 g3" for g1 g2 g3 by (rule raft.fwd_trans)
  show "astep covered (set ids) a a' \<Longrightarrow> careful_inv ids g a \<Longrightarrow> \<exists>g'. careful_inv ids g' a' \<and> ghost_fwd g g'" for a a' g
    using astep_complete by (fastforce simp: careful_inv_def ghost_fwd_def)
  show "honest_step ids c c' \<Longrightarrow> net_ok ids c \<Longrightarrow> careful_inv ids g (abs_net c) \<Longrightarrow>
      (astep covered (set ids))\<^sup>*\<^sup>* (abs_net c) (abs_net c') \<and> net_ok ids c'" for c c' g
    using honest_simulated complete_invD(1) by (fastforce simp: careful_inv_def)
qed

lemma honest_inv:
  assumes "honest_reachable ids s" and "members_ok ids"
  shows "net_ok ids s" and "\<exists>g. careful_inv ids g (abs_net s)"
proof -
  have "careful_inv ids (Map.empty, \<lambda>_. [dummy]) (abs_net (net_init ids rs))" for rs
    using ainit_complete [OF net_init_ainit] assms(2) by (simp add: careful_inv_def members_ok_def)
  with careful.run_inv [OF _ net_init_ok [OF assms(2)]] assms(1)
  show "net_ok ids s" "\<exists>g. careful_inv ids g (abs_net s)" unfolding honest_reachable_def by blast+
qed

lemma astep_sent: "(astep ok N)\<^sup>*\<^sup>* a a' \<Longrightarrow> asent a \<subseteq> asent a'"
proof (induction rule: rtranclp_induct)
  case (step b c)
  from step.hyps(2) have "asent b \<subseteq> asent c" by cases auto
  with step.IH show ?case by blast
qed simp

text \<open>Two states of one run, with the commit index of the earlier one still valid in the later one.\<close>

lemma honest_later:
  assumes "honest_reachable ids s" and ids: "members_ok ids" and run: "(honest_step ids)\<^sup>*\<^sup>* s s'" and i: "i \<in> set ids"
  obtains ld h where "complete_inv (set ids) (abs_net s') ld h"
    "commit_ok (set ids) (abs_net s') ld h (currentTerm (nodes s i)) (entries (raftLog (nodes s i)))
       (unat (commitIndex (raftLog (nodes s i))))"
proof -
  obtain g where g: "careful_inv ids g (abs_net s)" using honest_inv(2) [OF assms(1,2)] by blast
  from careful.run_inv [OF run honest_inv(1) [OF assms(1,2)] g] obtain g' where
    g': "careful_inv ids g' (abs_net s')" "ghost_fwd g g'" and run': "(astep covered (set ids))\<^sup>*\<^sup>* (abs_net s) (abs_net s')"
    by blast
  then have "grown (abs_net s) (fst g) (snd g) (abs_net s') (fst g') (snd g')"
    unfolding grown_def ghost_fwd_def using astep_sent [OF run'] by blast
  with that g g'(1) node_commit_ok [of "set ids" "abs_net s" "fst g" "snd g" i] i commit_ok_grown show ?thesis
    by (force simp: careful_inv_def)
qed

subsection \<open>The theorems\<close>

lemma honest_log_ok: "honest_reachable ids s \<Longrightarrow> members_ok ids \<Longrightarrow> log_ok (raftLog (nodes s i))"
  using honest_inv(1) by (simp add: net_ok_def node_ok_def)

text \<open>The logs of two members, up to a point that both have committed.\<close>

lemma honest_committed:
  assumes "members_ok ids" and "honest_reachable ids s" and "(honest_step ids)\<^sup>*\<^sup>* s s'"
    and "i \<in> set ids" and "j \<in> set ids"
    and "k \<le> unat (commitIndex (raftLog (nodes s i)))" and "k \<le> unat (commitIndex (raftLog (nodes s' j)))"
  shows "take (Suc k) (entries (raftLog (nodes s i))) = take (Suc k) (entries (raftLog (nodes s' j)))"
proof -
  have s': "honest_reachable ids s'" using assms(2,3) unfolding honest_reachable_def by (meson rtranclp_trans)
  show ?thesis
  proof (cases "k = 0")
    case True
    then show ?thesis
      using honest_log_ok [OF assms(2,1), of i] honest_log_ok [OF s' assms(1), of j]
      by (auto simp: log_ok_def indexed_def take_Suc hd_conv_nth)
  next
    case False
    obtain ld h where inv: "complete_inv (set ids) (abs_net s') ld h"
      "commit_ok (set ids) (abs_net s') ld h (currentTerm (nodes s i)) (entries (raftLog (nodes s i)))
         (unat (commitIndex (raftLog (nodes s i))))"
      using honest_later [OF assms(2,1,3,4)] .
    from committed_agree [OF inv node_commit_ok [OF inv(1) assms(5)], of k] assms(6,7) False show ?thesis by simp
  qed
qed

text \<open>What the members report.\<close>

lemma report_take:
  assumes "log_ok l" and "CommittedEntries l = Some es"
  shows "length es = unat (commitIndex l)" and "es = drop 1 (take (Suc (unat (commitIndex l))) (entries l))"
  using CommittedEntries_eq [OF assms(1)] assms by (auto simp: log_ok_def)

lemma honest_reports:
  assumes "members_ok ids" and "honest_reachable ids s" and "(honest_step ids)\<^sup>*\<^sup>* s s'"
    and "i \<in> set ids" and "j \<in> set ids"
  shows "\<exists>es es'. node_CommittedEntries (nodes s i) = Some es \<and> length es = unat (node_CommitIndex (nodes s i)) \<and>
    node_CommittedEntries (nodes s' j) = Some es' \<and> length es' = unat (node_CommitIndex (nodes s' j)) \<and>
    (prefix es es' \<or> prefix es' es)"
proof -
  have s': "honest_reachable ids s'" using assms(2,3) unfolding honest_reachable_def by (meson rtranclp_trans)
  note ok = honest_log_ok [OF assms(2,1), of i] honest_log_ok [OF s' assms(1), of j]
  let ?a = "raftLog (nodes s i)" and ?b = "raftLog (nodes s' j)"
  obtain es es' where es: "CommittedEntries ?a = Some es" "CommittedEntries ?b = Some es'"
    using CommittedEntries_eq ok by metis
  note len = report_take [OF ok(1) es(1)] report_take [OF ok(2) es(2)]
  let ?k = "min (unat (commitIndex ?a)) (unat (commitIndex ?b))"
  have "take (Suc ?k) (entries ?a) = take (Suc ?k) (entries ?b)" by (rule honest_committed [OF assms]) simp_all
  then have "take ?k es = take ?k es'" unfolding len(2,4) by (simp add: drop_take [symmetric] min.absorb2 take_drop)
  then have "prefix es es' \<or> prefix es' es" using len(1,3) by (metis min_def take_all order_refl take_is_prefix)
  with es len show ?thesis by (simp add: CommitIndex_def)
qed

text \<open>C7: State Machine Safety. In every run in which acknowledgements are covered by the append they answer,
  what any two members report as committed, at the same or at different moments, never differs: each
  reports as many entries as its commit index says, and one report is a prefix of the other.\<close>

theorem state_machine_safety:
  assumes "members_ok ids" and "honest_reachable ids s" and "(honest_step ids)\<^sup>*\<^sup>* s s'"
    and "i \<in> set ids" and "j \<in> set ids"
  shows "\<exists>es es'. node_CommittedEntries (nodes s i) = Some es \<and> length es = unat (node_CommitIndex (nodes s i)) \<and>
    node_CommittedEntries (nodes s' j) = Some es' \<and> length es' = unat (node_CommitIndex (nodes s' j)) \<and>
    (prefix es es' \<or> prefix es' es)"
  by (rule honest_reports [OF assms])

text \<open>C8: Leader Completeness. In such a run, a leader of a term that is at least the term of a member when it
  had committed a prefix of its log holds that prefix.\<close>

theorem leader_completeness:
  assumes "members_ok ids" and "honest_reachable ids s" and "(honest_step ids)\<^sup>*\<^sup>* s s'"
    and "i \<in> set ids" and "j \<in> set ids" and "nstate (nodes s' j) = StateLeader"
    and "currentTerm (nodes s i) \<le> currentTerm (nodes s' j)"
  shows "prefix (take (Suc (unat (commitIndex (raftLog (nodes s i))))) (entries (raftLog (nodes s i))))
    (entries (raftLog (nodes s' j)))"
proof -
  let ?c = "unat (commitIndex (raftLog (nodes s i)))" and ?a = "entries (raftLog (nodes s i))"
    and ?b = "entries (raftLog (nodes s' j))" and ?T = "currentTerm (nodes s' j)"
  have s': "honest_reachable ids s'" using assms(2,3) unfolding honest_reachable_def by (meson rtranclp_trans)
  obtain ld h where inv: "complete_inv (set ids) (abs_net s') ld h"
    and com: "commit_ok (set ids) (abs_net s') ld h (currentTerm (nodes s i)) ?a ?c"
    using honest_later [OF assms(2,1,3,4)] .
  have T: "ld ?T = Some j" "?b = h ?T" using leader_of_term [OF complete_invD(1) [OF inv] assms(5,6)] by auto
  have "take (Suc ?c) ?a = take (Suc ?c) ?b"
  proof (cases "?c = 0")
    case True
    then show ?thesis
      using honest_log_ok [OF assms(2,1), of i] honest_log_ok [OF s' assms(1), of j]
      by (auto simp: log_ok_def indexed_def take_Suc hd_conv_nth)
  next
    case False
    with com obtain t k where tk: "committed (set ids) (abs_net s') ld h t k" "?c \<le> k" "t \<le> currentTerm (nodes s i)"
        "has h ?a t ?c"
      by (auto simp: commit_ok_def)
    have "has h (h ?T) t k" using leader_has_committed [OF inv _ tk(1)] T(1) tk(3) assms(7) by simp
    with has_le [OF this tk(2)] tk(4) show ?thesis unfolding T(2) by (simp add: has_def)
  qed
  then show ?thesis by (metis take_is_prefix)
qed

subsection \<open>Schedules\<close>

text \<open>A schedule that is checked for unfounded acknowledgements while it is executed.\<close>

fun careful_action :: "trace \<Rightarrow> action \<Rightarrow> trace \<Rightarrow> bool" where
  "careful_action tr (DoDeliver k) tr' =
     (let m = tsent tr ! k
      in \<forall>r \<in> set (drop (length (tsent tr)) (tsent tr')).
           is_ack r \<longrightarrow> covered m (entries (raftLog (tnodes tr' (mTo m)))))"
| "careful_action tr a tr' = True"

fun careful_run :: "u64 list \<Rightarrow> trace \<Rightarrow> action list \<Rightarrow> trace option" where
  "careful_run ids tr [] = Some tr"
| "careful_run ids tr (a # as) =
     (case exec_action ids tr a of
        None \<Rightarrow> None
      | Some tr' \<Rightarrow> if careful_action tr a tr' then careful_run ids tr' as else None)"

lemma careful_action_sound:
  assumes "exec_action ids tr a = Some tr'" and "careful_action tr a tr'"
  shows "honest_step ids (net_of tr) (net_of tr')"
  using assms(1)
proof (cases rule: exec_action_cases)
  case (1 i n' out)
  with honest_step.local [of i ids "net_of tr" n' out] show ?thesis by (simp add: net_of_upd)
next
  case (2 k r)
  then have "\<forall>x \<in> set (snd r). is_ack x \<longrightarrow> covered (tsent tr ! k) (entries (raftLog (fst r)))"
    using assms(2) by (simp add: Let_def trace_upd_def)
  with 2 honest_step.deliver [of "tsent tr ! k" ids "net_of tr" "fst r" "snd r"] show ?thesis by (simp add: net_of_upd)
qed

lemma careful_run_sound: "careful_run ids tr as = Some tr' \<Longrightarrow> (honest_step ids)\<^sup>*\<^sup>* (net_of tr) (net_of tr')"
proof (induction ids tr as rule: careful_run.induct)
  case (2 ids tr a as)
  then obtain tr1 where "exec_action ids tr a = Some tr1" "careful_action tr a tr1" "careful_run ids tr1 as = Some tr'"
    by (auto split: option.splits if_splits)
  then show ?case using 2 careful_action_sound converse_rtranclp_into_rtranclp by metis
qed simp

text \<open>A schedule in two parts and a check of the states in which they end, as in \<open>Runs\<close>.\<close>

definition careful_to :: "u64 list \<Rightarrow> action list \<Rightarrow> action list \<Rightarrow> (trace \<Rightarrow> trace \<Rightarrow> bool) \<Rightarrow> bool" where
  "careful_to ids as bs P =
     (case careful_run ids (trace_init ids (\<lambda>_. \<lparr>draws = (\<lambda>_ _. 0), drawn = 0\<rparr>)) as of
        None \<Rightarrow> False
      | Some tr \<Rightarrow> (case careful_run ids tr bs of None \<Rightarrow> False | Some tr' \<Rightarrow> P tr tr'))"

lemma careful_toE:
  assumes "careful_to ids as bs P"
  obtains tr tr' where "honest_reachable ids (net_of tr)" "(honest_step ids)\<^sup>*\<^sup>* (net_of tr) (net_of tr')" "P tr tr'"
proof -
  obtain tr tr' where tr: "careful_run ids (trace_init ids (\<lambda>_. \<lparr>draws = (\<lambda>_ _. 0), drawn = 0\<rparr>)) as = Some tr"
      "careful_run ids tr bs = Some tr'" "P tr tr'"
    using assms by (auto simp: careful_to_def split: option.splits)
  from careful_run_sound [OF tr(1)] have "honest_reachable ids (net_of tr)"
    unfolding honest_reachable_def by auto
  with that careful_run_sound [OF tr(2)] tr(3) show ?thesis by blast
qed

text \<open>
  \<open>change_leader\<close> continues \<open>elect2\<close> and \<open>replicate2\<close>: member 2 tells member 3 that index 1 is committed;
  member 3 times out, is elected in term 2 by member 2 and leads.
\<close>

definition change_leader :: "action list" where
  "change_leader = [DoReplicate 2, DoDeliver 10] @ replicate 10 (DoTick 3) @ [DoDeliver 13, DoDeliver 14]"

lemma change_run:
  obtains s s' where "honest_reachable [1, 2, 3] s" "(honest_step [1, 2, 3])\<^sup>*\<^sup>* s s'"
    "commitIndex (raftLog (nodes s 2)) = 1" "commitIndex (raftLog (nodes s' 3)) = 1"
    "length (entries (raftLog (nodes s 2))) = 2" "currentTerm (nodes s 2) = 1"
    "nstate (nodes s' 3) = StateLeader" "currentTerm (nodes s' 3) = 2"
    "map eCommand (entries (raftLog (nodes s 2))) = [[], [65]]"
proof -
  have "careful_to [1, 2, 3] (elect2 @ replicate2) change_leader (\<lambda>tr tr'.
      commitIndex (raftLog (tnodes tr 2)) = 1 \<and> commitIndex (raftLog (tnodes tr' 3)) = 1 \<and>
      length (entries (raftLog (tnodes tr 2))) = 2 \<and> currentTerm (tnodes tr 2) = 1 \<and>
      nstate (tnodes tr' 3) = StateLeader \<and> currentTerm (tnodes tr' 3) = 2 \<and>
      map eCommand (entries (raftLog (tnodes tr 2))) = [[], [65]])"
    by code_simp
  then show ?thesis by (rule careful_toE) (rule that, auto)
qed

theorem state_machine_safety_witness:
  "\<exists>s s' es es'. honest_reachable [1, 2, 3] s \<and> (honest_step [1, 2, 3])\<^sup>*\<^sup>* s s' \<and>
     node_CommittedEntries (nodes s 2) = Some es \<and> node_CommittedEntries (nodes s' 3) = Some es' \<and>
     length es = 1 \<and> length es' = 1 \<and> (prefix es es' \<or> prefix es' es)"
proof (rule change_run)
  fix s s'
  assume r: "honest_reachable [1, 2, 3] s" "(honest_step [1, 2, 3])\<^sup>*\<^sup>* s s'"
    "commitIndex (raftLog (nodes s 2)) = 1" "commitIndex (raftLog (nodes s' 3)) = 1"
  from state_machine_safety [OF members3 r(1,2), of 2 3] r show ?thesis by (auto simp: CommitIndex_def)
qed

theorem leader_completeness_witness:
  "\<exists>s s'. honest_reachable [1, 2, 3] s \<and> (honest_step [1, 2, 3])\<^sup>*\<^sup>* s s' \<and> nstate (nodes s' 3) = StateLeader \<and>
     currentTerm (nodes s' 3) = 2 \<and> prefix (entries (raftLog (nodes s 2))) (entries (raftLog (nodes s' 3)))"
proof (rule change_run)
  fix s s'
  assume r: "honest_reachable [1, 2, 3] s" "(honest_step [1, 2, 3])\<^sup>*\<^sup>* s s'"
    "commitIndex (raftLog (nodes s 2)) = 1" "length (entries (raftLog (nodes s 2))) = 2"
    "currentTerm (nodes s 2) = 1" "nstate (nodes s' 3) = StateLeader" "currentTerm (nodes s' 3) = 2"
  have "prefix (take (Suc (unat (commitIndex (raftLog (nodes s 2))))) (entries (raftLog (nodes s 2))))
      (entries (raftLog (nodes s' 3)))"
    by (rule leader_completeness [OF members3 r(1,2)]) (simp_all add: r)
  with r show ?thesis by (auto simp: take_all)
qed

end
