(* ===== verification/Spec2Isabelle.thy ===== *)
theory Spec2Isabelle
  imports Node_Props Progress Messages Peers Membership Log_Extra Codec Persist Snapshots Settings Machines
    Transport Cluster_Runs Cluster_Leaders Command_Line Agreement
begin

text \<open>
  consensus-raft: a Raft implementation in Go, and this verification of it.

  \<^bold>\<open>The program.\<close> A node (src/internal/node) is a state machine that a caller drives with ticks, messages and
  client commands; it answers with outbound messages and keeps its entries in a replicated log
  (src/internal/log). The package cluster simulates several nodes and the queues between them, with
  partitions; main.go runs such a cluster. Around this core stand an in-memory transport, cluster
  configurations (membership), the file formats of entries (codec), durable state (persist) and
  snapshots (snapshot), settings (config), and two state machines that apply committed commands
  (statemachine).

  \<^bold>\<open>Conventions.\<close> \<open>Prelude\<close> says how Go's types and panics are written: \<open>uint64\<close> is a \<open>64 word\<close>, slices are
  lists, maps are partial functions or association lists, a run-time panic is \<open>None\<close> and an error is a
  value. Operations keep the name of the Go function; a prefix tells apart those that several
  packages share, such as \<open>persist_Load\<close> and \<open>snapshot_Load\<close>.

  \<^bold>\<open>The log.\<close> \<open>Raft_Log\<close> models log.go, \<open>Log_State\<close> its persistent format, \<open>Log_Extra\<close> compact.go, iter.go,
  batch.go and stats.go. The invariant is \<open>log_ok\<close>: a sentinel at position 0, the index of an entry is its
  position, and the commit index points into the log. \<open>Log_Props\<close> shows conflict resolution, idempotence,
  refusal of gaps, the ranges returned and the bounds of the commit index; \<open>Log_State\<close> that
  deserialization accepts exactly what serialization produces; \<open>Log_Extra\<close> what compaction keeps and
  what it breaks, that iteration visits every entry once, and that averages are right up to the rounding of
  \<open>Floats\<close>.

  \<^bold>\<open>The node.\<close> \<open>Node\<close> models node.go, one definition per method, with the loops of a method as definitions of
  their own; \<open>Messages\<close> models message.go, \<open>Peers\<close> peers.go and timer.go. The random generator is the
  sequence of its answers. \<open>Node_Facts\<close> holds the frame and shape lemmas of the handlers, \<open>Node_Props\<close> and
  \<open>Messages\<close> what each handler does on every branch: votes, elections, appends, commitment, proposals,
  crashes and restarts. \<open>Progress\<close> composes them: enough votes elect, enough acknowledgements commit, and
  the exchange that finds where a follower agrees with its leader ends. \<open>Peers\<close> shows that the tracker's order statistic is the node's commit rule.

  \<^bold>\<open>The protocol.\<close> \<open>Quorum\<close> and \<open>Transition\<close> are the interfaces for majorities and for simulations.
  \<open>Protocol\<close> is an abstract Raft: terms, votes for candidates with up-to-date logs, logs, commit indices and the
  set of messages ever sent, with its safety invariant over auxiliary state (the leader of each term and
  the log it had). It has a parameter, the condition under which a follower acknowledges an append.
  \<open>Network\<close> connects the
  nodes' code to messages that can be delayed, lost, duplicated and reordered, with crashes and restarts, and
  shows that every step of the code is a sequence of steps of the protocol. \<open>Runs\<close> executes schedules;
  \<open>Safety\<close> has the results for every reachable state: election safety, leader append-only, log matching,
  monotone terms, absence of panics, and a run that breaks state machine safety, because a follower
  acknowledges entries that it never compared. \<open>Completeness\<close> is the argument of the Raft paper for committed
  entries, on the abstract protocol in which followers acknowledge only what an append covers; \<open>Agreement\<close>
  applies it to the code: in every run without the other acknowledgements, leaders hold all
  committed entries and members never report different ones.
  The members of a reachable state have the other members as their peers, as the node package
  expects; logs are shorter than \<open>2 ^ 63\<close> entries and terms do not wrap, which the step relation
  requires of proposals and timeouts.

  \<^bold>\<open>The cluster and the program.\<close> \<open>Transport\<close> models transport.go and states the contract of a message bus, which the
  queues of the cluster satisfy as well. \<open>Cluster\<close> models cluster.go and partition.go as written, each node
  among its own peers; the order in which Go visits the map of queues is an argument. It shows that
  the cluster never panics once it is allocated, for which the number of nodes must not be negative or above \<open>max_elems\<close>, what partitions
  block, and what follows from a node being its own peer. \<open>Cluster_Leaders\<close> has the invariant of the simulated
  clusters, whose leaders are deposed by their own heartbeats;
  \<open>Cluster_Runs\<close> has two runs in which a node being its own peer gives a term two leaders.
  \<open>Command_Line\<close> models main.go: for every generator and order the program panics only for too many nodes, and
  otherwise completes with exactly the output its run calls for; with a single node it always fails. Its loops have the bounds of the source, 200 and 50 rounds.

  \<^bold>\<open>Files.\<close> \<open>Bytes\<close> has the integer encodings and the contract of a decoder that returns the rest of its
  input; \<open>Sinks\<close> the contract of a writer and a disk that can refuse, fill up and fail to sync. \<open>Codec\<close>,
  \<open>Persist\<close>, \<open>Snapshots\<close> and \<open>Settings\<close> model the four packages on top of them, with round trips,
  exact acceptance and the outcomes of failures. \<open>Gostrings\<close>, \<open>Utf8\<close> and \<open>Json\<close> model what the sources use of
  the packages strings, strconv, unicode/utf8 and encoding/json: the texts that are written, the grammar that is accepted,
  the limit of 10000 on its nesting and the replacement of bytes that are not UTF-8.

  \<^bold>\<open>Membership and state machines.\<close> \<open>Membership\<close> models membership.go and shows that majorities meet, also across
  the addition of a member. \<open>Machines\<close> models the key-value store and the counter, with the standard
  library's splitting, trimming and number parsing and the panics of a nil map, and shows that snapshots
  and logs give the same state when commands are valid UTF-8, and which keys are merged when they are not.

  \<^bold>\<open>This theory\<close> has what spans components: elections and configurations, nodes and state files, and replicas
  of the store that are fed by the committed entries of different members.

  \<^bold>\<open>Not modelled.\<close> The locks of the state machines and the transport: every operation is a single critical section.
  The generator behind \<open>NewSeededRNG\<close>, flag parsing, the operating system beyond the disk of \<open>Sinks\<close>
  (where what was written stays readable after a failed sync), memory other than the limit on a single allocation, and the tests.
  The errors of encoding/json are one value, since the callers only pass them on. Slices are lists, so the sharing
  of backing arrays is not visible; pointers that \<open>Cluster.Node\<close> and \<open>AllNodes\<close> hand out are the nodes they
  point to.
\<close>

subsection \<open>Elections and configurations\<close>

text \<open>The configuration of a node: itself and its peers.\<close>

abbreviation node_config :: "node \<Rightarrow> config" where
  "node_config n \<equiv> NewConfig (nid n # peers n)"

lemma node_config_ok: "distinct (nid n # peers n) \<Longrightarrow> cfg_ok (node_config n)"
  using sorted_sort [of "nid n # peers n"] by (simp add: cfg_ok_def NewConfig_def distinct_insort)

lemma majority_Quorum: "majority n = Quorum (node_config n)"
  by (simp add: majority_def Quorum_def NewConfig_def Let_def)

lemma voters_quorum:
  assumes "distinct (nid n # peers n)"
  shows "majority n \<le> countVotes n \<longleftrightarrow>
    cfg_quorum (node_config n) {v \<in> set (nid n # peers n). mget (votesGranted n) False v}"
  using countVotes_card [OF assms] majority_Quorum [of n]
  by (auto simp: cfg_quorum_def IsMajority_def NewConfig_def set_insort_key)

text \<open>C25: Elections are quorum decisions of the membership package. A node's majority is the quorum of the
  configuration made of itself and its peers, and two candidates of one configuration that both have
  enough votes to lead share a voter.\<close>

theorem elections_share_voter:
  assumes "distinct (nid n # peers n)" and "distinct (nid m # peers m)"
    and "set (nid n # peers n) = set (nid m # peers m)"
    and "majority n \<le> countVotes n" and "majority m \<le> countVotes m"
  shows "majority n = Quorum (NewConfig (nid n # peers n)) \<and>
    (\<exists>v \<in> set (nid n # peers n). mget (votesGranted n) False v \<and> mget (votesGranted m) False v)"
proof -
  have same: "node_config n = node_config m"
    using assms(3) by (intro cfg_ok_eqI node_config_ok assms) (auto simp: NewConfig_def set_insort_key)
  have "{v \<in> set (nid n # peers n). mget (votesGranted n) False v} \<inter>
      {v \<in> set (nid m # peers m). mget (votesGranted m) False v} \<noteq> {}"
    using cfgs.quorums_meet [of "node_config n"] node_config_ok [OF assms(1)] same assms(4,5)
      voters_quorum [OF assms(1)] voters_quorum [OF assms(2)] by auto
  then show ?thesis using majority_Quorum [of n] by auto
qed

subsection \<open>Nodes and state files\<close>

text \<open>C27: The state file of package persist is enough to rebuild a node. When the term, the vote and all
  entries of a node with a well-formed log have been saved without an error, loading the file
  gives the term and the vote, and appending the loaded entries to a new log gives the node's log,
  with nothing committed.\<close>

theorem durable_state:
  assumes "log_ok (raftLog n)" and "AllEntries n = Some es"
    and "length es \<le> 2 ^ 24" and "\<forall>e \<in> set es. length (eCommand e) \<le> 2 ^ 24" and "openable d"
    and "persist_Save p \<lparr>svCurrentTerm = currentTerm n, svVotedFor = votedFor n, svEntries = es\<rparr> d = (None, d')"
  shows "\<exists>s. persist_Load p d' = Inr s \<and> svCurrentTerm s = currentTerm n \<and> svVotedFor s = votedFor n \<and>
    Append log_New (svEntries s) = Some (None, \<lparr>entries = entries (raftLog n), commitIndex = 0\<rparr>)"
proof -
  have "savable \<lparr>svCurrentTerm = currentTerm n, svVotedFor = votedFor n, svEntries = es\<rparr>"
    using assms(3,4) by (simp add: savable_def)
  from persist_Save_Load [OF this assms(5,6)] have
    "persist_Load p d' = Inr \<lparr>svCurrentTerm = currentTerm n, svVotedFor = votedFor n, svEntries = es\<rparr>" .
  moreover have "Append log_New es = Some (None, \<lparr>entries = entries (raftLog n), commitIndex = 0\<rparr>)"
    using Append_fresh [of "entries (raftLog n)"] AllEntries_eq [OF assms(1)] assms(1,2) by (simp add: log_ok_def)
  ultimately show ?thesis by simp
qed

subsection \<open>Nodes and stores\<close>

text \<open>C26: Replicas of the store. In a run in which acknowledgements are covered by the append they answer, let a member
  apply what it has committed to an empty store and take a snapshot. Any store that restores the snapshot and applies what another
  member, then or later, has committed beyond it shows the same keys and values as a store to which that
  member applied everything, provided the commands are valid UTF-8.\<close>

theorem replica_catch_up:
  assumes "members_ok ids" and "honest_reachable ids s" and "(honest_step ids)\<^sup>*\<^sup>* s s'"
    and "i \<in> set ids" and "j \<in> set ids"
    and "node_CommittedEntries (nodes s i) = Some es" and "node_CommittedEntries (nodes s' j) = Some es'"
    and "length es \<le> length es'" and "\<forall>e \<in> set es. utf8_ok (eCommand e)"
  shows "\<exists>s1 data r r1 r2. kv.replay es NewKV = Some s1 \<and> KV_Snapshot s1 = Inr data \<and>
    KV_Restore data other = (None, r) \<and> kv.replay (drop (length es) es') r = Some r1 \<and>
    kv.replay es' NewKV = Some r2 \<and> KV_Get r1 = KV_Get r2"
proof -
  have "prefix es es' \<or> prefix es' es" using honest_reports [OF assms(1-5)] assms(6,7) by simp
  with assms(8) have "prefix es es'" by (auto simp: prefix_def)
  then have "es' = es @ drop (length es) es'" by (auto simp: prefix_def)
  moreover have "kv_utf8 NewKV" by (rule NewKV_utf8)
  ultimately show ?thesis using KV_catch_up [of NewKV es other "drop (length es) es'"] assms(9) by metis
qed

subsection \<open>Witnesses\<close>

definition winner :: "u64 \<Rightarrow> u64 \<Rightarrow> node" where
  "winner i j = (New i [j, 3] \<lparr>draws = (\<lambda>_ _. 0), drawn = 0\<rparr>)\<lparr>votesGranted := [i \<mapsto> True, 3 \<mapsto> True]\<rparr>"

theorem elections_share_voter_witness:
  "\<exists>v \<in> {1, 2, 3}. mget (votesGranted (winner 1 2)) False v \<and> mget (votesGranted (winner 2 1)) False v"
proof -
  have "distinct (nid (winner 1 2) # peers (winner 1 2))" "distinct (nid (winner 2 1) # peers (winner 2 1))"
    "set (nid (winner 1 2) # peers (winner 1 2)) = set (nid (winner 2 1) # peers (winner 2 1))"
    "majority (winner 1 2) \<le> countVotes (winner 1 2)" "majority (winner 2 1) \<le> countVotes (winner 2 1)"
    "set (nid (winner 1 2) # peers (winner 1 2)) = {1, 2, 3}"
    by (auto simp: winner_def majority_def countVotes_def Let_def)
  with elections_share_voter [of "winner 1 2" "winner 2 1"] show ?thesis by metis
qed

theorem durable_state_witness:
  "\<exists>d' s. persist_Save ''f'' \<lparr>svCurrentTerm = 0, svVotedFor = 0, svEntries = []\<rparr> (empty_disk 100) = (None, d') \<and>
     persist_Load ''f'' d' = Inr s \<and> svCurrentTerm s = 0"
proof -
  let ?n = "winner 1 2"
  have "fst (persist_Save ''f'' \<lparr>svCurrentTerm = 0, svVotedFor = 0, svEntries = []\<rparr> (empty_disk 100)) = None"
    by (simp add: save_run done_ok_def)
  then obtain d' where d': "persist_Save ''f'' \<lparr>svCurrentTerm = 0, svVotedFor = 0, svEntries = []\<rparr> (empty_disk 100) = (None, d')"
    by (metis prod.collapse)
  have n: "log_ok (raftLog ?n)" "currentTerm ?n = 0" "votedFor ?n = 0" "AllEntries ?n = Some []"
    by (simp_all add: winner_def AllEntries_eq, simp add: log_New_def)
  have "openable (empty_disk 100)" by (simp add: empty_disk_def)
  from durable_state [OF n(1,4) _ _ this, of "''f''" d'] d' n show ?thesis by auto
qed

theorem replica_catch_up_witness:
  "\<exists>s s' es es' s1 data r r1 r2. honest_reachable [1, 2, 3] s \<and> (honest_step [1, 2, 3])\<^sup>*\<^sup>* s s' \<and> length es = 1 \<and>
     node_CommittedEntries (nodes s 2) = Some es \<and> node_CommittedEntries (nodes s' 3) = Some es' \<and>
     kv.replay es NewKV = Some s1 \<and> KV_Snapshot s1 = Inr data \<and> KV_Restore data NewKV = (None, r) \<and>
     kv.replay (drop (length es) es') r = Some r1 \<and> kv.replay es' NewKV = Some r2 \<and> KV_Get r1 = KV_Get r2"
proof (rule change_run)
  fix s s'
  assume r: "honest_reachable [1, 2, 3] s" "(honest_step [1, 2, 3])\<^sup>*\<^sup>* s s'"
    "commitIndex (raftLog (nodes s 2)) = 1" "commitIndex (raftLog (nodes s' 3)) = 1"
    "map eCommand (entries (raftLog (nodes s 2))) = [[], [65]]"
  from honest_reports [OF members3 r(1,2), of 2 3] r(3,4) obtain es es' where
    es: "node_CommittedEntries (nodes s 2) = Some es" "node_CommittedEntries (nodes s' 3) = Some es'" "length es = 1" "length es' = 1"
    by (auto simp: CommitIndex_def)
  have "eCommand ` set (entries (raftLog (nodes s 2))) = {[], [65]}"
    using arg_cong [OF r(5), of set] by simp
  moreover have "set es \<subseteq> set (entries (raftLog (nodes s 2)))"
    using report_take(2) [OF honest_log_ok [OF r(1) members3], of 2 es] es(1) set_drop_subset set_take_subset
    by (metis node_CommittedEntries_def subset_trans)
  ultimately have "eCommand e = [] \<or> eCommand e = [65]" if "e \<in> set es" for e using that by blast
  moreover have "utf8_ok []" "utf8_ok [65]" by (simp_all add: utf8_ok_def runes.simps(2) rune_len_def rune_size_def)
  ultimately have u: "\<forall>e \<in> set es. utf8_ok (eCommand e)" by fastforce
  have "\<exists>s1 data r r1 r2. kv.replay es NewKV = Some s1 \<and> KV_Snapshot s1 = Inr data \<and> KV_Restore data NewKV = (None, r) \<and>
      kv.replay (drop (length es) es') r = Some r1 \<and> kv.replay es' NewKV = Some r2 \<and> KV_Get r1 = KV_Get r2"
    by (rule replica_catch_up [OF members3 r(1,2) _ _ es(1,2) _ u]) (simp_all add: es(3,4))
  with r(1,2) es(1-3) show ?thesis by blast
qed

end
